(* ===== verification/Prelude.thy ===== *)
theory Prelude
  imports Main "HOL-Library.Word"
begin

text \<open>
  Shared vocabulary of the development.

  Every operation of the library either returns or ends the process: an \<open>assert\<close> that
  does not hold, an explicit \<open>abort()\<close>, or an access the C++ language gives no meaning to
  (a read outside an array, \<open>std::copy\<close> on a reversed range, a call through a null
  pointer, a signed overflow). The build file fixes \<open>CMAKE_BUILD_TYPE\<close> to \<open>Debug\<close>, so \<open>assert\<close> is live.
  All of these are values of \<open>failure\<close>; an operation has type \<open>'a result\<close>, with
  \<open>Inl\<close> the failure and \<open>Inr\<close> the normal return.
\<close>

section \<open>Failures and results\<close>

datatype failure =
    AssertFail string
  | Abort
  | OutOfBounds
  | BadRange
  | NullPointer
  | BadFunctionCall
  | SignedOverflow
  | BadConversion

type_synonym 'a result = "failure + 'a"

definition bindE :: "'a result \<Rightarrow> ('a \<Rightarrow> 'b result) \<Rightarrow> 'b result" where
  "bindE m f = (case m of Inl e \<Rightarrow> Inl e | Inr x \<Rightarrow> f x)"

definition assert_that :: "string \<Rightarrow> bool \<Rightarrow> 'a result \<Rightarrow> 'a result" where
  "assert_that what P k = (if P then k else Inl (AssertFail what))"

named_theorems result_simps \<open>inversion of results: which runs return normally\<close>

lemma bindE_Inl [simp]: "bindE (Inl e) f = Inl e"
  by (simp add: bindE_def)

lemma bindE_Inr [simp]: "bindE (Inr x) f = f x"
  by (simp add: bindE_def)

lemma bindE_eq_Inr [result_simps]: "bindE m f = Inr y \<longleftrightarrow> (\<exists>x. m = Inr x \<and> f x = Inr y)"
  by (cases m) auto

lemma bindE_assoc: "bindE (bindE m f) g = bindE m (\<lambda>x. bindE (f x) g)"
  by (cases m) auto

lemma bindE_cong [fundef_cong]:
  "m = m' \<Longrightarrow> (\<And>x. m' = Inr x \<Longrightarrow> f x = f' x) \<Longrightarrow> bindE m f = bindE m' f'"
  by (cases m') auto

lemma assert_that_True [simp]: "P \<Longrightarrow> assert_that what P k = k"
  by (simp add: assert_that_def)

lemma assert_that_False [simp]: "\<not> P \<Longrightarrow> assert_that what P k = Inl (AssertFail what)"
  by (simp add: assert_that_def)

lemma assert_that_eq_Inr [result_simps]: "assert_that what P k = Inr y \<longleftrightarrow> P \<and> k = Inr y"
  by (simp add: assert_that_def)

lemma assert_that_cong [fundef_cong]:
  "P = P' \<Longrightarrow> (P' \<Longrightarrow> k = k') \<Longrightarrow> assert_that what P k = assert_that what P' k'"
  by (simp add: assert_that_def)

section \<open>Runs of operations\<close>

text \<open>A list of operations performed one after the other; the first failure ends the run.\<close>

primrec run_all :: "('op \<Rightarrow> 's \<Rightarrow> 's result) \<Rightarrow> 'op list \<Rightarrow> 's \<Rightarrow> 's result" where
  "run_all f [] s = Inr s"
| "run_all f (x # xs) s = bindE (f x s) (run_all f xs)"

lemma run_all_append: "run_all f (xs @ ys) s = bindE (run_all f xs s) (run_all f ys)"
proof (induction xs arbitrary: s)
  case (Cons x xs)
  then show ?case by (cases "f x s") simp_all
qed simp

lemma run_all_concat: "run_all (\<lambda>x. run_all f (g x)) xs s = run_all f (concat (map g xs)) s"
proof (induction xs arbitrary: s)
  case (Cons x xs)
  show ?case by (cases "run_all f (g x) s") (simp_all add: run_all_append Cons.IH)
qed simp

lemma run_all_inv:
  assumes step: "\<And>x s s'. x \<in> set xs \<Longrightarrow> I s \<Longrightarrow> f x s = Inr s' \<Longrightarrow> I s'"
    and start: "I s" and run: "run_all f xs s = Inr s'"
  shows "I s'"
  using assms
proof (induction xs arbitrary: s)
  case Nil
  then show ?case by simp
next
  case (Cons x xs)
  from Cons.prems(3) obtain t where t: "f x s = Inr t" "run_all f xs t = Inr s'"
    by (auto simp: result_simps)
  show ?case
  proof (rule Cons.IH)
    show "I t" using Cons.prems(1,2) t(1) by auto
  qed (use Cons.prems(1) t(2) in auto)
qed

section \<open>Transition systems\<close>

text \<open>
  The contract behind every "this always holds" property: a set of start states, a step
  relation, and a predicate that the start states have and the steps keep.
\<close>

inductive reach :: "('s \<Rightarrow> bool) \<Rightarrow> ('s \<Rightarrow> 's \<Rightarrow> bool) \<Rightarrow> 's \<Rightarrow> bool"
  for init :: "'s \<Rightarrow> bool" and step :: "'s \<Rightarrow> 's \<Rightarrow> bool" where
  reach_start: "init s \<Longrightarrow> reach init step s"
| reach_step: "reach init step s \<Longrightarrow> step s t \<Longrightarrow> reach init step t"

locale invariant_system =
  fixes start :: "'s \<Rightarrow> bool"
    and step :: "'s \<Rightarrow> 's \<Rightarrow> bool"
    and inv :: "'s \<Rightarrow> bool"
  assumes inv_start: "start s \<Longrightarrow> inv s"
    and inv_step: "inv s \<Longrightarrow> step s t \<Longrightarrow> inv t"
begin

lemma reach_inv: "reach start step s \<Longrightarrow> inv s"
  by (induction rule: reach.induct) (auto intro: inv_start inv_step)

lemma steps_inv: "step\<^sup>*\<^sup>* s t \<Longrightarrow> inv s \<Longrightarrow> inv t"
  by (induction rule: rtranclp_induct) (auto intro: inv_step)

end

section \<open>Arrays as lists\<close>

text \<open>
  Reading \<open>n\<close> elements from position \<open>i\<close> of an array, and copying a list over the elements
  from position \<open>i\<close>. Both check the bounds, which the C++ code does not.
\<close>

definition read_at :: "'a list \<Rightarrow> nat \<Rightarrow> nat \<Rightarrow> 'a list result" where
  "read_at xs i n = (if i + n \<le> length xs then Inr (take n (drop i xs)) else Inl OutOfBounds)"

definition copy_into :: "'a list \<Rightarrow> nat \<Rightarrow> 'a list \<Rightarrow> 'a list result" where
  "copy_into xs i ys =
     (if i + length ys \<le> length xs then Inr (take i xs @ ys @ drop (i + length ys) xs)
      else Inl OutOfBounds)"

lemma read_at_eq_Inr [result_simps]:
  "read_at xs i n = Inr ys \<longleftrightarrow> i + n \<le> length xs \<and> ys = take n (drop i xs)"
  by (auto simp: read_at_def)

lemma copy_into_eq_Inr [result_simps]:
  "copy_into xs i ys = Inr zs \<longleftrightarrow>
     i + length ys \<le> length xs \<and> zs = take i xs @ ys @ drop (i + length ys) xs"
  by (auto simp: copy_into_def)

lemma copy_into_returns: "i + length ys \<le> length xs \<Longrightarrow> \<exists>zs. copy_into xs i ys = Inr zs"
  by (simp add: copy_into_def)

lemma copy_into_length: "copy_into xs i ys = Inr zs \<Longrightarrow> length zs = length xs"
  by (auto simp: result_simps)

lemma copy_into_nth:
  assumes "copy_into xs i ys = Inr zs" and "j < length xs"
  shows "zs ! j = (if i \<le> j \<and> j < i + length ys then ys ! (j - i) else xs ! j)"
  using assms by (auto simp: result_simps nth_append)

lemma read_at_nth:
  "read_at xs i n = Inr ys \<Longrightarrow> j < n \<Longrightarrow> ys ! j = xs ! (i + j)"
  by (auto simp: result_simps)

section \<open>Arithmetic of ring indices\<close>

lemma mod_once: "a < s + s \<Longrightarrow> a mod s = (if a < s then a else a - s)" for a s :: nat
  by (simp add: mod_if [of a s])

end
