(* ===== verification/Stream_Spec.thy ===== *)
theory Stream_Spec
  imports Prelude
begin

text \<open>
  The contract of a connection's sending side. \<open>stream\<close> is everything the connection has accepted
  so far: the bytes its peer can receive, followed by the bytes still waiting. \<open>send\<close> adds a
  message at its end; \<open>flush\<close>, which the event loop calls when the descriptor can be written,
  moves bytes from waiting to sent and adds none.
\<close>

datatype stream_op = Send string | Flush

fun stream_input :: "stream_op list \<Rightarrow> string" where
  "stream_input [] = []"
| "stream_input (Send m # ops) = m @ stream_input ops"
| "stream_input (Flush # ops) = stream_input ops"

fun perform ::
  "(string \<Rightarrow> 'w \<Rightarrow> 'w result) \<Rightarrow> ('w \<Rightarrow> 'w result) \<Rightarrow> stream_op \<Rightarrow> 'w \<Rightarrow> 'w result" where
  "perform send flush (Send m) = send m"
| "perform send flush Flush = flush"

text \<open>Every operation is performed where its guard holds.\<close>

fun guarded ::
  "(string \<Rightarrow> 'w \<Rightarrow> 'w result) \<Rightarrow> ('w \<Rightarrow> 'w result) \<Rightarrow> (string \<Rightarrow> 'w \<Rightarrow> bool) \<Rightarrow> ('w \<Rightarrow> bool)
    \<Rightarrow> stream_op list \<Rightarrow> 'w \<Rightarrow> bool" where
  "guarded send flush send_ok flush_ok [] w \<longleftrightarrow> True"
| "guarded send flush send_ok flush_ok (Send m # ops) w \<longleftrightarrow> send_ok m w
     \<and> (case send m w of Inl e \<Rightarrow> False | Inr w' \<Rightarrow> guarded send flush send_ok flush_ok ops w')"
| "guarded send flush send_ok flush_ok (Flush # ops) w \<longleftrightarrow> flush_ok w
     \<and> (case flush w of Inl e \<Rightarrow> False | Inr w' \<Rightarrow> guarded send flush send_ok flush_ok ops w')"

locale ordered_stream =
  fixes inv :: "'w \<Rightarrow> bool"
    and stream :: "'w \<Rightarrow> string"
    and send :: "string \<Rightarrow> 'w \<Rightarrow> 'w result"
    and flush :: "'w \<Rightarrow> 'w result"
    and send_ok :: "string \<Rightarrow> 'w \<Rightarrow> bool"
    and flush_ok :: "'w \<Rightarrow> bool"
  assumes send_law: "inv w \<Longrightarrow> send_ok m w \<Longrightarrow>
      \<exists>w'. send m w = Inr w' \<and> inv w' \<and> stream w' = stream w @ m"
    and flush_law: "inv w \<Longrightarrow> flush_ok w \<Longrightarrow>
      \<exists>w'. flush w = Inr w' \<and> inv w' \<and> stream w' = stream w"
begin

lemma stream_grows_by_input:
  "inv w \<Longrightarrow> guarded send flush send_ok flush_ok ops w \<Longrightarrow>
     \<exists>w'. run_all (perform send flush) ops w = Inr w' \<and> inv w' \<and> stream w' = stream w @ stream_input ops"
proof (induction ops arbitrary: w rule: stream_input.induct)
  case (2 m ops)
  then obtain w1 where "send m w = Inr w1" "inv w1" "stream w1 = stream w @ m" "guarded send flush send_ok flush_ok ops w1"
    using send_law by fastforce
  with "2.IH" show ?case by fastforce
next
  case (3 ops)
  then obtain w1 where "flush w = Inr w1" "inv w1" "stream w1 = stream w" "guarded send flush send_ok flush_ok ops w1"
    using flush_law by fastforce
  with "3.IH" show ?case by fastforce
qed simp

end

end
