(* ===== verification/CapsuledAddr.thy ===== *)
theory CapsuledAddr
  imports Decimal
begin

unbundle bit_operations_syntax

text \<open>
  \<open>base/CapsuledAddr.h\<close> and \<open>base/CapsuledAddr.cpp\<close>: the wrapper of \<open>struct sockaddr_in\<close>.
  Ports and addresses are kept in network byte order, as the code keeps them; the byte order
  of the host is the argument \<open>big_endian\<close> of the conversions. \<open>inet_pton\<close> and
  \<open>inet_ntop\<close> for \<open>AF_INET\<close> are written out from their documented format (four decimal
  octets without leading zeros). The constructor from a text calls \<open>inet_pton\<close> inside an
  \<open>assert\<close>, so whether it is called at all depends on \<open>NDEBUG\<close>, an argument here.
\<close>

section \<open>Byte order\<close>

definition bswap16 :: "16 word \<Rightarrow> 16 word" where
  "bswap16 x = push_bit 8 x OR drop_bit 8 x"

definition join_words :: "'a::len word \<Rightarrow> 'a word \<Rightarrow> 'b::len word" where
  "join_words hi lo = push_bit LENGTH('a) (ucast hi) OR ucast lo"

definition bswap32 :: "32 word \<Rightarrow> 32 word" where
  "bswap32 x = join_words (bswap16 (ucast x)) (bswap16 (ucast (drop_bit 16 x)))"

definition bswap64 :: "64 word \<Rightarrow> 64 word" where
  "bswap64 x = join_words (bswap32 (ucast x)) (bswap32 (ucast (drop_bit 32 x)))"

definition hostToNetwork16 :: "bool \<Rightarrow> 16 word \<Rightarrow> 16 word" where
  "hostToNetwork16 big_endian host16 = (if big_endian then host16 else bswap16 host16)"

definition hostToNetwork32 :: "bool \<Rightarrow> 32 word \<Rightarrow> 32 word" where
  "hostToNetwork32 big_endian host32 = (if big_endian then host32 else bswap32 host32)"

definition hostToNetwork64 :: "bool \<Rightarrow> 64 word \<Rightarrow> 64 word" where
  "hostToNetwork64 big_endian host64 = (if big_endian then host64 else bswap64 host64)"

definition networkToHost16 :: "bool \<Rightarrow> 16 word \<Rightarrow> 16 word" where
  "networkToHost16 big_endian net16 = (if big_endian then net16 else bswap16 net16)"

definition networkToHost32 :: "bool \<Rightarrow> 32 word \<Rightarrow> 32 word" where
  "networkToHost32 big_endian net32 = (if big_endian then net32 else bswap32 net32)"

definition networkToHost64 :: "bool \<Rightarrow> 64 word \<Rightarrow> 64 word" where
  "networkToHost64 big_endian net64 = (if big_endian then net64 else bswap64 net64)"

lemma join_words_low:
  "LENGTH('b) = 2 * LENGTH('a) \<Longrightarrow>
     ucast (join_words y z :: 'b::len word) = (z :: 'a::len word)"
  unfolding join_words_def by (rule bit_word_eqI) (auto simp: bit_simps)

lemma join_words_high:
  "LENGTH('b) = 2 * LENGTH('a) \<Longrightarrow>
     ucast (drop_bit LENGTH('a) (join_words y z :: 'b::len word)) = (y :: 'a::len word)"
  unfolding join_words_def
  by (rule bit_word_eqI) (auto simp: bit_simps dest: bit_imp_le_length)

lemma join_words_halves:
  "LENGTH('b) = 2 * LENGTH('a) \<Longrightarrow>
     join_words (ucast (drop_bit LENGTH('a) x) :: 'a::len word) (ucast x :: 'a word)
       = (x :: 'b::len word)"
  unfolding join_words_def
  by (rule bit_word_eqI) (auto simp: bit_simps dest: bit_imp_le_length)

lemma bswap16_bswap16 [simp]: "bswap16 (bswap16 x) = x"
  unfolding bswap16_def by (rule bit_word_eqI) (auto simp: bit_simps)

lemma bswap32_bswap32 [simp]: "bswap32 (bswap32 x) = x"
  using join_words_low [where 'a = 16 and 'b = 32] join_words_high [where 'a = 16 and 'b = 32]
    join_words_halves [where 'a = 16 and 'b = 32]
  by (simp add: bswap32_def)

lemma bswap64_bswap64 [simp]: "bswap64 (bswap64 x) = x"
  using join_words_low [where 'a = 32 and 'b = 64] join_words_high [where 'a = 32 and 'b = 64]
    join_words_halves [where 'a = 32 and 'b = 64]
  by (simp add: bswap64_def)

lemmas byte_order = hostToNetwork16_def hostToNetwork32_def hostToNetwork64_def
  networkToHost16_def networkToHost32_def networkToHost64_def

text \<open>
  On a host of either byte order, the three network-to-host conversions invert the three
  host-to-network conversions.
\<close>

theorem byte_order_roundtrip:
  "networkToHost16 big_endian (hostToNetwork16 big_endian p) = p
   \<and> networkToHost32 big_endian (hostToNetwork32 big_endian a) = a
   \<and> networkToHost64 big_endian (hostToNetwork64 big_endian q) = q"
  by (simp add: byte_order)

section \<open>Dotted decimal addresses\<close>

fun split_on :: "char \<Rightarrow> string \<Rightarrow> string list" where
  "split_on d [] = [[]]"
| "split_on d (c # cs) =
     (if c = d then [] # split_on d cs
      else (case split_on d cs of [] \<Rightarrow> [[c]] | p # ps \<Rightarrow> (c # p) # ps))"

definition octet_of :: "string \<Rightarrow> nat option" where
  "octet_of s =
     (if s \<noteq> [] \<and> list_all is_digit s \<and> (length s = 1 \<or> hd s \<noteq> CHR ''0'') \<and> read_nat s < 256
      then Some (read_nat s) else None)"

definition host_addr :: "nat \<Rightarrow> nat \<Rightarrow> nat \<Rightarrow> nat \<Rightarrow> 32 word" where
  "host_addr a b c d = of_nat (((a * 256 + b) * 256 + c) * 256 + d)"

definition inet_pton :: "bool \<Rightarrow> string \<Rightarrow> 32 word option" where
  "inet_pton big_endian s =
     (case map octet_of (split_on CHR ''.'' s) of
        [Some a, Some b, Some c, Some d] \<Rightarrow> Some (hostToNetwork32 big_endian (host_addr a b c d))
      | _ \<Rightarrow> None)"

definition octets :: "32 word \<Rightarrow> nat list" where
  "octets h = (let n = unat h in
     [n div 256 div 256 div 256, n div 256 div 256 mod 256, n div 256 mod 256, n mod 256])"

definition inet_ntop :: "bool \<Rightarrow> 32 word \<Rightarrow> string" where
  "inet_ntop big_endian net =
     (case map show_nat (octets (networkToHost32 big_endian net)) of
        [a, b, c, d] \<Rightarrow> a @ ''.'' @ b @ ''.'' @ c @ ''.'' @ d
      | _ \<Rightarrow> ''INVALID'')"

section \<open>The class\<close>

record sockaddr_in =
  sin_family :: "16 word"
  sin_port :: "16 word"
  s_addr :: "32 word"

definition AF_INET :: "16 word" where "AF_INET = 2"
definition INADDR_ANY :: "32 word" where "INADDR_ANY = 0"

definition zero_addr :: sockaddr_in where
  "zero_addr = \<lparr>sin_family = 0, sin_port = 0, s_addr = 0\<rparr>"

definition CapsuledAddr_port :: "bool \<Rightarrow> 16 word \<Rightarrow> sockaddr_in" where
  "CapsuledAddr_port big_endian port =
     zero_addr\<lparr>sin_family := AF_INET, sin_port := hostToNetwork16 big_endian port,
       s_addr := hostToNetwork32 big_endian INADDR_ANY\<rparr>"

definition CapsuledAddr_ip :: "bool \<Rightarrow> bool \<Rightarrow> string \<Rightarrow> 16 word \<Rightarrow> sockaddr_in result" where
  "CapsuledAddr_ip big_endian ndebug ip port =
     (let addr = zero_addr\<lparr>sin_family := AF_INET,
                           sin_port := hostToNetwork16 big_endian port\<rparr>
      in if ndebug then Inr addr
         else (case inet_pton big_endian ip of
                 Some a \<Rightarrow> Inr (addr\<lparr>s_addr := a\<rparr>)
               | None \<Rightarrow> Inl (AssertFail ''inet_pton > 0'')))"

definition CapsuledAddr_of :: "sockaddr_in \<Rightarrow> sockaddr_in" where
  "CapsuledAddr_of addr = addr"

definition addr_toString :: "bool \<Rightarrow> sockaddr_in \<Rightarrow> string" where
  "addr_toString big_endian a =
     (let host = inet_ntop big_endian (s_addr a);
          port = networkToHost16 big_endian (sin_port a)
      in snprintf 32 (host @ '':'' @ show_nat (unat port)))"


section \<open>Printing what was parsed\<close>

lemma digit_digit_val: "is_digit c \<Longrightarrow> digit (digit_val c) = c"
  by (simp add: digit_def digit_val_def is_digit_def)

lemma digit_val_less: "is_digit c \<Longrightarrow> digit_val c < 10"
  unfolding digit_val_def is_digit_def by linarith

lemma digit_val_pos: "is_digit c \<Longrightarrow> c \<noteq> CHR ''0'' \<Longrightarrow> 0 < digit_val c"
  by (metis digit_digit_val digit_eval(1) gr0I)

lemma read_nat_pos:
  "s \<noteq> [] \<Longrightarrow> list_all is_digit s \<Longrightarrow> hd s \<noteq> CHR ''0'' \<Longrightarrow> 0 < read_nat s"
proof (induction s rule: rev_induct)
  case (snoc c s)
  then show ?case
    using read_nat_snoc [of "[]" c] digit_val_pos [of c] by (cases "s = []") auto
qed simp

lemma show_read_nat:
  assumes "s \<noteq> []" "list_all is_digit s" "length s = 1 \<or> hd s \<noteq> CHR ''0''"
  shows "show_nat (read_nat s) = s"
  using assms
proof (induction s rule: rev_induct)
  case (snoc c s)
  note c = digit_val_less [of c] digit_digit_val [of c]
  show ?case
  proof (cases "s = []")
    case True
    then show ?thesis
      using snoc.prems c read_nat_snoc [of "[]" c] by (simp add: show_nat.simps)
  next
    case False
    with snoc.prems have "hd s \<noteq> CHR ''0''" "list_all is_digit s" by auto
    with False snoc.IH read_nat_pos [of s] have "show_nat (read_nat s) = s" "0 < read_nat s"
      by auto
    then show ?thesis
      using snoc.prems c by (simp add: show_nat.simps [of "10 * read_nat s + digit_val c"])
  qed
qed simp

lemma octet_of_Some:
  "octet_of s = Some a \<Longrightarrow> a < 256 \<and> show_nat a = s"
  by (auto simp: octet_of_def show_read_nat split: if_splits)

fun join_on :: "char \<Rightarrow> string list \<Rightarrow> string" where
  "join_on d [] = []"
| "join_on d [p] = p"
| "join_on d (p # q # ps) = p @ d # join_on d (q # ps)"

lemma split_on_not_Nil: "split_on d s \<noteq> []"
  by (induction s) (auto split: list.splits)

lemma join_split_on [simp]: "join_on d (split_on d s) = s"
proof (induction s)
  case (Cons c cs)
  obtain p ps where "split_on d cs = p # ps"
    using split_on_not_Nil by (cases "split_on d cs") auto
  with Cons show ?case by (cases ps) auto
qed simp

lemma octets_host_addr:
  assumes "a < 256" "b < 256" "c < 256" "d < 256"
  shows "octets (host_addr a b c d) = [a, b, c, d]"
proof -
  have "unat (host_addr a b c d) = ((a * 256 + b) * 256 + c) * 256 + d"
    using assms unfolding host_addr_def unsigned_of_nat of_nat_id
    by (intro take_bit_nat_eq_self) simp
  moreover have "(x * 256 + y) div 256 = x" "(x * 256 + y) mod 256 = y" if "y < 256" for x y :: nat
    using that by auto
  ultimately show ?thesis using assms unfolding octets_def Let_def by (simp only:)
qed

lemma inet_ntop_pton:
  assumes "inet_pton be s = Some net"
  shows "inet_ntop be net = s" and "length s \<le> 15"
proof -
  obtain pa pb pc pd a b c d where
    split: "split_on CHR ''.'' s = [pa, pb, pc, pd]" and
    oct: "octet_of pa = Some a" "octet_of pb = Some b" "octet_of pc = Some c" "octet_of pd = Some d"
    and net: "net = hostToNetwork32 be (host_addr a b c d)"
    using assms by (auto simp: inet_pton_def split: list.splits option.splits)
  note o = oct [THEN octet_of_Some]
  have s: "s = pa @ ''.'' @ pb @ ''.'' @ pc @ ''.'' @ pd"
    using join_split_on [of "CHR ''.''" s] split by simp
  have "networkToHost32 be net = host_addr a b c d"
    by (simp add: net byte_order)
  with o s show "inet_ntop be net = s"
    by (simp add: inet_ntop_def octets_host_addr)
  have "length (show_nat n) \<le> 3" if "n < 256" for n
    using that show_nat_length [of n 2] by simp
  with o have "length pa \<le> 3" "length pb \<le> 3" "length pc \<le> 3" "length pd \<le> 3"
    by blast+
  with s show "length s \<le> 15" by simp
qed

text \<open>
  C37. In a build with live assertions, an address constructed from a dotted-decimal text and
  a port prints exactly that text, a colon and that port, on a host of either byte order: the
  32-byte buffer cuts nothing off.
\<close>

theorem addr_toString_of_ip:
  assumes "CapsuledAddr_ip big_endian False ip port = Inr a"
  shows "addr_toString big_endian a = ip @ '':'' @ show_nat (unat port)"
proof -
  obtain net where net: "inet_pton big_endian ip = Some net"
    and a: "s_addr a = net" "sin_port a = hostToNetwork16 big_endian port"
    using assms by (auto simp: CapsuledAddr_ip_def split: option.splits)
  have "unat port < 65536" using unsigned_less [of port] by simp
  then have "length (show_nat (unat port)) \<le> 5" using show_nat_length [of "unat port" 4] by simp
  with inet_ntop_pton [OF net] a show ?thesis
    by (simp add: addr_toString_def byte_order)
qed

theorem addr_toString_of_ip_witness:
  "\<exists>a. CapsuledAddr_ip False False ''192.168.0.1'' 2001 = Inr a
       \<and> addr_toString False a = ''192.168.0.1:2001''"
proof -
  obtain a where a: "CapsuledAddr_ip False False ''192.168.0.1'' 2001 = Inr a"
    by (simp add: CapsuledAddr_ip_def inet_pton_def octet_of_def is_digit_def read_nat_def
        digit_val_def)
  from addr_toString_of_ip [OF a] have "addr_toString False a = ''192.168.0.1:2001''"
    by (simp add: show_nat.simps)
  with a show ?thesis by blast
qed

text \<open>
  In a build with \<open>NDEBUG\<close> the assertion is removed together with the call inside it: the
  constructor ignores the text, whatever it is, and yields the wildcard address
  \<open>INADDR_ANY\<close>, exactly what the constructor from a port alone yields.
\<close>

theorem release_build_ignores_ip:
  "CapsuledAddr_ip big_endian True ip port = Inr (CapsuledAddr_port big_endian port)"
  by (simp add: CapsuledAddr_ip_def CapsuledAddr_port_def INADDR_ANY_def byte_order
      bswap32_def bswap16_def join_words_def zero_addr_def)

end
