(* ===== verification/Kernel.thy ===== *)
theory Kernel
  imports CapsuledAddr
begin

text \<open>
  The system calls the sources make. The operating system is not part of the program: the
  \<open>n\<close>-th system call of a run gets the answer \<open>os n\<close>, for an arbitrary function \<open>os\<close>, and the
  call is logged with its answer. Theorems that need the documented behaviour of a call name
  it as a hypothesis on the log (\<open>os_answers_ok\<close>): a \<open>read\<close> or \<open>write\<close> returns at most the
  number of bytes it was given, a successful \<open>read\<close> returns the number of bytes it stored, a
  \<open>poll\<close> returns the number of entries with events and skips entries with a negative descriptor.
  The second part holds the wrappers of \<open>base/Socket.cpp\<close> and \<open>base/FileDescriptor.h\<close>.
\<close>

section \<open>System calls and their answers\<close>

record pollfd =
  pfd_fd :: int
  pfd_events :: "16 word"
  pfd_revents :: "16 word"

datatype syscall =
    SysSocket bool bool
  | SysBind int sockaddr_in
  | SysListen int int
  | SysAccept4 int
  | SysSetsockopt int string int
  | SysGetsockname int
  | SysGetsockoptError int
  | SysFcntl int string int
  | SysRead int nat
  | SysWrite int string
  | SysShutdownWr int
  | SysClose int
  | SysEventfd
  | SysPoll "pollfd list" int
  | SysRecvfrom int nat
  | SysSendto int string sockaddr_in
  | SysGettimeofday

text \<open>
  \<open>payload\<close> holds the bytes a read stored, \<open>peer\<close> the address a call filled in,
  \<open>ready\<close> the \<open>revents\<close> a \<open>poll\<close> set, \<open>optval\<close> an option's value, \<open>tv\<close> a time.
\<close>

record answer =
  ret :: int
  err :: int
  payload :: string
  peer :: sockaddr_in
  ready :: "16 word list"
  optval :: int
  tv :: "int \<times> int"

definition returns :: "int \<Rightarrow> answer" where
  "returns r = \<lparr>ret = r, err = 0, payload = '''', peer = zero_addr, ready = [], optval = 0,
                tv = (0, 0)\<rparr>"

record kernel =
  os :: "nat \<Rightarrow> answer"
  calls :: "(syscall \<times> answer) list"

definition do_call :: "syscall \<Rightarrow> 'a kernel_scheme \<Rightarrow> answer \<times> 'a kernel_scheme" where
  "do_call c w = (let a = os w (length (calls w)) in (a, w\<lparr>calls := calls w @ [(c, a)]\<rparr>))"

lemma do_call_simps [simp]:
  "fst (do_call c w) = os w (length (calls w))"
  "snd (do_call c w) = w\<lparr>calls := calls w @ [(c, os w (length (calls w)))]\<rparr>"
  by (simp_all add: do_call_def Let_def)

text \<open>Linux constants.\<close>

definition EAGAIN :: int where "EAGAIN = 11"
definition EWOULDBLOCK :: int where "EWOULDBLOCK = EAGAIN"
definition SOMAXCONN :: int where "SOMAXCONN = 128"
definition O_NONBLOCK :: "32 word" where "O_NONBLOCK = 2048"
definition FD_CLOEXEC :: "32 word" where "FD_CLOEXEC = 1"

text \<open>The conversion of a signed 64-bit result to \<open>size_t\<close>: a negative one wraps around.\<close>

definition size_t_of :: "int \<Rightarrow> nat" where
  "size_t_of r = unat (word_of_int r :: 64 word)"

lemma size_t_of_nonneg: "0 \<le> r \<Longrightarrow> r < 2 ^ 63 \<Longrightarrow> size_t_of r = nat r"
  unfolding size_t_of_def unat_eq_nat_uint uint_word_of_int_eq
  by (simp add: take_bit_int_eq_self)

lemma size_t_of_minus_one: "size_t_of (- 1) = 2 ^ 64 - 1"
  by (simp add: size_t_of_def unat_eq_nat_uint unsigned_minus_1_eq_mask mask_eq_exp_minus_1)

section \<open>Documented behaviour\<close>

fun answer_ok :: "syscall \<times> answer \<Rightarrow> bool" where
  "answer_ok (SysRead fd n, a) \<longleftrightarrow>
     ret a = - 1 \<or> (0 \<le> ret a \<and> ret a \<le> int n \<and> length (payload a) = nat (ret a))"
| "answer_ok (SysWrite fd bytes, a) \<longleftrightarrow>
     ret a = - 1 \<or> (0 \<le> ret a \<and> ret a \<le> int (length bytes))"
| "answer_ok (SysPoll fds timeout, a) \<longleftrightarrow>
     length (ready a) = length fds
     \<and> ret a = int (length (filter (\<lambda>r. r \<noteq> 0) (ready a)))
     \<and> list_all (\<lambda>r. 0 \<le> sint r) (ready a)
     \<and> list_all2 (\<lambda>pfd r. pfd_fd pfd < 0 \<longrightarrow> r = 0) fds (ready a)"
| "answer_ok (_, a) \<longleftrightarrow> True"

definition os_answers_ok :: "'a kernel_scheme \<Rightarrow> bool" where
  "os_answers_ok w \<longleftrightarrow> list_all answer_ok (calls w)"

text \<open>The bytes a descriptor's peer can receive: what the successful writes took.\<close>

fun taken_by :: "int \<Rightarrow> syscall \<times> answer \<Rightarrow> string" where
  "taken_by fd (SysWrite fd' bytes, a) =
     (if fd' = fd \<and> 0 \<le> ret a then take (nat (ret a)) bytes else [])"
| "taken_by fd _ = []"

definition sent_on :: "int \<Rightarrow> (syscall \<times> answer) list \<Rightarrow> string" where
  "sent_on fd log = concat (map (taken_by fd) log)"

lemma sent_on_simps [simp]:
  "sent_on fd [] = []"
  "sent_on fd (log @ [ca]) = sent_on fd log @ taken_by fd ca"
  by (simp_all add: sent_on_def)

section \<open>Wrappers of system calls\<close>

text \<open>\<open>FileDescriptor::close\<close>, called by the destructor too.\<close>

definition FileDescriptor_close :: "int \<Rightarrow> 'a kernel_scheme \<Rightarrow> 'a kernel_scheme result" where
  "FileDescriptor_close fd w =
     (let (a, w) = do_call (SysClose fd) w in assert_that ''close >= 0'' (ret a \<ge> 0) (Inr w))"

definition Socket_bindAddress ::
  "int \<Rightarrow> sockaddr_in \<Rightarrow> 'a kernel_scheme \<Rightarrow> 'a kernel_scheme result" where
  "Socket_bindAddress fd addr w =
     (let (a, w) = do_call (SysBind fd addr) w in assert_that ''bind >= 0'' (ret a \<ge> 0) (Inr w))"

definition Socket_listen :: "int \<Rightarrow> 'a kernel_scheme \<Rightarrow> 'a kernel_scheme result" where
  "Socket_listen fd w =
     (let (a, w) = do_call (SysListen fd SOMAXCONN) w
      in assert_that ''listen >= 0'' (ret a \<ge> 0) (Inr w))"

text \<open>\<open>accept\<close> returns the descriptor and the peer address, which a failure leaves alone.\<close>

definition Socket_accept ::
  "int \<Rightarrow> sockaddr_in \<Rightarrow> 'a kernel_scheme \<Rightarrow> int \<times> sockaddr_in \<times> 'a kernel_scheme" where
  "Socket_accept fd peerAddr w =
     (let (a, w) = do_call (SysAccept4 fd) w
      in (ret a, if ret a \<ge> 0 then peer a else peerAddr, w))"

definition Socket_setReuseAddr :: "int \<Rightarrow> bool \<Rightarrow> 'a kernel_scheme \<Rightarrow> 'a kernel_scheme" where
  "Socket_setReuseAddr fd on w =
     snd (do_call (SysSetsockopt fd ''SO_REUSEADDR'' (if on then 1 else 0)) w)"

definition setNonBlockAndCloseOnExec ::
  "int \<Rightarrow> 'a kernel_scheme \<Rightarrow> 'a kernel_scheme result" where
  "setNonBlockAndCloseOnExec fd w =
     (let (a1, w) = do_call (SysFcntl fd ''F_GETFL'' 0) w;
          flags = word_of_int (ret a1) OR O_NONBLOCK;
          (a2, w) = do_call (SysFcntl fd ''F_SETFL'' (sint flags)) w
      in assert_that ''F_SETFL >= 0'' (ret a2 \<ge> 0)
        (let (a3, w) = do_call (SysFcntl fd ''F_GETFD'' 0) w;
             flags = word_of_int (ret a3) OR FD_CLOEXEC;
             (a4, w) = do_call (SysFcntl fd ''F_SETFD'' (sint flags)) w
         in assert_that ''F_SETFD >= 0'' (ret a4 \<ge> 0) (Inr w)))"

definition Socket_createNonblockingOrDie ::
  "'a kernel_scheme \<Rightarrow> (int \<times> 'a kernel_scheme) result" where
  "Socket_createNonblockingOrDie w =
     (let (a, w) = do_call (SysSocket True True) w
      in assert_that ''socket >= 0'' (ret a \<ge> 0) (Inr (ret a, w)))"

definition Socket_createUdpBlocking ::
  "'a kernel_scheme \<Rightarrow> (int \<times> 'a kernel_scheme) result" where
  "Socket_createUdpBlocking w =
     (let (a, w) = do_call (SysSocket False False) w
      in assert_that ''socket >= 0'' (ret a \<ge> 0) (Inr (ret a, w)))"

definition Socket_getLocalAddr ::
  "int \<Rightarrow> 'a kernel_scheme \<Rightarrow> (sockaddr_in \<times> 'a kernel_scheme) result" where
  "Socket_getLocalAddr connfd w =
     (let (a, w) = do_call (SysGetsockname connfd) w
      in assert_that ''getsockname >= 0'' (ret a \<ge> 0) (Inr (peer a, w)))"

definition Socket_getSocketErr :: "int \<Rightarrow> 'a kernel_scheme \<Rightarrow> int \<times> 'a kernel_scheme" where
  "Socket_getSocketErr sockfd w =
     (let (a, w) = do_call (SysGetsockoptError sockfd) w
      in (if ret a < 0 then err a else optval a, w))"

end
