(* ===== verification/Timestamp.thy ===== *)
theory Timestamp
  imports Decimal "HOL-Library.Signed_Division"
begin

text \<open>
  \<open>base/Timestamp.h\<close> and \<open>base/Timestamp.cc\<close>: a time stamp is one signed 64-bit count of
  microseconds since the epoch. Order and equality are those of the signed count, which
  makes \<open>timestamp\<close> an instance of \<open>linorder\<close>. C's \<open>/\<close> and \<open>%\<close> truncate towards zero
  (\<open>sdiv\<close>, \<open>smod\<close>). \<open>gmtime_r\<close> is a parameter of \<open>toFormattedString\<close>. The two
  functions on \<open>double\<close> are in \<open>TimeDifference.thy\<close>.
\<close>

datatype timestamp = Timestamp (microSecondsSinceEpoch: "64 word")

definition kMicroSecondsPerSecond :: int where
  "kMicroSecondsPerSecond = 1000 * 1000"

text \<open>The default constructor, \<open>invalid\<close> and \<open>valid\<close>.\<close>

definition Timestamp_default :: timestamp where
  "Timestamp_default = Timestamp 0"

definition invalid :: timestamp where
  "invalid = Timestamp_default"

definition micros :: "timestamp \<Rightarrow> int" where
  "micros t = sint (microSecondsSinceEpoch t)"

definition valid :: "timestamp \<Rightarrow> bool" where
  "valid t \<longleftrightarrow> micros t > 0"

definition swap_timestamps :: "timestamp \<Rightarrow> timestamp \<Rightarrow> timestamp \<times> timestamp" where
  "swap_timestamps this that =
     (Timestamp (microSecondsSinceEpoch that), Timestamp (microSecondsSinceEpoch this))"

text \<open>\<open>now\<close>: the pair is the \<open>struct timeval\<close> that \<open>gettimeofday\<close> fills in; its count of
  microseconds fits \<open>int64_t\<close> until the year 294247.\<close>

definition now :: "int \<times> int \<Rightarrow> timestamp" where
  "now tv = Timestamp (word_of_int (fst tv * kMicroSecondsPerSecond + snd tv))"

definition toString :: "timestamp \<Rightarrow> string" where
  "toString t =
     (let seconds = micros t sdiv kMicroSecondsPerSecond;
          microseconds = micros t smod kMicroSecondsPerSecond
      in snprintf (32 - 1) (show_int seconds @ ''.'' @ pad_int 6 microseconds))"

record tm =
  tm_year :: int
  tm_mon :: int
  tm_mday :: int
  tm_hour :: int
  tm_min :: int
  tm_sec :: int

definition toFormattedString :: "(int \<Rightarrow> tm) \<Rightarrow> timestamp \<Rightarrow> string" where
  "toFormattedString gmtime t =
     (let seconds = micros t sdiv kMicroSecondsPerSecond;
          microseconds = micros t smod kMicroSecondsPerSecond;
          tm_time = gmtime seconds
      in snprintf 32
           (blank_int 4 (tm_year tm_time + 1900) @ pad_int 2 (tm_mon tm_time + 1)
              @ pad_int 2 (tm_mday tm_time) @ '' '' @ pad_int 2 (tm_hour tm_time)
              @ '':'' @ pad_int 2 (tm_min tm_time) @ '':'' @ pad_int 2 (tm_sec tm_time)
              @ ''.'' @ pad_int 6 microseconds))"

section \<open>Order\<close>

lemma micros_inject: "micros s = micros t \<Longrightarrow> s = t"
  by (cases s; cases t) (metis micros_def scast_eq scast_id timestamp.sel)

text \<open>\<open>operator<\<close> and \<open>operator==\<close>.\<close>

definition operator_less :: "timestamp \<Rightarrow> timestamp \<Rightarrow> bool" where
  "operator_less lhs rhs \<longleftrightarrow> micros lhs < micros rhs"

definition operator_eq :: "timestamp \<Rightarrow> timestamp \<Rightarrow> bool" where
  "operator_eq lhs rhs \<longleftrightarrow> micros lhs = micros rhs"

lemma operator_eq [simp]: "operator_eq s t \<longleftrightarrow> s = t"
  by (auto simp: operator_eq_def intro: micros_inject)

instantiation timestamp :: linorder
begin

definition less_timestamp :: "timestamp \<Rightarrow> timestamp \<Rightarrow> bool" where
  "less_timestamp = operator_less"

definition less_eq_timestamp :: "timestamp \<Rightarrow> timestamp \<Rightarrow> bool" where
  "less_eq_timestamp s t \<longleftrightarrow> operator_less s t \<or> operator_eq s t"

instance
  by standard (auto simp: less_eq_timestamp_def less_timestamp_def operator_less_def intro: micros_inject)

end

lemma timestamp_order: "s < t \<longleftrightarrow> micros s < micros t" "s \<le> t \<longleftrightarrow> micros s \<le> micros t"
  by (auto simp: less_timestamp_def less_eq_timestamp_def operator_less_def intro: micros_inject)

section \<open>Printing and reading back\<close>

text \<open>The reader of \<open>toString\<close>'s format, used to state that no digit is lost.\<close>

definition read_timestamp :: "string \<Rightarrow> timestamp" where
  "read_timestamp s =
     (let seconds = read_nat (takeWhile (\<lambda>c. c \<noteq> CHR ''.'') s);
          microseconds = read_nat (tl (dropWhile (\<lambda>c. c \<noteq> CHR ''.'') s))
      in Timestamp (word_of_int (int seconds * kMicroSecondsPerSecond + int microseconds)))"

lemma micros_range: "- (2 ^ 63) \<le> micros t" "micros t < 2 ^ 63"
  using sint_ge [of "microSecondsSinceEpoch t"] sint_lt [of "microSecondsSinceEpoch t"]
  by (simp_all add: micros_def)

lemma dot_not_digit: "c \<in> set (show_nat n) \<Longrightarrow> c \<noteq> CHR ''.''"
  using show_nat_digits [of c n] by (auto simp: is_digit_def)

lemma toString_nonneg:
  assumes "0 \<le> micros t"
  shows "toString t =
    show_nat (nat (micros t div 1000000)) @ ''.'' @ pad_nat 6 (nat (micros t mod 1000000))"
proof -
  let ?s = "nat (micros t div 1000000)" and ?u = "nat (micros t mod 1000000)"
  have "?s < 10 ^ Suc 12"
    using micros_range(2) [of t] by simp
  then have "length (show_nat ?s) \<le> Suc 12" by (rule show_nat_length)
  moreover have "length (pad_nat (Suc 5) ?u) = Suc 5" by (rule pad_nat_length) simp
  moreover have "micros t sdiv 1000000 = int ?s" and "micros t smod 1000000 = int ?u"
    using assms by (auto simp: signed_divide_int_def signed_modulo_int_def sgn_if)
  moreover have "0 \<le> micros t div 1000000" and "\<not> micros t mod 1000000 < 0"
    using assms by (simp_all add: pos_imp_zdiv_nonneg_iff not_less)
  ultimately show ?thesis
    by (simp add: toString_def kMicroSecondsPerSecond_def show_int_def pad_int_def Let_def)
qed

text \<open>
  C40. For every time stamp at or after the epoch, \<open>toString\<close> prints the whole count: no
  digit is cut off by its 32-byte buffer, and reading the text back gives the same time
  stamp.
\<close>

theorem toString_roundtrip:
  assumes "0 \<le> micros t"
  shows "read_timestamp (toString t) = t"
proof -
  let ?s = "nat (micros t div 1000000)" and ?u = "nat (micros t mod 1000000)"
  have "takeWhile (\<lambda>c. c \<noteq> CHR ''.'') (toString t) = show_nat ?s"
    and "dropWhile (\<lambda>c. c \<noteq> CHR ''.'') (toString t) = CHR ''.'' # pad_nat 6 ?u"
    using assms dot_not_digit
    by (simp_all add: toString_nonneg takeWhile_append2 dropWhile_append2)
  moreover have "int ?s * 1000000 + int ?u = micros t"
    using assms by (simp add: pos_imp_zdiv_nonneg_iff)
  ultimately have "read_timestamp (toString t) = Timestamp (word_of_int (micros t))"
    by (simp add: read_timestamp_def kMicroSecondsPerSecond_def del: of_int_add of_int_mult)
  also have "\<dots> = t"
    by (cases t) (metis micros_def scast_eq scast_id timestamp.sel)
  finally show ?thesis .
qed

theorem toString_roundtrip_witness:
  "toString (Timestamp 1234567000089) = ''1234567.000089''
   \<and> read_timestamp (toString (Timestamp 1234567000089)) = Timestamp 1234567000089"
proof
  show "toString (Timestamp 1234567000089) = ''1234567.000089''"
    by (simp add: toString_nonneg micros_def show_nat.simps pad_nat_def)
  show "read_timestamp (toString (Timestamp 1234567000089)) = Timestamp 1234567000089"
    by (rule toString_roundtrip) (simp add: micros_def)
qed

end
