(* ===== verification/Channel.thy ===== *)
theory Channel
  imports Kernel Timestamp
begin

unbundle bit_operations_syntax

text \<open>
  \<open>net/Channel.h\<close> and \<open>net/Channel.cpp\<close>: one descriptor's interest in events and the callbacks
  for them. A \<open>std::function\<close> member that the sources fill with \<open>std::bind\<close> is the name of the
  bound handler (\<open>callback\<close>), \<open>None\<close> when it was never set; \<open>EventLoop.thy\<close> and the components
  above it say what a name runs. Channels are objects with identity: operations of other
  classes that keep a \<open>Channel*\<close> take the number of the channel in a store.
  The event masks are 32-bit (\<open>int\<close>), narrowed to 16 bits (\<open>short\<close>) in \<open>struct pollfd\<close>.
\<close>

section \<open>Event masks\<close>

definition POLLIN :: "'a::len word" where "POLLIN = 1"
definition POLLPRI :: "'a::len word" where "POLLPRI = 2"
definition POLLOUT :: "'a::len word" where "POLLOUT = 4"
definition POLLERR :: "'a::len word" where "POLLERR = 8"
definition POLLHUP :: "'a::len word" where "POLLHUP = 16"
definition POLLNVAL :: "'a::len word" where "POLLNVAL = 32"
definition POLLRDHUP :: "'a::len word" where "POLLRDHUP = 8192"

definition kNoneEvent :: "32 word" where "kNoneEvent = 0"
definition kReadEvent :: "32 word" where "kReadEvent = POLLIN OR POLLPRI"
definition kWriteEvent :: "32 word" where "kWriteEvent = POLLOUT"

lemmas poll_bits = POLLIN_def POLLPRI_def POLLOUT_def POLLERR_def POLLHUP_def POLLNVAL_def
  POLLRDHUP_def kNoneEvent_def kReadEvent_def kWriteEvent_def

section \<open>The class\<close>

datatype callback =
    LoopHandleRead nat
  | AcceptorHandleNewConnection nat
  | UdpHandleNewConnection nat
  | ConnHandleRead nat
  | ConnHandleWrite nat
  | ConnHandleClose nat
  | ConnHandleError nat
  | UserCallback nat

record channel =
  ch_loop :: nat
  ch_fd :: int
  ch_events :: "32 word"
  ch_revents :: "32 word"
  ch_index :: int
  ch_eventHandling :: bool
  ch_readCallback :: "callback option"
  ch_writeCallback :: "callback option"
  ch_errorCallback :: "callback option"
  ch_closeCallback :: "callback option"

definition Channel_ctor :: "nat \<Rightarrow> int \<Rightarrow> channel" where
  "Channel_ctor loop fd =
     \<lparr>ch_loop = loop, ch_fd = fd, ch_events = 0, ch_revents = 0, ch_index = - 1,
      ch_eventHandling = False, ch_readCallback = None, ch_writeCallback = None,
      ch_errorCallback = None, ch_closeCallback = None\<rparr>"

text \<open>The setters of the callbacks.\<close>

definition Channel_setReadCallback :: "callback \<Rightarrow> channel \<Rightarrow> channel" where
  [simp]: "Channel_setReadCallback cb ch = ch\<lparr>ch_readCallback := Some cb\<rparr>"

definition Channel_setWriteCallback :: "callback \<Rightarrow> channel \<Rightarrow> channel" where
  [simp]: "Channel_setWriteCallback cb ch = ch\<lparr>ch_writeCallback := Some cb\<rparr>"

definition Channel_setErrorCallback :: "callback \<Rightarrow> channel \<Rightarrow> channel" where
  [simp]: "Channel_setErrorCallback cb ch = ch\<lparr>ch_errorCallback := Some cb\<rparr>"

definition Channel_setCloseCallback :: "callback \<Rightarrow> channel \<Rightarrow> channel" where
  [simp]: "Channel_setCloseCallback cb ch = ch\<lparr>ch_closeCallback := Some cb\<rparr>"

definition Channel_dtor :: "channel \<Rightarrow> unit result" where
  "Channel_dtor ch = assert_that ''!_eventHandling'' (\<not> ch_eventHandling ch) (Inr ())"

definition set_revents :: "16 word \<Rightarrow> channel \<Rightarrow> channel" where
  "set_revents revt ch = ch\<lparr>ch_revents := scast revt\<rparr>"

definition isNoneEvent :: "channel \<Rightarrow> bool" where
  "isNoneEvent ch \<longleftrightarrow> ch_events ch = kNoneEvent"

definition isWriting :: "channel \<Rightarrow> bool" where
  "isWriting ch \<longleftrightarrow> ch_events ch AND kWriteEvent \<noteq> 0"

text \<open>The changes of the mask in \<open>enableReading\<close> and its kin, before \<open>update()\<close>.\<close>

definition add_reading :: "channel \<Rightarrow> channel" where
  "add_reading ch = ch\<lparr>ch_events := ch_events ch OR kReadEvent\<rparr>"

definition add_writing :: "channel \<Rightarrow> channel" where
  "add_writing ch = ch\<lparr>ch_events := ch_events ch OR kWriteEvent\<rparr>"

definition drop_writing :: "channel \<Rightarrow> channel" where
  "drop_writing ch = ch\<lparr>ch_events := ch_events ch AND NOT kWriteEvent\<rparr>"

definition drop_all :: "channel \<Rightarrow> channel" where
  "drop_all ch = ch\<lparr>ch_events := kNoneEvent\<rparr>"

datatype mask_op = EnableReading | EnableWriting | DisableWriting | DisableAll

fun apply_mask :: "mask_op \<Rightarrow> channel \<Rightarrow> channel" where
  "apply_mask EnableReading ch = add_reading ch"
| "apply_mask EnableWriting ch = add_writing ch"
| "apply_mask DisableWriting ch = drop_writing ch"
| "apply_mask DisableAll ch = drop_all ch"

lemmas mask_defs = add_reading_def add_writing_def drop_writing_def drop_all_def

section \<open>Dispatch\<close>

text \<open>The guards of \<open>handleEvent\<close>, on the events that were delivered.\<close>

definition is_closing :: "channel \<Rightarrow> bool" where
  "is_closing ch \<longleftrightarrow> ch_revents ch AND POLLHUP \<noteq> 0 \<and> ch_revents ch AND POLLIN = 0"

definition is_error :: "channel \<Rightarrow> bool" where
  "is_error ch \<longleftrightarrow> ch_revents ch AND (POLLERR OR POLLNVAL) \<noteq> 0"

definition is_readable :: "channel \<Rightarrow> bool" where
  "is_readable ch \<longleftrightarrow> ch_revents ch AND (POLLIN OR POLLPRI OR POLLRDHUP) \<noteq> 0"

definition is_writable :: "channel \<Rightarrow> bool" where
  "is_writable ch \<longleftrightarrow> ch_revents ch AND POLLOUT \<noteq> 0"

text \<open>The specification of the dispatch: which callbacks run for an event, in which order.\<close>

definition dispatch :: "channel \<Rightarrow> callback list" where
  "dispatch ch =
     List.map_filter (\<lambda>(due, cb). if due then cb else None)
       [(is_closing ch, ch_closeCallback ch), (is_error ch, ch_errorCallback ch),
        (is_readable ch, ch_readCallback ch), (is_writable ch, ch_writeCallback ch)]"

section \<open>Mask facts\<close>

lemma apply_mask_frame [simp]:
  "ch_fd (apply_mask m ch) = ch_fd ch" "ch_index (apply_mask m ch) = ch_index ch"
  "ch_loop (apply_mask m ch) = ch_loop ch" "ch_revents (apply_mask m ch) = ch_revents ch"
  by (cases m; simp add: mask_defs)+

lemma isWriting_simps [simp]:
  "isWriting (add_writing ch)" "\<not> isWriting (drop_writing ch)" "\<not> isWriting (drop_all ch)"
  "isWriting (add_reading ch) = isWriting ch"
proof -
  show "isWriting (add_writing ch)" "\<not> isWriting (drop_all ch)"
    by (simp_all add: isWriting_def mask_defs poll_bits bit.conj_disj_distrib2 or_eq_0_iff)
  show "\<not> isWriting (drop_writing ch)"
    by (simp add: isWriting_def mask_defs and.assoc)
  show "isWriting (add_reading ch) = isWriting ch"
    by (simp add: isWriting_def mask_defs poll_bits bit.conj_disj_distrib2)
qed

lemma isNoneEvent_simps [simp]:
  "isNoneEvent (drop_all ch)" "\<not> isNoneEvent (add_reading ch)" "\<not> isNoneEvent (add_writing ch)"
proof -
  show "isNoneEvent (drop_all ch)" by (simp add: isNoneEvent_def mask_defs)
  show "\<not> isNoneEvent (add_reading ch)" "\<not> isNoneEvent (add_writing ch)"
    by (simp_all add: isNoneEvent_def mask_defs poll_bits or_eq_0_iff)
qed

end
