(* ===== verification/Poller_Spec.thy ===== *)
theory Poller_Spec
  imports Prelude
begin

text \<open>
  The contract between a poller and its clients (the event loop, and through it every
  channel): a finite map from descriptors to entries. \<open>update\<close> enters a fresh channel or
  refreshes a member's entry, \<open>remove\<close> deletes the entry of a channel that is done, and
  neither touches the entry of another descriptor.
\<close>

locale channel_registry =
  fixes inv :: "'s \<Rightarrow> bool"
    and entries :: "'s \<Rightarrow> int \<rightharpoonup> 'e"
    and key :: "nat \<Rightarrow> 's \<Rightarrow> int"
    and update :: "nat \<Rightarrow> 's \<Rightarrow> 's result"
    and remove :: "nat \<Rightarrow> 's \<Rightarrow> 's result"
    and fresh :: "nat \<Rightarrow> 's \<Rightarrow> bool"
    and member :: "nat \<Rightarrow> 's \<Rightarrow> bool"
    and retired :: "nat \<Rightarrow> 's \<Rightarrow> bool"
  assumes update_law: "inv s \<Longrightarrow> fresh c s \<or> member c s \<Longrightarrow>
      \<exists>s' e. update c s = Inr s' \<and> inv s' \<and> member c s' \<and> key c s' = key c s
        \<and> entries s' = (entries s)(key c s \<mapsto> e)"
    and remove_law: "inv s \<Longrightarrow> retired c s \<Longrightarrow>
      \<exists>s'. remove c s = Inr s' \<and> inv s' \<and> entries s' = (entries s)(key c s := None)"
begin

lemma update_inv: "inv s \<Longrightarrow> fresh c s \<or> member c s \<Longrightarrow> update c s = Inr s' \<Longrightarrow> inv s'"
  using update_law by fastforce

lemma update_member:
  "inv s \<Longrightarrow> fresh c s \<or> member c s \<Longrightarrow> update c s = Inr s' \<Longrightarrow> member c s'"
  using update_law by fastforce

lemma update_frame:
  "inv s \<Longrightarrow> fresh c s \<or> member c s \<Longrightarrow> update c s = Inr s' \<Longrightarrow> k \<noteq> key c s \<Longrightarrow>
     entries s' k = entries s k"
  using update_law by fastforce

lemma remove_inv: "inv s \<Longrightarrow> retired c s \<Longrightarrow> remove c s = Inr s' \<Longrightarrow> inv s'"
  using remove_law by fastforce

lemma remove_entries:
  "inv s \<Longrightarrow> retired c s \<Longrightarrow> remove c s = Inr s' \<Longrightarrow> entries s' = (entries s)(key c s := None)"
  using remove_law by fastforce

text \<open>A member can be refreshed any number of times; only its own entry changes.\<close>

lemma refresh_many:
  "inv s \<Longrightarrow> fresh c s \<or> member c s \<Longrightarrow>
     \<exists>s'. run_all (\<lambda>_. update c) (replicate (Suc n) ()) s = Inr s' \<and> inv s' \<and> member c s'
       \<and> key c s' = key c s \<and> (\<forall>k. k \<noteq> key c s \<longrightarrow> entries s' k = entries s k)"
proof (induction n arbitrary: s)
  case 0
  from update_law [OF 0] show ?case by auto
next
  case (Suc n)
  from update_law [OF Suc.prems] obtain s1 e where
    s1: "update c s = Inr s1" "inv s1" "member c s1" "key c s1 = key c s"
    "entries s1 = (entries s)(key c s \<mapsto> e)" by blast
  from Suc.IH [OF s1(2)] s1 show ?case by auto
qed

text \<open>The life of a channel leaves no trace: whatever the number of refreshes between entering and
  leaving, the registry is as it was before.\<close>

lemma life_cycle:
  assumes "inv s" "fresh c s" "entries s (key c s) = None"
    and "run_all (\<lambda>_. update c) (replicate (Suc n) ()) s = Inr s1"
    and "retired c s1" "remove c s1 = Inr s2"
  shows "inv s2 \<and> entries s2 = entries s"
proof -
  from refresh_many [of s c n] assms(1,2,4) have s1: "inv s1" "key c s1 = key c s"
    "\<forall>k. k \<noteq> key c s \<longrightarrow> entries s1 k = entries s k" by auto
  then have "entries s2 = (entries s1)(key c s := None)" and "inv s2"
    using remove_entries [OF s1(1) assms(5,6)] remove_inv [OF s1(1) assms(5,6)] by auto
  with s1(3) assms(3) show ?thesis by (auto simp: fun_eq_iff)
qed

end

end
