(* ===== verification/Poller.thy ===== *)
theory Poller
  imports Channel Poller_Spec
begin

text \<open>
  \<open>net/Poller.h\<close> and \<open>net/Poller.cpp\<close>: the array handed to \<open>poll(2)\<close> and the map from
  descriptors to channels. The two agree through \<open>_index\<close>, the position of a channel's entry,
  which lives in the channel; so the operations work on the poller together with the store of
  channels \<open>chs\<close>. A channel without events keeps its entry with the descriptor replaced by
  \<open>-fd-1\<close>, which the kernel ignores. \<open>in_loop\<close> is \<open>_ownerLoop->isInLoopThread()\<close>.
\<close>

section \<open>The class\<close>

record poller =
  ownerLoop :: nat
  pollfds :: "pollfd list"
  channelMap :: "int \<rightharpoonup> nat"

type_synonym channel_store = "nat \<Rightarrow> channel"

definition Poller_ctor :: "nat \<Rightarrow> poller" where
  "Poller_ctor loop = \<lparr>ownerLoop = loop, pollfds = [], channelMap = Map.empty\<rparr>"

text \<open>\<open>-fd-1\<close>: the descriptor of an entry the kernel is to ignore.\<close>

definition hidden_fd :: "int \<Rightarrow> int" where
  "hidden_fd fd = - fd - 1"

definition Poller_updateChannel ::
  "bool \<Rightarrow> nat \<Rightarrow> poller \<times> channel_store \<Rightarrow> (poller \<times> channel_store) result" where
  "Poller_updateChannel in_loop c s =
     (let (p, chs) = s; ch = chs c; fd = ch_fd ch in
      assert_that ''_ownerLoop->isInLoopThread()'' in_loop
        (if ch_index ch < 0 then
           assert_that ''_channelMap.find(fd) == end()'' (channelMap p fd = None)
             (let pfd = \<lparr>pfd_fd = fd, pfd_events = ucast (ch_events ch), pfd_revents = 0\<rparr>;
                  fds = pollfds p @ [pfd];
                  idx = int (length fds) - 1
              in Inr (p\<lparr>pollfds := fds, channelMap := (channelMap p)(fd \<mapsto> c)\<rparr>,
                      chs(c := ch\<lparr>ch_index := idx\<rparr>)))
         else
           assert_that ''_channelMap.find(fd) != end()'' (channelMap p fd \<noteq> None)
             (assert_that ''_channelMap[fd] == channel'' (channelMap p fd = Some c)
               (let idx = ch_index ch in
                assert_that ''0 <= idx && idx < size'' (0 \<le> idx \<and> idx < int (length (pollfds p)))
                  (let pfd = pollfds p ! nat idx in
                   assert_that ''pfd.fd == fd || pfd.fd == -fd-1''
                     (pfd_fd pfd = fd \<or> pfd_fd pfd = hidden_fd fd)
                     (let pfd = pfd\<lparr>pfd_events := ucast (ch_events ch), pfd_revents := 0\<rparr>;
                          pfd = (if isNoneEvent ch then pfd\<lparr>pfd_fd := hidden_fd fd\<rparr> else pfd)
                      in Inr (p\<lparr>pollfds := (pollfds p)[nat idx := pfd]\<rparr>, chs)))))))"

definition Poller_removeChannel ::
  "bool \<Rightarrow> nat \<Rightarrow> poller \<times> channel_store \<Rightarrow> (poller \<times> channel_store) result" where
  "Poller_removeChannel in_loop c s =
     (let (p, chs) = s; ch = chs c; fd = ch_fd ch; index = ch_index ch; n = length (pollfds p) in
      assert_that ''_ownerLoop->isInLoopThread()'' in_loop
       (assert_that ''_channelMap.count(fd)'' (channelMap p fd \<noteq> None)
        (assert_that ''_channelMap[fd] == channel'' (channelMap p fd = Some c)
         (assert_that ''channel->isNoneEvent()'' (isNoneEvent ch)
          (assert_that ''index >= 0 && index < size'' (0 \<le> index \<and> index < int n)
           (let pfd = pollfds p ! nat index in
            assert_that ''pfd.fd == -fd-1'' (pfd_fd pfd = hidden_fd fd)
             (assert_that ''pfd.events == getEvents()''
               (sint (pfd_events pfd) = sint (ch_events ch))
               (let m = (channelMap p)(fd := None) in
                if index = int n - 1 then
                  Inr (p\<lparr>pollfds := butlast (pollfds p), channelMap := m\<rparr>, chs)
                else
                  let endFd = pfd_fd (last (pollfds p));
                      swapped = (pollfds p)[nat index := last (pollfds p), n - 1 := pfd];
                      endFd = (if endFd < 0 then hidden_fd endFd else endFd)
                  in (case m endFd of
                        None \<Rightarrow> Inl NullPointer
                      | Some e \<Rightarrow>
                          Inr (p\<lparr>pollfds := butlast swapped, channelMap := m\<rparr>,
                               chs(e := (chs e)\<lparr>ch_index := index\<rparr>)))))))))))"

text \<open>\<open>fillActiveChannels\<close>: the loop over \<open>_pollfds\<close>, which stops early once \<open>numEvents\<close>
  entries have been found. The result is the store and the list of active channels.\<close>

fun fillActiveChannels ::
  "(int \<rightharpoonup> nat) \<Rightarrow> pollfd list \<Rightarrow> int \<Rightarrow> nat list \<Rightarrow> channel_store
    \<Rightarrow> (nat list \<times> channel_store) result" where
  "fillActiveChannels m [] numEvents active chs = Inr (active, chs)"
| "fillActiveChannels m (pfd # rest) numEvents active chs =
     (if numEvents > 0 then
        if sint (pfd_revents pfd) > 0 then
          (case m (pfd_fd pfd) of
             None \<Rightarrow> Inl (AssertFail ''ch != _channelMap.end()'')
           | Some c \<Rightarrow>
               assert_that ''channel->getFd() == pfd->fd'' (ch_fd (chs c) = pfd_fd pfd)
                 (fillActiveChannels m rest (numEvents - 1) (active @ [c])
                   (chs(c := set_revents (pfd_revents pfd) (chs c)))))
        else fillActiveChannels m rest numEvents active chs
      else Inr (active, chs))"

text \<open>The kernel stores the \<open>revents\<close> of a \<open>poll\<close> into the array, one for each entry.\<close>

definition store_revents :: "16 word list \<Rightarrow> pollfd list \<Rightarrow> pollfd list" where
  "store_revents rs fds =
     map2 (\<lambda>r pfd. pfd\<lparr>pfd_revents := r\<rparr>) (rs @ replicate (length fds - length rs) 0) fds"

text \<open>\<open>poll\<close>: returns the time, the active channels appended to \<open>active\<close>, the poller, the store
  and the kernel.\<close>

definition Poller_poll ::
  "int \<Rightarrow> nat list \<Rightarrow> poller \<times> channel_store \<Rightarrow> 'a kernel_scheme
    \<Rightarrow> (timestamp \<times> nat list \<times> (poller \<times> channel_store) \<times> 'a kernel_scheme) result" where
  "Poller_poll timeoutMs active s w =
     (let (p, chs) = s;
          (a, w) = do_call (SysPoll (pollfds p) timeoutMs) w;
          numEvents = ret a;
          p = p\<lparr>pollfds := store_revents (ready a) (pollfds p)\<rparr>;
          (g, w) = do_call SysGettimeofday w;
          t = now (tv g)
      in assert_that ''numEvents >= 0'' (numEvents \<ge> 0)
        (if numEvents > 0
         then bindE (fillActiveChannels (channelMap p) (pollfds p) numEvents active chs)
           (\<lambda>(active, chs). Inr (t, active, (p, chs), w))
         else Inr (t, active, (p, chs), w)))"

section \<open>The agreement of array, map and channels\<close>

definition poller_inv :: "poller \<times> channel_store \<Rightarrow> bool" where
  "poller_inv s \<longleftrightarrow> (let (p, chs) = s in
     (\<forall>fd c. channelMap p fd = Some c \<longrightarrow>
        0 \<le> fd \<and> ch_fd (chs c) = fd
        \<and> 0 \<le> ch_index (chs c) \<and> ch_index (chs c) < int (length (pollfds p))
        \<and> (pfd_fd (pollfds p ! nat (ch_index (chs c))) = fd
           \<or> pfd_fd (pollfds p ! nat (ch_index (chs c))) = hidden_fd fd))
     \<and> (\<forall>i < length (pollfds p). \<exists>fd c. channelMap p fd = Some c \<and> ch_index (chs c) = int i))"

definition entry_of :: "poller \<times> channel_store \<Rightarrow> int \<rightharpoonup> nat \<times> pollfd" where
  "entry_of s fd = (let (p, chs) = s in
     (case channelMap p fd of None \<Rightarrow> None
      | Some c \<Rightarrow> Some (c, pollfds p ! nat (ch_index (chs c)))))"

definition joinable :: "nat \<Rightarrow> poller \<times> channel_store \<Rightarrow> bool" where
  "joinable c s \<longleftrightarrow> ch_index (snd s c) < 0 \<and> 0 \<le> ch_fd (snd s c)
     \<and> channelMap (fst s) (ch_fd (snd s c)) = None"

definition enrolled :: "nat \<Rightarrow> poller \<times> channel_store \<Rightarrow> bool" where
  "enrolled c s \<longleftrightarrow> channelMap (fst s) (ch_fd (snd s c)) = Some c"

definition chan_key :: "nat \<Rightarrow> poller \<times> channel_store \<Rightarrow> int" where
  "chan_key c s = ch_fd (snd s c)"

definition first_entry :: "channel \<Rightarrow> pollfd" where
  "first_entry ch = \<lparr>pfd_fd = ch_fd ch, pfd_events = ucast (ch_events ch), pfd_revents = 0\<rparr>"

definition refreshed :: "channel \<Rightarrow> pollfd \<Rightarrow> pollfd" where
  "refreshed ch pfd =
     (let pfd = pfd\<lparr>pfd_events := ucast (ch_events ch), pfd_revents := 0\<rparr>
      in if isNoneEvent ch then pfd\<lparr>pfd_fd := hidden_fd (ch_fd ch)\<rparr> else pfd)"

lemma hidden_fd_simps [simp]:
  "hidden_fd (hidden_fd fd) = fd" "hidden_fd fd = hidden_fd fd' \<longleftrightarrow> fd = fd'"
  "hidden_fd fd < 0 \<longleftrightarrow> 0 \<le> fd" "0 \<le> hidden_fd fd \<longleftrightarrow> fd < 0"
  by (auto simp: hidden_fd_def)

lemma poller_invD:
  assumes "poller_inv (p, chs)" "channelMap p fd = Some c"
  shows "0 \<le> fd" "ch_fd (chs c) = fd" "0 \<le> ch_index (chs c)"
    "ch_index (chs c) < int (length (pollfds p))" "nat (ch_index (chs c)) < length (pollfds p)"
    "pfd_fd (pollfds p ! nat (ch_index (chs c))) = fd
      \<or> pfd_fd (pollfds p ! nat (ch_index (chs c))) = hidden_fd fd"
  using assms by (auto simp: poller_inv_def nat_less_iff)

lemma poller_invI:
  assumes "\<And>fd c. channelMap p fd = Some c \<Longrightarrow>
       0 \<le> fd \<and> ch_fd (chs c) = fd
        \<and> 0 \<le> ch_index (chs c) \<and> ch_index (chs c) < int (length (pollfds p))
        \<and> (pfd_fd (pollfds p ! nat (ch_index (chs c))) = fd
           \<or> pfd_fd (pollfds p ! nat (ch_index (chs c))) = hidden_fd fd)"
    and "\<And>i. i < length (pollfds p) \<Longrightarrow> \<exists>fd c. channelMap p fd = Some c \<and> ch_index (chs c) = int i"
  shows "poller_inv (p, chs)"
  using assms by (simp add: poller_inv_def)

lemma poller_inv_covers:
  "poller_inv (p, chs) \<Longrightarrow> i < length (pollfds p) \<Longrightarrow>
    \<exists>fd c. channelMap p fd = Some c \<and> ch_index (chs c) = int i"
  by (auto simp: poller_inv_def)

text \<open>No two registered channels share a position.\<close>

lemma index_inject:
  assumes inv: "poller_inv (p, chs)" and c: "channelMap p fd = Some c" and c': "channelMap p fd' = Some c'"
    and eq: "ch_index (chs c) = ch_index (chs c')"
  shows "fd = fd'"
  using poller_invD(1,6) [OF inv c] poller_invD(1,6) [OF inv c'] eq by (auto simp: hidden_fd_def)

lemma Poller_ctor_inv: "poller_inv (Poller_ctor l, chs)"
  by (simp add: poller_inv_def Poller_ctor_def)

lemma update_new:
  assumes inv: "poller_inv (p, chs)" and new: "joinable c (p, chs)"
  shows "\<exists>p' chs'. Poller_updateChannel True c (p, chs) = Inr (p', chs')
    \<and> poller_inv (p', chs') \<and> enrolled c (p', chs')
    \<and> entry_of (p', chs') = (entry_of (p, chs))(ch_fd (chs c) \<mapsto> (c, first_entry (chs c)))
    \<and> channelMap p' = (channelMap p)(ch_fd (chs c) \<mapsto> c)
    \<and> chs' = chs(c := (chs c)\<lparr>ch_index := int (length (pollfds p))\<rparr>) \<and> ownerLoop p' = ownerLoop p"
proof -
  let ?ch = "chs c" and ?n = "length (pollfds p)"
  let ?p' = "p\<lparr>pollfds := pollfds p @ [first_entry ?ch], channelMap := (channelMap p)(ch_fd ?ch \<mapsto> c)\<rparr>"
  let ?chs' = "chs(c := ?ch\<lparr>ch_index := int ?n\<rparr>)"
  have run: "Poller_updateChannel True c (p, chs) = Inr (?p', ?chs')"
    using new by (simp add: Poller_updateChannel_def joinable_def first_entry_def Let_def)
  have notin: "channelMap p fd \<noteq> Some c" for fd
    using poller_invD(2) [OF inv, of fd c] new by (auto simp: joinable_def)
  have inv': "poller_inv (?p', ?chs')"
  proof (rule poller_invI)
    fix fd d assume d: "channelMap ?p' fd = Some d"
    show "0 \<le> fd \<and> ch_fd (?chs' d) = fd
        \<and> 0 \<le> ch_index (?chs' d) \<and> ch_index (?chs' d) < int (length (pollfds ?p'))
        \<and> (pfd_fd (pollfds ?p' ! nat (ch_index (?chs' d))) = fd
           \<or> pfd_fd (pollfds ?p' ! nat (ch_index (?chs' d))) = hidden_fd fd)"
    proof (cases "fd = ch_fd ?ch")
      case True
      then show ?thesis using d new by (simp add: joinable_def first_entry_def)
    next
      case False
      with d have "channelMap p fd = Some d" by simp
      with poller_invD [OF inv this] notin show ?thesis by (auto simp: nth_append)
    qed
  next
    fix i assume i: "i < length (pollfds ?p')"
    show "\<exists>fd d. channelMap ?p' fd = Some d \<and> ch_index (?chs' d) = int i"
    proof (cases "i = ?n")
      case True
      then show ?thesis by (intro exI [of _ "ch_fd ?ch"] exI [of _ c]) simp
    next
      case False
      with i have "i < ?n" by simp
      from poller_inv_covers [OF inv this] obtain fd d where
        d: "channelMap p fd = Some d" "ch_index (chs d) = int i" by blast
      then have "d \<noteq> c" "fd \<noteq> ch_fd ?ch" using notin new by (auto simp: joinable_def)
      with d show ?thesis by (intro exI [of _ fd] exI [of _ d]) simp
    qed
  qed
  have "entry_of (?p', ?chs') = (entry_of (p, chs))(ch_fd ?ch \<mapsto> (c, first_entry ?ch))"
  proof
    fix fd
    show "entry_of (?p', ?chs') fd = ((entry_of (p, chs))(ch_fd ?ch \<mapsto> (c, first_entry ?ch))) fd"
      using notin [of fd] poller_invD(5) [OF inv, of fd]
      by (auto simp: entry_of_def nth_append split: option.splits)
  qed
  moreover have "enrolled c (?p', ?chs')" by (simp add: enrolled_def)
  ultimately show ?thesis using run inv' by (intro exI [of _ ?p'] exI [of _ ?chs']) simp
qed

lemma update_old:
  assumes inv: "poller_inv (p, chs)" and mem: "enrolled c (p, chs)"
  shows "\<exists>p'. Poller_updateChannel True c (p, chs) = Inr (p', chs)
    \<and> poller_inv (p', chs) \<and> enrolled c (p', chs) \<and> channelMap p' = channelMap p
    \<and> entry_of (p', chs) = (entry_of (p, chs))(ch_fd (chs c) \<mapsto>
         (c, refreshed (chs c) (pollfds p ! nat (ch_index (chs c))))) \<and> ownerLoop p' = ownerLoop p"
proof -
  let ?ch = "chs c" and ?i = "nat (ch_index (chs c))"
  let ?pfd = "refreshed ?ch (pollfds p ! ?i)"
  let ?p' = "p\<lparr>pollfds := (pollfds p)[?i := ?pfd]\<rparr>"
  have m: "channelMap p (ch_fd ?ch) = Some c" using mem by (simp add: enrolled_def)
  note d = poller_invD [OF inv m]
  have run: "Poller_updateChannel True c (p, chs) = Inr (?p', chs)"
    using d m by (auto simp: Poller_updateChannel_def refreshed_def Let_def)
  have other: "ch_index (chs e) \<noteq> ch_index ?ch" if "channelMap p fd = Some e" "e \<noteq> c" for fd e
    using index_inject [OF inv that(1) m] that m by auto
  have nth: "pollfds ?p' ! nat (ch_index (chs e)) =
      (if e = c then ?pfd else pollfds p ! nat (ch_index (chs e)))" if "channelMap p fd = Some e" for fd e
    using other [OF that] poller_invD(3) [OF inv that] d by (auto simp: nth_list_update nat_eq_iff)
  have inv': "poller_inv (?p', chs)"
  proof (rule poller_invI)
    fix fd e assume "channelMap ?p' fd = Some e"
    then have e: "channelMap p fd = Some e" by simp
    show "0 \<le> fd \<and> ch_fd (chs e) = fd
        \<and> 0 \<le> ch_index (chs e) \<and> ch_index (chs e) < int (length (pollfds ?p'))
        \<and> (pfd_fd (pollfds ?p' ! nat (ch_index (chs e))) = fd
           \<or> pfd_fd (pollfds ?p' ! nat (ch_index (chs e))) = hidden_fd fd)"
      unfolding nth [OF e] using poller_invD [OF inv e]
      by (cases "e = c") (auto simp: refreshed_def Let_def)
  next
    fix i assume "i < length (pollfds ?p')"
    then show "\<exists>fd c. channelMap ?p' fd = Some c \<and> ch_index (chs c) = int i"
      using poller_inv_covers [OF inv, of i] by simp
  qed
  have ent: "entry_of (?p', chs) = (entry_of (p, chs))(ch_fd ?ch \<mapsto> (c, ?pfd))"
  proof
    fix fd
    show "entry_of (?p', chs) fd = ((entry_of (p, chs))(ch_fd ?ch \<mapsto> (c, ?pfd))) fd"
    proof (cases "channelMap p fd")
      case None
      then show ?thesis using m by (auto simp: entry_of_def)
    next
      case (Some e)
      have "e = c \<longleftrightarrow> fd = ch_fd ?ch" using m Some poller_invD(2) [OF inv Some] by (metis option.inject)
      then show ?thesis using nth [OF Some] Some by (simp add: entry_of_def)
    qed
  qed
  have "enrolled c (?p', chs)" using mem by (simp add: enrolled_def)
  with run inv' ent show ?thesis by (intro exI [of _ ?p']) simp
qed


text \<open>A channel that is done: without events, and its entry shows that.\<close>

definition retirable :: "nat \<Rightarrow> poller \<times> channel_store \<Rightarrow> bool" where
  "retirable c s \<longleftrightarrow> enrolled c s \<and> isNoneEvent (snd s c)
     \<and> (case entry_of s (ch_fd (snd s c)) of None \<Rightarrow> False
        | Some (d, pfd) \<Rightarrow> pfd_fd pfd = hidden_fd (ch_fd (snd s c)) \<and> pfd_events pfd = 0)"

lemma remove_last:
  assumes inv: "poller_inv (p, chs)" and mem: "channelMap p (ch_fd (chs c)) = Some c"
    and last: "ch_index (chs c) = int (length (pollfds p)) - 1"
    and p': "p' = p\<lparr>pollfds := butlast (pollfds p), channelMap := (channelMap p)(ch_fd (chs c) := None)\<rparr>"
  shows "poller_inv (p', chs)
    \<and> entry_of (p', chs) = (entry_of (p, chs))(ch_fd (chs c) := None)"
proof -
  let ?n = "length (pollfds p)"
  have other: "nat (ch_index (chs e)) < ?n - 1" if "channelMap p fd = Some e" "fd \<noteq> ch_fd (chs c)" for fd e
    using index_inject [OF inv that(1) mem] that(2) poller_invD(3,4) [OF inv that(1)] last by linarith
  have "poller_inv (p', chs)"
  proof (rule poller_invI)
    fix fd e assume "channelMap p' fd = Some e"
    then have e: "channelMap p fd = Some e" "fd \<noteq> ch_fd (chs c)" by (auto simp: p' split: if_splits)
    then show "0 \<le> fd \<and> ch_fd (chs e) = fd
        \<and> 0 \<le> ch_index (chs e) \<and> ch_index (chs e) < int (length (pollfds p'))
        \<and> (pfd_fd (pollfds p' ! nat (ch_index (chs e))) = fd
           \<or> pfd_fd (pollfds p' ! nat (ch_index (chs e))) = hidden_fd fd)"
      using poller_invD [OF inv e(1)] other [OF e] by (simp add: p' nth_butlast)
  next
    fix i assume i: "i < length (pollfds p')"
    then have "i < ?n" by (simp add: p')
    from poller_inv_covers [OF inv this]
    obtain fd e where e: "channelMap p fd = Some e" "ch_index (chs e) = int i" by blast
    moreover have "fd \<noteq> ch_fd (chs c)" using e mem last i by (auto simp: p')
    ultimately show "\<exists>fd c. channelMap p' fd = Some c \<and> ch_index (chs c) = int i"
      by (intro exI [of _ fd] exI [of _ e]) (simp add: p')
  qed
  moreover have "entry_of (p', chs) = (entry_of (p, chs))(ch_fd (chs c) := None)"
  proof
    fix fd
    show "entry_of (p', chs) fd = ((entry_of (p, chs))(ch_fd (chs c) := None)) fd"
      using other [of fd] by (auto simp: p' entry_of_def nth_butlast split: option.splits)
  qed
  ultimately show ?thesis ..
qed


text \<open>Deletion from the middle: the last entry moves into the gap and its channel learns its new
  position.\<close>

lemma remove_middle:
  assumes inv: "poller_inv (p, chs)" and mem: "channelMap p (ch_fd (chs c)) = Some c"
    and e: "channelMap p fde = Some e" "ch_index (chs e) = int (length (pollfds p)) - 1"
    and mid: "ch_index (chs c) \<noteq> int (length (pollfds p)) - 1"
    and fds: "fds = butlast ((pollfds p)[nat (ch_index (chs c)) := last (pollfds p),
                length (pollfds p) - 1 := pollfds p ! nat (ch_index (chs c))])"
    and p': "p' = p\<lparr>pollfds := fds, channelMap := (channelMap p)(ch_fd (chs c) := None)\<rparr>"
    and chs': "chs' = chs(e := (chs e)\<lparr>ch_index := ch_index (chs c)\<rparr>)"
  shows "poller_inv (p', chs')
    \<and> entry_of (p', chs') = (entry_of (p, chs))(ch_fd (chs c) := None)"
proof -
  let ?n = "length (pollfds p)" and ?i = "nat (ch_index (chs c))"
  note C = poller_invD [OF inv mem] and E = poller_invD [OF inv e(1)]
  have n: "0 < ?n" "?i < ?n - 1" using C mid by linarith+
  have fdse: "length fds = ?n - 1" using n by (simp add: fds)
  have nth: "fds ! j = (if j = ?i then last (pollfds p) else pollfds p ! j)" if "j < ?n - 1" for j
    using that n by (simp add: fds nth_butlast nth_list_update)
  have lastE: "last (pollfds p) = pollfds p ! nat (ch_index (chs e))"
    using n e(2) by (simp add: last_conv_nth nat_diff_distrib)
  have ec: "e \<noteq> c" "fde \<noteq> ch_fd (chs c)" using e mid mem by auto
  have pos: "pollfds p' ! nat (ch_index (chs' x)) = pollfds p ! nat (ch_index (chs x))
      \<and> nat (ch_index (chs' x)) < ?n - 1 \<and> 0 \<le> ch_index (chs' x)"
    if x: "channelMap p fd = Some x" "fd \<noteq> ch_fd (chs c)" for fd x
  proof (cases "x = e")
    case True
    then show ?thesis using n nth [of ?i] lastE C(3) by (simp add: p' chs')
  next
    case False
    have "ch_index (chs x) \<noteq> ch_index (chs e)" "ch_index (chs x) \<noteq> ch_index (chs c)"
      using index_inject [OF inv x(1) e(1)] index_inject [OF inv x(1) mem] x False e(1) by auto
    then have "nat (ch_index (chs x)) < ?n - 1" "nat (ch_index (chs x)) \<noteq> ?i"
      using poller_invD(3,4) [OF inv x(1)] C(3) e(2) by linarith+
    with False show ?thesis using nth poller_invD(3) [OF inv x(1)] by (simp add: p' chs')
  qed
  have "poller_inv (p', chs')"
  proof (rule poller_invI)
    fix fd x assume "channelMap p' fd = Some x"
    then have x: "channelMap p fd = Some x" "fd \<noteq> ch_fd (chs c)" by (auto simp: p' split: if_splits)
    have "ch_fd (chs' x) = ch_fd (chs x)" by (simp add: chs')
    then show "0 \<le> fd \<and> ch_fd (chs' x) = fd
        \<and> 0 \<le> ch_index (chs' x) \<and> ch_index (chs' x) < int (length (pollfds p'))
        \<and> (pfd_fd (pollfds p' ! nat (ch_index (chs' x))) = fd
           \<or> pfd_fd (pollfds p' ! nat (ch_index (chs' x))) = hidden_fd fd)"
      using pos [OF x] poller_invD(1,2,6) [OF inv x(1)] fdse by (auto simp: p' simp flip: zless_nat_eq_int_zless)
  next
    fix j assume "j < length (pollfds p')"
    then have j: "j < ?n - 1" using fdse by (simp add: p')
    show "\<exists>fd x. channelMap p' fd = Some x \<and> ch_index (chs' x) = int j"
    proof (cases "j = ?i")
      case True
      then show ?thesis using e(1) ec C(3) by (intro exI [of _ fde] exI [of _ e]) (simp add: p' chs')
    next
      case False
      from j have "j < ?n" by simp
      from poller_inv_covers [OF inv this]
      obtain fd x where x: "channelMap p fd = Some x" "ch_index (chs x) = int j" by blast
      have "x \<noteq> e" using x(2) e(2) j by auto
      moreover have "fd \<noteq> ch_fd (chs c)" using x mem False by auto
      ultimately show ?thesis using x by (intro exI [of _ fd] exI [of _ x]) (simp add: p' chs')
    qed
  qed
  moreover have "entry_of (p', chs') = (entry_of (p, chs))(ch_fd (chs c) := None)"
  proof
    fix fd
    show "entry_of (p', chs') fd = ((entry_of (p, chs))(ch_fd (chs c) := None)) fd"
    proof (cases "fd = ch_fd (chs c)")
      case True
      then show ?thesis by (simp add: entry_of_def p')
    next
      case False
      then show ?thesis using pos [of fd] by (cases "channelMap p fd") (auto simp: entry_of_def p')
    qed
  qed
  ultimately show ?thesis ..
qed

lemma remove_channel:
  assumes inv: "poller_inv (p, chs)" and ret: "retirable c (p, chs)"
  shows "\<exists>p' chs'. Poller_removeChannel True c (p, chs) = Inr (p', chs')
    \<and> poller_inv (p', chs')
    \<and> entry_of (p', chs') = (entry_of (p, chs))(ch_fd (chs c) := None)
    \<and> channelMap p' = (channelMap p)(ch_fd (chs c) := None)
    \<and> (\<forall>d. \<exists>i. chs' d = (chs d)\<lparr>ch_index := i\<rparr>) \<and> ownerLoop p' = ownerLoop p"
proof -
  let ?n = "length (pollfds p)" and ?i = "nat (ch_index (chs c))"
  let ?m = "(channelMap p)(ch_fd (chs c) := None)"
  have mem: "channelMap p (ch_fd (chs c)) = Some c" and none: "isNoneEvent (chs c)"
    and pfd: "pfd_fd (pollfds p ! ?i) = hidden_fd (ch_fd (chs c))" "pfd_events (pollfds p ! ?i) = 0"
    using ret by (auto simp: retirable_def enrolled_def entry_of_def)
  note C = poller_invD [OF inv mem]
  have ev: "sint (pfd_events (pollfds p ! ?i)) = sint (ch_events (chs c))"
    using pfd none by (simp add: isNoneEvent_def kNoneEvent_def)
  note guards = mem none pfd(1) ev C(3,4)
  have same: "\<forall>d. \<exists>i. chs d = (chs d)\<lparr>ch_index := i\<rparr>"
  proof
    fix d show "\<exists>i. chs d = (chs d)\<lparr>ch_index := i\<rparr>" by (rule exI [of _ "ch_index (chs d)"]) simp
  qed
  show ?thesis
  proof (cases "ch_index (chs c) = int ?n - 1")
    case True
    let ?p' = "p\<lparr>pollfds := butlast (pollfds p), channelMap := ?m\<rparr>"
    have "Poller_removeChannel True c (p, chs) = Inr (?p', chs)"
      using guards True by (simp add: Poller_removeChannel_def Let_def)
    with remove_last [OF inv mem True refl] same show ?thesis
      by (intro exI [of _ ?p'] exI [of _ chs]) simp
  next
    case False
    have n: "0 < ?n" using C by linarith
    then have "?n - 1 < ?n" by simp
    from poller_inv_covers [OF inv this] obtain fde e where
      e: "channelMap p fde = Some e" "ch_index (chs e) = int ?n - 1"
      using n by (auto simp: of_nat_diff)
    note E = poller_invD [OF inv e(1)]
    have "nat (ch_index (chs e)) = ?n - 1" using n e(2) by linarith
    with n have "last (pollfds p) = pollfds p ! nat (ch_index (chs e))"
      by (simp add: last_conv_nth)
    with E have fde: "(if pfd_fd (last (pollfds p)) < 0 then hidden_fd (pfd_fd (last (pollfds p)))
        else pfd_fd (last (pollfds p))) = fde" by auto
    have "fde \<noteq> ch_fd (chs c)" using e mem False by auto
    with e(1) have me: "?m fde = Some e" by simp
    let ?fds = "butlast ((pollfds p)[?i := last (pollfds p), ?n - 1 := pollfds p ! ?i])"
    let ?p' = "p\<lparr>pollfds := ?fds, channelMap := ?m\<rparr>"
    let ?chs' = "chs(e := (chs e)\<lparr>ch_index := ch_index (chs c)\<rparr>)"
    have "Poller_removeChannel True c (p, chs) = Inr (?p', ?chs')"
      using guards False me unfolding Poller_removeChannel_def Let_def prod.case
      by (simp only: fde assert_that_True if_False option.case simp_thms option.simps)
    moreover have "\<forall>d. \<exists>i. ?chs' d = (chs d)\<lparr>ch_index := i\<rparr>"
      using same by auto
    ultimately show ?thesis using remove_middle [OF inv mem e False refl refl refl]
      by (intro exI [of _ ?p'] exI [of _ ?chs']) simp
  qed
qed

interpretation poller_registry:
  channel_registry poller_inv entry_of chan_key "Poller_updateChannel True"
    "Poller_removeChannel True" joinable enrolled retirable
proof unfold_locales
  fix s :: "poller \<times> channel_store" and c
  assume inv: "poller_inv s" and c: "joinable c s \<or> enrolled c s"
  obtain p chs where s: "s = (p, chs)" by (cases s)
  have fd: "chan_key c (p, chs) = ch_fd (chs c)" by (simp add: chan_key_def)
  show "\<exists>s' e. Poller_updateChannel True c s = Inr s' \<and> poller_inv s' \<and> enrolled c s'
      \<and> chan_key c s' = chan_key c s \<and> entry_of s' = (entry_of s)(chan_key c s \<mapsto> e)"
  proof (cases "joinable c s")
    case True
    from update_new [OF inv [unfolded s] True [unfolded s]] s fd show ?thesis
      by (fastforce simp: chan_key_def)
  next
    case False
    with c have "enrolled c s" by simp
    from update_old [OF inv [unfolded s] this [unfolded s]] fd s show ?thesis
      by (auto simp: chan_key_def)
  qed
next
  fix s :: "poller \<times> channel_store" and c
  assume "poller_inv s" and "retirable c s"
  then show "\<exists>s'. Poller_removeChannel True c s = Inr s' \<and> poller_inv s'
      \<and> entry_of s' = (entry_of s)(chan_key c s := None)"
    using remove_channel [of "fst s" "snd s" c] by (cases s) (auto simp: chan_key_def)
qed

section \<open>Polling\<close>

text \<open>The channels of the entries with events, in the order of the array.\<close>

definition ready_channels :: "(int \<rightharpoonup> nat) \<Rightarrow> pollfd list \<Rightarrow> nat list" where
  "ready_channels m fds = map (\<lambda>pfd. the (m (pfd_fd pfd))) (filter (\<lambda>pfd. sint (pfd_revents pfd) > 0) fds)"

lemma channel_own_revents: "\<exists>r. ch = ch\<lparr>ch_revents := r\<rparr>" for ch :: channel
  by (rule exI [of _ "ch_revents ch"]) simp

text \<open>The loop over an array whose entries with events all belong to a registered channel.\<close>

lemma fillActiveChannels_returns:
  assumes "\<forall>pfd \<in> set fds. sint (pfd_revents pfd) > 0 \<longrightarrow>
      (\<exists>c. m (pfd_fd pfd) = Some c \<and> ch_fd (chs c) = pfd_fd pfd)"
  shows "\<exists>chs'. fillActiveChannels m fds n active chs
      = Inr (active @ take (nat n) (ready_channels m fds), chs')
    \<and> (\<forall>c. \<exists>r. chs' c = (chs c)\<lparr>ch_revents := r\<rparr>)
    \<and> (\<forall>c. c \<notin> set (ready_channels m fds) \<longrightarrow> chs' c = chs c)"
  using assms
proof (induction fds arbitrary: n active chs)
  case Nil
  have "\<forall>c. \<exists>r. chs c = (chs c)\<lparr>ch_revents := r\<rparr>"
    by (intro allI channel_own_revents)
  then show ?case by (simp add: ready_channels_def)
next
  case (Cons pfd fds)
  have id: "\<forall>c. \<exists>r. chs c = (chs c)\<lparr>ch_revents := r\<rparr>"
    by (intro allI channel_own_revents)
  consider (stop) "\<not> n > 0" | (skip) "n > 0" "\<not> sint (pfd_revents pfd) > 0"
    | (take) "n > 0" "sint (pfd_revents pfd) > 0" by blast
  then show ?case
  proof cases
    case stop
    then show ?thesis using id by simp
  next
    case skip
    then show ?thesis using Cons.IH [of chs n active] Cons.prems by (simp add: ready_channels_def)
  next
    case take
    with Cons.prems obtain c where c: "m (pfd_fd pfd) = Some c" "ch_fd (chs c) = pfd_fd pfd" by auto
    let ?chs = "chs(c := set_revents (pfd_revents pfd) (chs c))"
    have "\<forall>q \<in> set fds. sint (pfd_revents q) > 0 \<longrightarrow>
        (\<exists>c. m (pfd_fd q) = Some c \<and> ch_fd (?chs c) = pfd_fd q)"
      using Cons.prems by (auto simp: set_revents_def)
    from Cons.IH [OF this, of "n - 1" "active @ [c]"] obtain chs' where
      ih: "fillActiveChannels m fds (n - 1) (active @ [c]) ?chs
        = Inr ((active @ [c]) @ take (nat (n - 1)) (ready_channels m fds), chs')"
      "\<forall>d. \<exists>r. chs' d = (?chs d)\<lparr>ch_revents := r\<rparr>"
      "\<forall>d. d \<notin> set (ready_channels m fds) \<longrightarrow> chs' d = ?chs d" by blast
    have rc: "ready_channels m (pfd # fds) = c # ready_channels m fds"
      using take c by (simp add: ready_channels_def)
    have nn: "nat n = Suc (nat (n - 1))" using take(1) by simp
    have "fillActiveChannels m (pfd # fds) n active chs
        = Inr (active @ take (nat n) (ready_channels m (pfd # fds)), chs')"
      using take c ih(1) by (simp add: rc nn)
    moreover have "\<exists>r. chs' d = (chs d)\<lparr>ch_revents := r\<rparr>" for d
      using ih(2)[rule_format, of d] by (auto simp: set_revents_def split: if_splits)
    moreover have "\<forall>d. d \<notin> set (ready_channels m (pfd # fds)) \<longrightarrow> chs' d = chs d"
      using ih(3) by (simp add: rc)
    ultimately show ?thesis by blast
  qed
qed

text \<open>Each active channel ends up with its own entry's events.\<close>

lemma fillActiveChannels_revents:
  assumes "\<forall>pfd \<in> set fds. sint (pfd_revents pfd) > 0 \<longrightarrow>
      (\<exists>c. m (pfd_fd pfd) = Some c \<and> ch_fd (chs c) = pfd_fd pfd)"
    and "distinct (map pfd_fd fds)"
    and "fillActiveChannels m fds n active chs = Inr (active', chs')"
    and "int (length (filter (\<lambda>pfd. sint (pfd_revents pfd) > 0) fds)) \<le> n"
    and "pfd \<in> set fds" "sint (pfd_revents pfd) > 0"
  shows "ch_revents (chs' (the (m (pfd_fd pfd)))) = scast (pfd_revents pfd)"
  using assms
proof (induction fds arbitrary: n active chs)
  case (Cons q fds)
  have "pfd \<in> set (filter (\<lambda>pfd. sint (pfd_revents pfd) > 0) (q # fds))"
    using Cons.prems(5,6) by auto
  then have "length (filter (\<lambda>pfd. sint (pfd_revents pfd) > 0) (q # fds)) \<noteq> 0"
    by (metis length_0_conv list.distinct(1) list.set_cases)
  with Cons.prems(4) have npos: "n > 0" by linarith
  show ?case
  proof (cases "sint (pfd_revents q) > 0")
    case False
    then show ?thesis using Cons npos by (auto split: if_splits)
  next
    case True
    with Cons.prems(1) obtain c where c: "m (pfd_fd q) = Some c" "ch_fd (chs c) = pfd_fd q" by auto
    let ?chs = "chs(c := set_revents (pfd_revents q) (chs c))"
    have ok: "\<forall>q \<in> set fds. sint (pfd_revents q) > 0 \<longrightarrow>
        (\<exists>c. m (pfd_fd q) = Some c \<and> ch_fd (?chs c) = pfd_fd q)"
      using Cons.prems(1) by (auto simp: set_revents_def)
    have n: "n > 0" "int (length (filter (\<lambda>pfd. sint (pfd_revents pfd) > 0) fds)) \<le> n - 1"
      using True Cons.prems(4) by auto
    have run: "fillActiveChannels m fds (n - 1) (active @ [c]) ?chs = Inr (active', chs')"
      using Cons.prems(3) True c n(1) by simp
    show ?thesis
    proof (cases "pfd = q")
      case False
      then have "pfd \<in> set fds" using Cons.prems(5) by simp
      from Cons.IH [OF ok _ run n(2) this Cons.prems(6)] Cons.prems(2) show ?thesis by simp
    next
      case eq: True
      have "c \<notin> set (ready_channels m fds)"
      proof
        assume "c \<in> set (ready_channels m fds)"
        then obtain r where r: "r \<in> set fds" "sint (pfd_revents r) > 0" "c = the (m (pfd_fd r))"
          by (auto simp: ready_channels_def)
        with ok obtain d where "m (pfd_fd r) = Some d" "ch_fd (?chs d) = pfd_fd r" by blast
        with r(3) c have "pfd_fd r = pfd_fd q" by (simp add: set_revents_def)
        with r(1) Cons.prems(2) show False by (auto simp: image_iff)
      qed
      with fillActiveChannels_returns [OF ok, of "n - 1" "active @ [c]"] run
      have "chs' c = ?chs c" by (auto simp del: fun_upd_apply)
      then show ?thesis using c eq by (simp add: set_revents_def)
    qed
  qed
qed simp

lemma poller_fds_distinct:
  assumes "poller_inv (p, chs)"
  shows "distinct (map pfd_fd (pollfds p))"
proof (unfold distinct_conv_nth, intro allI impI)
  fix i j assume ij: "i < length (map pfd_fd (pollfds p))" "j < length (map pfd_fd (pollfds p))" "i \<noteq> j"
  then obtain fd c fd' c' where
    c: "channelMap p fd = Some c" "ch_index (chs c) = int i" and
    c': "channelMap p fd' = Some c'" "ch_index (chs c') = int j"
    using poller_inv_covers [OF assms, of i] poller_inv_covers [OF assms, of j] by auto
  have "fd \<noteq> fd'" using c c' ij(3) by auto
  then show "map pfd_fd (pollfds p) ! i \<noteq> map pfd_fd (pollfds p) ! j"
    using poller_invD(1,6) [OF assms c(1)] poller_invD(1,6) [OF assms c'(1)] c(2) c'(2) ij(1,2)
    by (auto simp: hidden_fd_def)
qed

lemma poller_inv_entry:
  assumes inv: "poller_inv (p, chs)" and pfd: "pfd \<in> set (pollfds p)" and pos: "0 \<le> pfd_fd pfd"
  shows "\<exists>c. channelMap p (pfd_fd pfd) = Some c \<and> ch_fd (chs c) = pfd_fd pfd
     \<and> entry_of (p, chs) (pfd_fd pfd) = Some (c, pfd)"
proof -
  obtain i where i: "i < length (pollfds p)" "pfd = pollfds p ! i"
    using pfd by (auto simp: in_set_conv_nth)
  from poller_inv_covers [OF inv i(1)] obtain fd c where
    c: "channelMap p fd = Some c" "ch_index (chs c) = int i" by blast
  with poller_invD [OF inv c(1)] i pos have "fd = pfd_fd pfd" by auto
  with c poller_invD(2) [OF inv c(1)] i show ?thesis by (auto simp: entry_of_def)
qed

lemma store_revents_nth:
  "length rs = length fds \<Longrightarrow> i < length fds \<Longrightarrow>
     store_revents rs fds ! i = (fds ! i)\<lparr>pfd_revents := rs ! i\<rparr>"
  by (simp add: store_revents_def)

lemma store_revents_fds:
  "length rs = length fds \<Longrightarrow> map pfd_fd (store_revents rs fds) = map pfd_fd fds"
  by (rule nth_equalityI) (simp_all add: store_revents_def)

lemma store_revents_inv:
  assumes "poller_inv (p, chs)" "length rs = length (pollfds p)"
    "\<forall>c. \<exists>r. chs' c = (chs c)\<lparr>ch_revents := r\<rparr>"
  shows "poller_inv (p\<lparr>pollfds := store_revents rs (pollfds p)\<rparr>, chs')"
proof -
  have same: "ch_fd (chs' c) = ch_fd (chs c)" "ch_index (chs' c) = ch_index (chs c)" for c
    using assms(3)[rule_format, of c] by auto
  have len: "length (store_revents rs (pollfds p)) = length (pollfds p)"
    using assms(2) by (simp add: store_revents_def)
  show ?thesis
  proof (rule poller_invI)
    fix fd c assume "channelMap (p\<lparr>pollfds := store_revents rs (pollfds p)\<rparr>) fd = Some c"
    then have c: "channelMap p fd = Some c" by simp
    note C = poller_invD [OF assms(1) c]
    have "pfd_fd (store_revents rs (pollfds p) ! nat (ch_index (chs c))) = pfd_fd (pollfds p ! nat (ch_index (chs c)))"
      using C assms(2) by (simp add: store_revents_nth)
    then show "0 \<le> fd \<and> ch_fd (chs' c) = fd \<and> 0 \<le> ch_index (chs' c)
        \<and> ch_index (chs' c) < int (length (pollfds (p\<lparr>pollfds := store_revents rs (pollfds p)\<rparr>)))
        \<and> (pfd_fd (pollfds (p\<lparr>pollfds := store_revents rs (pollfds p)\<rparr>) ! nat (ch_index (chs' c))) = fd
          \<or> pfd_fd (pollfds (p\<lparr>pollfds := store_revents rs (pollfds p)\<rparr>) ! nat (ch_index (chs' c))) = hidden_fd fd)"
      using C by (simp add: same len)
  next
    fix i assume "i < length (pollfds (p\<lparr>pollfds := store_revents rs (pollfds p)\<rparr>))"
    then show "\<exists>fd c. channelMap (p\<lparr>pollfds := store_revents rs (pollfds p)\<rparr>) fd = Some c
        \<and> ch_index (chs' c) = int i"
      using poller_inv_covers [OF assms(1), of i] by (simp add: same len)
  qed
qed


definition poll_answer_ok :: "poller \<times> channel_store \<Rightarrow> int \<Rightarrow> 'a kernel_scheme \<Rightarrow> bool" where
  "poll_answer_ok s timeout w \<longleftrightarrow>
     answer_ok (SysPoll (pollfds (fst s)) timeout, os w (length (calls w)))"

lemma Poller_poll_returns:
  assumes inv: "poller_inv (p, chs)" and ok: "poll_answer_ok (p, chs) timeout w"
    and fds: "fds = store_revents (ready (os w (length (calls w)))) (pollfds p)"
  shows "\<exists>t chs' w'. Poller_poll timeout [] (p, chs) w =
      Inr (t, ready_channels (channelMap p) fds, (p\<lparr>pollfds := fds\<rparr>, chs'), w')
    \<and> poller_inv (p\<lparr>pollfds := fds\<rparr>, chs')
    \<and> (\<forall>c. \<exists>r. chs' c = (chs c)\<lparr>ch_revents := r\<rparr>)
    \<and> (\<forall>pfd \<in> set fds. sint (pfd_revents pfd) > 0 \<longrightarrow> 0 \<le> pfd_fd pfd
         \<and> ch_revents (chs' (the (channelMap p (pfd_fd pfd)))) = scast (pfd_revents pfd))"
proof -
  let ?a = "os w (length (calls w))" and ?m = "channelMap p"
  let ?L = "ready_channels ?m fds"
  have ans: "length (ready ?a) = length (pollfds p)"
    "ret ?a = int (length (filter (\<lambda>r. r \<noteq> 0) (ready ?a)))"
    "list_all (\<lambda>r. 0 \<le> sint r) (ready ?a)"
    "list_all2 (\<lambda>pfd r. pfd_fd pfd < 0 \<longrightarrow> r = 0) (pollfds p) (ready ?a)"
    using ok by (simp_all add: poll_answer_ok_def)
  note len = ans(1) and n = ans(2)
  have sgn: "\<forall>r \<in> set (ready ?a). 0 \<le> sint r" using ans(3) by (simp add: list_all_iff)
  have neg: "\<And>i. i < length (pollfds p) \<Longrightarrow> pfd_fd (pollfds p ! i) < 0 \<Longrightarrow> ready ?a ! i = 0"
    using ans(4) by (simp add: list_all2_conv_all_nth)
  have revs: "map pfd_revents fds = ready ?a"
    unfolding fds by (rule nth_equalityI) (simp_all add: len store_revents_nth store_revents_def)
  have pos: "sint r > 0 \<longleftrightarrow> r \<noteq> 0" if "r \<in> set (ready ?a)" for r
  proof -
    have "sint r \<noteq> 0 \<longleftrightarrow> r \<noteq> 0" by (metis scast_eq scast_id signed_0)
    with sgn that show ?thesis by (metis order_le_less order_less_irrefl)
  qed
  have "length ?L = length (filter (\<lambda>r. sint r > 0) (map pfd_revents fds))"
    by (simp add: ready_channels_def filter_map o_def)
  moreover have "filter (\<lambda>r. sint r > 0) (ready ?a) = filter (\<lambda>r. r \<noteq> 0) (ready ?a)"
    using pos by (intro filter_cong) auto
  ultimately have count: "int (length ?L) = ret ?a" using n by (simp add: revs)
  have inv1: "poller_inv (p\<lparr>pollfds := fds\<rparr>, chs')" if "\<forall>c. \<exists>r. chs' c = (chs c)\<lparr>ch_revents := r\<rparr>" for chs'
    unfolding fds by (rule store_revents_inv [OF inv len that])
  have fd_pos: "0 \<le> pfd_fd pfd" if pfd: "pfd \<in> set fds" "sint (pfd_revents pfd) > 0" for pfd
  proof -
    obtain i where i: "i < length (pollfds p)" "pfd = (pollfds p ! i)\<lparr>pfd_revents := ready ?a ! i\<rparr>"
      using pfd(1) len store_revents_nth [OF len] by (auto simp: fds in_set_conv_nth store_revents_def)
    with pfd(2) neg [OF i(1)] show ?thesis by force
  qed
  have reg: "\<forall>pfd \<in> set fds. sint (pfd_revents pfd) > 0 \<longrightarrow>
      (\<exists>c. ?m (pfd_fd pfd) = Some c \<and> ch_fd (chs c) = pfd_fd pfd)"
  proof (intro ballI impI)
    fix pfd assume pfd: "pfd \<in> set fds" "sint (pfd_revents pfd) > 0"
    have "\<forall>c. \<exists>r. chs c = (chs c)\<lparr>ch_revents := r\<rparr>"
      by (intro allI channel_own_revents)
    from poller_inv_entry [OF inv1 [OF this] _ fd_pos [OF pfd]] pfd(1)
    show "\<exists>c. ?m (pfd_fd pfd) = Some c \<and> ch_fd (chs c) = pfd_fd pfd" by simp blast
  qed
  have "[] @ take (nat (ret ?a)) ?L = ?L" using count by simp
  with fillActiveChannels_returns [OF reg, of "ret ?a" "[]"] obtain chs' where
    fill: "fillActiveChannels ?m fds (ret ?a) [] chs = Inr (?L, chs')"
    and frame: "\<forall>c. \<exists>r. chs' c = (chs c)\<lparr>ch_revents := r\<rparr>"
    and rest: "\<forall>c. c \<notin> set ?L \<longrightarrow> chs' c = chs c"
    by (simp only:) blast
  have "distinct (map pfd_fd fds)"
    using poller_fds_distinct [OF inv] store_revents_fds [OF len] by (simp add: fds)
  moreover have "int (length (filter (\<lambda>pfd. sint (pfd_revents pfd) > 0) fds)) \<le> ret ?a"
    using count by (simp add: ready_channels_def)
  ultimately have rv: "ch_revents (chs' (the (?m (pfd_fd pfd)))) = scast (pfd_revents pfd)"
    if "pfd \<in> set fds" "sint (pfd_revents pfd) > 0" for pfd
    using fillActiveChannels_revents [OF reg _ fill _ that] by blast
  let ?w = "snd (do_call SysGettimeofday (snd (do_call (SysPoll (pollfds p) timeout) w)))"
  let ?t = "now (tv (fst (do_call SysGettimeofday (snd (do_call (SysPoll (pollfds p) timeout) w)))))"
  have "Poller_poll timeout [] (p, chs) w = Inr (?t, ?L, (p\<lparr>pollfds := fds\<rparr>, chs'), ?w)"
  proof (cases "ret ?a > 0")
    case True
    then show ?thesis using fill by (simp add: Poller_poll_def do_call_def Let_def fds [symmetric])
  next
    case False
    with count have r0: "ret ?a = 0" and "length ?L = 0" by linarith+
    then have L: "?L = []" by simp
    with rest have "chs' = chs" by auto
    with False r0 L show ?thesis by (simp add: Poller_poll_def do_call_def Let_def fds [symmetric])
  qed
  with inv1 [OF frame] frame rv fd_pos show ?thesis by blast
qed

section \<open>A hidden entry stays hidden\<close>

text \<open>A mask operation of a channel: the change of the mask, then \<open>update()\<close>.\<close>

definition Channel_change ::
  "bool \<Rightarrow> nat \<Rightarrow> mask_op \<Rightarrow> poller \<times> channel_store \<Rightarrow> (poller \<times> channel_store) result" where
  "Channel_change in_loop c m s =
     (let (p, chs) = s in Poller_updateChannel in_loop c (p, chs(c := apply_mask m (chs c))))"

lemma same_links_inv:
  assumes "poller_inv (p, chs)"
    "\<And>d. ch_fd (chs' d) = ch_fd (chs d)" "\<And>d. ch_index (chs' d) = ch_index (chs d)"
  shows "poller_inv (p, chs')" "entry_of (p, chs') = entry_of (p, chs)"
    "enrolled c (p, chs') = enrolled c (p, chs)" "joinable c (p, chs') = joinable c (p, chs)"
  using assms by (simp_all add: poller_inv_def entry_of_def enrolled_def joinable_def fun_eq_iff
      split: option.splits)

lemma change_old:
  assumes inv: "poller_inv (p, chs)" and mem: "enrolled c (p, chs)"
  shows "\<exists>p' chs'. Channel_change True c m (p, chs) = Inr (p', chs') \<and> poller_inv (p', chs')
     \<and> enrolled c (p', chs') \<and> chs' = chs(c := apply_mask m (chs c))
     \<and> entry_of (p', chs') = (entry_of (p, chs))(ch_fd (chs c) \<mapsto>
         (c, refreshed (apply_mask m (chs c)) (pollfds p ! nat (ch_index (chs c)))))"
proof -
  let ?chs = "chs(c := apply_mask m (chs c))"
  note same = same_links_inv [OF inv, of ?chs]
  have "poller_inv (p, ?chs)" "enrolled c (p, ?chs)" using same mem by auto
  from update_old [OF this] same(2) show ?thesis by (auto simp: Channel_change_def)
qed

definition hidden :: "nat \<Rightarrow> poller \<times> channel_store \<Rightarrow> bool" where
  "hidden c s \<longleftrightarrow> enrolled c s \<and>
     (case entry_of s (ch_fd (snd s c)) of None \<Rightarrow> False
      | Some (d, pfd) \<Rightarrow> pfd_fd pfd = hidden_fd (ch_fd (snd s c)))"

lemma hidden_step:
  assumes "poller_inv s" "hidden c s"
  shows "\<exists>s'. Channel_change True c m s = Inr s' \<and> poller_inv s' \<and> hidden c s'
    \<and> ch_fd (snd s' c) = ch_fd (snd s c)"
proof -
  obtain p chs where s: "s = (p, chs)" by (cases s)
  have mem: "enrolled c (p, chs)" and h: "pfd_fd (pollfds p ! nat (ch_index (chs c))) = hidden_fd (ch_fd (chs c))"
    using assms(2) by (auto simp: s hidden_def enrolled_def entry_of_def)
  from change_old [OF assms(1) [unfolded s] mem, of m] h show ?thesis
    by (auto simp: s hidden_def refreshed_def Let_def)
qed

lemma hidden_run:
  assumes "poller_inv s" "hidden c s"
  shows "\<exists>s'. run_all (Channel_change True c) ops s = Inr s' \<and> poller_inv s' \<and> hidden c s'
    \<and> ch_fd (snd s' c) = ch_fd (snd s c)"
  using assms
proof (induction ops arbitrary: s)
  case (Cons m ops)
  from hidden_step [OF Cons.prems, of m] obtain s1 where
    s1: "Channel_change True c m s = Inr s1" "poller_inv s1" "hidden c s1"
    "ch_fd (snd s1 c) = ch_fd (snd s c)" by blast
  from Cons.IH [OF s1(2,3)] s1 show ?case by auto
qed simp

section \<open>Properties\<close>

text \<open>
  Registration: entering a new channel returns, keeps array, map and positions in agreement,
  and adds exactly one entry, the channel's own descriptor with the channel's mask.
\<close>

theorem updateChannel_registers:
  assumes "poller_inv (p, chs)" and "joinable c (p, chs)"
  shows "\<exists>p' chs'. Poller_updateChannel True c (p, chs) = Inr (p', chs') \<and> poller_inv (p', chs')
    \<and> entry_of (p', chs') = (entry_of (p, chs))(ch_fd (chs c) \<mapsto> (c, first_entry (chs c)))"
  using update_new [OF assms] by blast



text \<open>
  The life of a channel leaves no trace in the poller: after registration, any number of
  refreshes, and removal, every descriptor has the entry it had before.
\<close>

theorem channel_life_cycle:
  assumes "poller_inv s" and "joinable c s"
    and "run_all (\<lambda>_. Poller_updateChannel True c) (replicate (Suc n) ()) s = Inr s1"
    and "retirable c s1" and "Poller_removeChannel True c s1 = Inr s2"
  shows "poller_inv s2 \<and> entry_of s2 = entry_of s"
proof -
  have "entry_of s (chan_key c s) = None"
    using assms(2) by (cases s) (simp add: joinable_def chan_key_def entry_of_def)
  with assms show ?thesis using poller_registry.life_cycle by blast
qed

lemma hidden_not_ready:
  assumes inv: "poller_inv (p, chs)" and hid: "hidden c (p, chs)"
    and ok: "poll_answer_ok (p, chs) timeout w"
  shows "\<exists>t active s' w'. Poller_poll timeout [] (p, chs) w = Inr (t, active, s', w')
    \<and> c \<notin> set active"
proof -
  let ?fds = "store_revents (ready (os w (length (calls w)))) (pollfds p)"
  from Poller_poll_returns [OF inv ok refl] obtain t chs' w' where
    run: "Poller_poll timeout [] (p, chs) w =
      Inr (t, ready_channels (channelMap p) ?fds, (p\<lparr>pollfds := ?fds\<rparr>, chs'), w')"
    and inv': "poller_inv (p\<lparr>pollfds := ?fds\<rparr>, chs')"
    and same: "\<forall>c. \<exists>r. chs' c = (chs c)\<lparr>ch_revents := r\<rparr>"
    and pos: "\<forall>pfd \<in> set ?fds. sint (pfd_revents pfd) > 0 \<longrightarrow> 0 \<le> pfd_fd pfd" by blast
  have len: "length (ready (os w (length (calls w)))) = length (pollfds p)"
    using ok by (simp add: poll_answer_ok_def)
  have c: "channelMap p (ch_fd (chs c)) = Some c"
    "pfd_fd (pollfds p ! nat (ch_index (chs c))) = hidden_fd (ch_fd (chs c))"
    using hid by (auto simp: hidden_def enrolled_def entry_of_def)
  have idx: "ch_index (chs' c) = ch_index (chs c)" using same by (metis channel.simps(5) channel.select_convs(5) channel.surjective channel.update_convs(4))
  have "c \<notin> set (ready_channels (channelMap p) ?fds)"
  proof
    assume "c \<in> set (ready_channels (channelMap p) ?fds)"
    then obtain pfd where pfd: "pfd \<in> set ?fds" "sint (pfd_revents pfd) > 0"
      "c = the (channelMap p (pfd_fd pfd))" by (auto simp: ready_channels_def)
    with pos have "0 \<le> pfd_fd pfd" by blast
    with poller_inv_entry [OF inv', of pfd] pfd have
      e: "channelMap p (pfd_fd pfd) = Some c" "?fds ! nat (ch_index (chs' c)) = pfd"
      by (auto simp: entry_of_def)
    with poller_invD(1,2,5) [OF inv c(1)] c idx len \<open>0 \<le> pfd_fd pfd\<close> show False
      by (auto simp: store_revents_nth)
  qed
  with run show ?thesis by blast
qed


section \<open>Examples\<close>

text \<open>Two channels on descriptors 5 and 6; the first one registered, the second one to come.\<close>

definition example_channels :: channel_store where
  "example_channels = (\<lambda>c. add_reading (Channel_ctor 0 (5 + int c)))"

definition two_channels :: "poller \<times> channel_store" where
  "two_channels =
     (\<lparr>ownerLoop = 0,
       pollfds = [\<lparr>pfd_fd = hidden_fd 5, pfd_events = 0, pfd_revents = 0\<rparr>,
                  \<lparr>pfd_fd = 6, pfd_events = 3, pfd_revents = 0\<rparr>],
       channelMap = [5 \<mapsto> 0, 6 \<mapsto> 1]\<rparr>,
      example_channels(0 := (drop_all (example_channels 0))\<lparr>ch_index := 0\<rparr>,
                       1 := (example_channels 1)\<lparr>ch_index := 1\<rparr>))"

lemmas example_defs = two_channels_def example_channels_def Channel_ctor_def mask_defs

lemma two_channels_inv: "poller_inv two_channels"
proof -
  have "\<exists>fd c. channelMap (fst two_channels) fd = Some c \<and> ch_index (snd two_channels c) = int i"
    if "i < 2" for i
  proof (cases i)
    case 0
    then show ?thesis by (intro exI [of _ 5] exI [of _ 0]) (simp add: example_defs)
  next
    case (Suc j)
    with that show ?thesis by (intro exI [of _ 6] exI [of _ 1]) (simp add: example_defs)
  qed
  then show ?thesis
    unfolding two_channels_def
    by (intro poller_invI) (auto simp: example_defs split: if_splits)
qed

lemma two_channels_retirable: "retirable 0 two_channels" and two_channels_hidden: "hidden 0 two_channels"
  by (simp_all add: retirable_def hidden_def enrolled_def entry_of_def example_defs isNoneEvent_def
      kNoneEvent_def)

theorem updateChannel_registers_witness:
  "\<exists>p' chs'. Poller_updateChannel True 3 (Poller_ctor 0, example_channels) = Inr (p', chs')
     \<and> entry_of (p', chs') 8
         = Some (3, \<lparr>pfd_fd = 8, pfd_events = 3, pfd_revents = 0\<rparr>)"
proof -
  have "joinable 3 (Poller_ctor 0, example_channels)"
    by (simp add: joinable_def example_defs Poller_ctor_def)
  from updateChannel_registers [OF Poller_ctor_inv this] show ?thesis
    by (fastforce simp: first_entry_def example_defs poll_bits)
qed


definition example_kernel :: kernel where
  "example_kernel = \<lparr>os = (\<lambda>n. (returns 1)\<lparr>ready := [0, 1]\<rparr>), calls = []\<rparr>"

lemma two_channels_answer_ok: "poll_answer_ok two_channels 5000 example_kernel"
  by (simp add: poll_answer_ok_def example_kernel_def two_channels_def returns_def hidden_fd_def)



theorem channel_life_cycle_witness:
  "\<exists>s1 s2. run_all (\<lambda>_. Poller_updateChannel True 3) (replicate (Suc 1) ())
        (Poller_ctor 0, example_channels(3 := Channel_ctor 0 8)) = Inr s1
     \<and> Poller_removeChannel True 3 s1 = Inr s2
     \<and> entry_of s2 = entry_of (Poller_ctor 0, example_channels(3 := Channel_ctor 0 8))"
proof -
  let ?s = "(Poller_ctor 0, example_channels(3 := Channel_ctor 0 8))"
  have j: "joinable 3 ?s" by (simp add: joinable_def Channel_ctor_def Poller_ctor_def)
  obtain s1 where s1: "run_all (\<lambda>_. Poller_updateChannel True 3) (replicate (Suc 1) ()) ?s = Inr s1"
    "retirable 3 s1"
    by (simp add: Poller_updateChannel_def Poller_ctor_def Channel_ctor_def isNoneEvent_def
        kNoneEvent_def retirable_def enrolled_def entry_of_def)
  then obtain s2 where s2: "Poller_removeChannel True 3 s1 = Inr s2"
    using poller_registry.refresh_many [OF Poller_ctor_inv disjI1, OF j, of 1]
      poller_registry.remove_law by fastforce
  from channel_life_cycle [OF Poller_ctor_inv j s1 s2] s1 s2 show ?thesis by blast
qed

end
