(* ===== verification/EventLoop.thy ===== *)
theory EventLoop
  imports Poller
begin

text \<open>
  \<open>net/EventLoop.h\<close> and \<open>net/EventLoop.cpp\<close>, with the members of \<open>Channel\<close> that go through the
  owner loop. The state of all loops, channels and threads of the process is one record,
  \<open>reactor\<close>; an operation is performed by the thread \<open>cur_thread\<close>. What a bound callback or a
  queued functor runs is a parameter of the loop: \<open>call\<close> interprets the names of
  \<open>Channel.callback\<close>, \<open>exec\<close> the names of \<open>task\<close>. Both are given by the components above.
\<close>

section \<open>The class\<close>

text \<open>The functors the sources queue: each is the name of a bound function with its arguments.\<close>

datatype task =
    AcceptorListen nat
  | ConnectEstablished nat
  | ConnectDestroyed nat
  | SendInLoop nat string
  | ShutDownInLoop nat
  | WriteCompleteCB nat nat
  | RemoveConnectionInLoop nat nat
  | UdpListen nat
  | UdpConnCB nat
  | UdpReceive nat nat
  | UdpSend nat nat int sockaddr_in
  | UserFunctor nat

record event_loop =
  looping :: bool
  quit :: bool
  callingPendingFunctors :: bool
  threadId :: nat
  loop_poller :: poller
  pollReturnTime :: timestamp
  wakeupFd :: int
  wakeupChannel :: nat
  activeChannels :: "nat list"
  pendingFunctors :: "task list"

text \<open>\<open>t_loop\<close> is the thread-local \<open>t_loopInThisThread\<close>, one value per thread.\<close>

record reactor = kernel +
  cur_thread :: nat
  chans :: channel_store
  loops :: "nat \<Rightarrow> event_loop"
  t_loop :: "nat \<Rightarrow> nat option"

definition kPollTimeMs :: int where "kPollTimeMs = 5000"

definition set_loop :: "nat \<Rightarrow> (event_loop \<Rightarrow> event_loop) \<Rightarrow> 'a reactor_scheme \<Rightarrow> 'a reactor_scheme" where
  "set_loop l f w = w\<lparr>loops := (loops w)(l := f (loops w l))\<rparr>"

definition set_chan :: "nat \<Rightarrow> (channel \<Rightarrow> channel) \<Rightarrow> 'a reactor_scheme \<Rightarrow> 'a reactor_scheme" where
  "set_chan c f w = w\<lparr>chans := (chans w)(c := f (chans w c))\<rparr>"

definition isInLoopThread :: "nat \<Rightarrow> 'a reactor_scheme \<Rightarrow> bool" where
  "isInLoopThread l w \<longleftrightarrow> threadId (loops w l) = cur_thread w"

section \<open>Channels and their loop\<close>

text \<open>An operation of the poller, performed on the loop's poller and the store of channels.\<close>

definition with_poller ::
  "nat \<Rightarrow> (poller \<times> channel_store \<Rightarrow> (poller \<times> channel_store) result)
    \<Rightarrow> 'a reactor_scheme \<Rightarrow> 'a reactor_scheme result" where
  "with_poller l f w =
     bindE (f (loop_poller (loops w l), chans w))
       (\<lambda>(p, chs). Inr ((set_loop l (loop_poller_update (\<lambda>_. p)) w)\<lparr>chans := chs\<rparr>))"

definition EventLoop_updateChannel ::
  "nat \<Rightarrow> nat \<Rightarrow> 'a reactor_scheme \<Rightarrow> 'a reactor_scheme result" where
  "EventLoop_updateChannel l c w =
     assert_that ''channel->getOwnerLoop() == this'' (ch_loop (chans w c) = l)
      (assert_that ''isInLoopThread()'' (isInLoopThread l w)
        (with_poller l
          (Poller_updateChannel (isInLoopThread (ownerLoop (loop_poller (loops w l))) w) c) w))"

definition EventLoop_removeChannel ::
  "nat \<Rightarrow> nat \<Rightarrow> 'a reactor_scheme \<Rightarrow> 'a reactor_scheme result" where
  "EventLoop_removeChannel l c w =
     assert_that ''channel->getOwnerLoop() == this'' (ch_loop (chans w c) = l)
      (assert_that ''isInLoopThread()'' (isInLoopThread l w)
        (with_poller l
          (Poller_removeChannel (isInLoopThread (ownerLoop (loop_poller (loops w l))) w) c) w))"

definition Channel_update :: "nat \<Rightarrow> 'a reactor_scheme \<Rightarrow> 'a reactor_scheme result" where
  "Channel_update c w = EventLoop_updateChannel (ch_loop (chans w c)) c w"

definition Channel_enableReading :: "nat \<Rightarrow> 'a reactor_scheme \<Rightarrow> 'a reactor_scheme result" where
  "Channel_enableReading c w = Channel_update c (set_chan c add_reading w)"

definition Channel_enableWriting :: "nat \<Rightarrow> 'a reactor_scheme \<Rightarrow> 'a reactor_scheme result" where
  "Channel_enableWriting c w = Channel_update c (set_chan c add_writing w)"

definition Channel_disableWriting :: "nat \<Rightarrow> 'a reactor_scheme \<Rightarrow> 'a reactor_scheme result" where
  "Channel_disableWriting c w = Channel_update c (set_chan c drop_writing w)"

definition Channel_disableAll :: "nat \<Rightarrow> 'a reactor_scheme \<Rightarrow> 'a reactor_scheme result" where
  "Channel_disableAll c w = Channel_update c (set_chan c drop_all w)"

text \<open>\<open>Channel::handleEvent\<close>: each test reads the channel again, after the callbacks before it.\<close>

definition call_if ::
  "(callback \<Rightarrow> timestamp \<Rightarrow> 'a reactor_scheme \<Rightarrow> 'a reactor_scheme result) \<Rightarrow> nat
    \<Rightarrow> (channel \<Rightarrow> bool) \<Rightarrow> (channel \<Rightarrow> callback option) \<Rightarrow> timestamp
    \<Rightarrow> 'a reactor_scheme \<Rightarrow> 'a reactor_scheme result" where
  "call_if call c due cb_of t w =
     (if due (chans w c)
      then (case cb_of (chans w c) of None \<Rightarrow> Inr w | Some cb \<Rightarrow> call cb t w)
      else Inr w)"

definition Channel_handleEvent ::
  "(callback \<Rightarrow> timestamp \<Rightarrow> 'a reactor_scheme \<Rightarrow> 'a reactor_scheme result)
    \<Rightarrow> timestamp \<Rightarrow> nat \<Rightarrow> 'a reactor_scheme \<Rightarrow> 'a reactor_scheme result" where
  "Channel_handleEvent call t c w =
     bindE (call_if call c is_closing ch_closeCallback t
              (set_chan c (ch_eventHandling_update (\<lambda>_. True)) w))
      (\<lambda>w. bindE (call_if call c is_error ch_errorCallback t w)
      (\<lambda>w. bindE (call_if call c is_readable ch_readCallback t w)
      (\<lambda>w. bindE (call_if call c is_writable ch_writeCallback t w)
      (\<lambda>w. Inr (set_chan c (ch_eventHandling_update (\<lambda>_. False)) w)))))"

section \<open>Construction and destruction\<close>

definition createEventfd :: "'a reactor_scheme \<Rightarrow> (int \<times> 'a reactor_scheme) result" where
  "createEventfd w =
     (let (a, w) = do_call SysEventfd w
      in assert_that ''evtfd >= 0'' (ret a \<ge> 0) (Inr (ret a, w)))"

text \<open>The constructor of loop \<open>l\<close>, whose wake-up channel is \<open>c\<close>.\<close>

definition EventLoop_ctor :: "nat \<Rightarrow> nat \<Rightarrow> 'a reactor_scheme \<Rightarrow> 'a reactor_scheme result" where
  "EventLoop_ctor l c w =
     bindE (createEventfd w) (\<lambda>(fd, w).
       let loop = \<lparr>looping = False, quit = False, callingPendingFunctors = False,
                   threadId = cur_thread w, loop_poller = Poller_ctor l,
                   pollReturnTime = Timestamp_default, wakeupFd = fd, wakeupChannel = c,
                   activeChannels = [], pendingFunctors = []\<rparr>;
           w = w\<lparr>loops := (loops w)(l := loop), chans := (chans w)(c := Channel_ctor l fd)\<rparr>
       in assert_that ''!t_loopInThisThread'' (t_loop w (cur_thread w) = None)
           (let w = w\<lparr>t_loop := (t_loop w)(cur_thread w \<mapsto> l)\<rparr>;
                w = set_chan c (Channel_setReadCallback (LoopHandleRead l)) w
            in Channel_enableReading c w))"

text \<open>The destructor, the one of the member \<open>_wakeupChannel\<close> included.\<close>

definition EventLoop_dtor :: "nat \<Rightarrow> 'a reactor_scheme \<Rightarrow> 'a reactor_scheme result" where
  "EventLoop_dtor l w =
     assert_that ''!_looping'' (\<not> looping (loops w l))
      (let (_, w) = do_call (SysClose (wakeupFd (loops w l))) w;
           w = w\<lparr>t_loop := (t_loop w)(cur_thread w := None)\<rparr>
       in bindE (Channel_dtor (chans w (wakeupChannel (loops w l)))) (\<lambda>_. Inr w))"

section \<open>Waking up and queueing\<close>

text \<open>The eight bytes of \<open>uint64_t one = 1\<close> on a little-endian host.\<close>

definition one_bytes :: string where
  "one_bytes = map char_of [1, 0, 0, 0, 0, 0, 0, 0 :: nat]"

definition wakeup :: "nat \<Rightarrow> 'a reactor_scheme \<Rightarrow> 'a reactor_scheme result" where
  "wakeup l w =
     (let (a, w) = do_call (SysWrite (wakeupFd (loops w l)) one_bytes) w
      in assert_that ''n == sizeof one'' (ret a = 8) (Inr w))"

definition EventLoop_handleRead :: "nat \<Rightarrow> 'a reactor_scheme \<Rightarrow> 'a reactor_scheme result" where
  "EventLoop_handleRead l w =
     (let (a, w) = do_call (SysRead (wakeupFd (loops w l)) 8) w
      in assert_that ''n == sizeof one'' (ret a = 8) (Inr w))"

definition quitLoop :: "nat \<Rightarrow> 'a reactor_scheme \<Rightarrow> 'a reactor_scheme result" where
  "quitLoop l w =
     (let w = set_loop l (quit_update (\<lambda>_. True)) w
      in if \<not> isInLoopThread l w then wakeup l w else Inr w)"

definition queueInLoop :: "nat \<Rightarrow> task \<Rightarrow> 'a reactor_scheme \<Rightarrow> 'a reactor_scheme result" where
  "queueInLoop l cb w =
     (let w = set_loop l (pendingFunctors_update (\<lambda>fs. fs @ [cb])) w
      in if \<not> isInLoopThread l w \<or> callingPendingFunctors (loops w l) then wakeup l w else Inr w)"

text \<open>\<open>runInLoop\<close> takes the functor both as a name to queue and as the function to run now.\<close>

definition runInLoop ::
  "nat \<Rightarrow> task \<Rightarrow> ('a reactor_scheme \<Rightarrow> 'a reactor_scheme result)
    \<Rightarrow> 'a reactor_scheme \<Rightarrow> 'a reactor_scheme result" where
  "runInLoop l cb body w = (if isInLoopThread l w then body w else queueInLoop l cb w)"

section \<open>The loop\<close>

definition doPendingFunctors ::
  "(task \<Rightarrow> 'a reactor_scheme \<Rightarrow> 'a reactor_scheme result)
    \<Rightarrow> nat \<Rightarrow> 'a reactor_scheme \<Rightarrow> 'a reactor_scheme result" where
  "doPendingFunctors exec l w =
     (let w = set_loop l (callingPendingFunctors_update (\<lambda>_. True)) w;
          functors = pendingFunctors (loops w l);
          w = set_loop l (pendingFunctors_update (\<lambda>_. [])) w
      in bindE (run_all exec functors w)
           (\<lambda>w. Inr (set_loop l (callingPendingFunctors_update (\<lambda>_. False)) w)))"

text \<open>The call of \<open>poll\<close> in the loop: \<open>_activeChannels.clear()\<close>, then the poller's \<open>poll\<close>.\<close>

definition loop_poll :: "nat \<Rightarrow> 'a reactor_scheme \<Rightarrow> 'a reactor_scheme result" where
  "loop_poll l w =
     (let w = set_loop l (activeChannels_update (\<lambda>_. [])) w
      in bindE (Poller_poll kPollTimeMs (activeChannels (loops w l))
                  (loop_poller (loops w l), chans w) w)
          (\<lambda>(t, active, (p, chs), w).
             Inr ((set_loop l (\<lambda>el. el\<lparr>pollReturnTime := t, activeChannels := active,
                                        loop_poller := p\<rparr>) w)\<lparr>chans := chs\<rparr>)))"

text \<open>One turn of the \<open>while\<close> loop.\<close>

definition loop_turn ::
  "(callback \<Rightarrow> timestamp \<Rightarrow> 'a reactor_scheme \<Rightarrow> 'a reactor_scheme result)
    \<Rightarrow> (task \<Rightarrow> 'a reactor_scheme \<Rightarrow> 'a reactor_scheme result)
    \<Rightarrow> nat \<Rightarrow> 'a reactor_scheme \<Rightarrow> 'a reactor_scheme result" where
  "loop_turn call exec l w =
     bindE (loop_poll l w)
      (\<lambda>w. bindE (run_all (Channel_handleEvent call (pollReturnTime (loops w l)))
                   (activeChannels (loops w l)) w)
      (\<lambda>w. doPendingFunctors exec l w))"

text \<open>\<open>while(!_quit)\<close>; \<open>None\<close> when the loop is not left.\<close>

partial_function (option) loop_while ::
  "(callback \<Rightarrow> timestamp \<Rightarrow> 'a reactor_scheme \<Rightarrow> 'a reactor_scheme result)
    \<Rightarrow> (task \<Rightarrow> 'a reactor_scheme \<Rightarrow> 'a reactor_scheme result)
    \<Rightarrow> nat \<Rightarrow> 'a reactor_scheme \<Rightarrow> 'a reactor_scheme result option" where
  "loop_while call exec l w =
     (if quit (loops w l) then Some (Inr w)
      else (case loop_turn call exec l w of
              Inl e \<Rightarrow> Some (Inl e)
            | Inr w' \<Rightarrow> loop_while call exec l w'))"

definition startLoop ::
  "(callback \<Rightarrow> timestamp \<Rightarrow> 'a reactor_scheme \<Rightarrow> 'a reactor_scheme result)
    \<Rightarrow> (task \<Rightarrow> 'a reactor_scheme \<Rightarrow> 'a reactor_scheme result)
    \<Rightarrow> nat \<Rightarrow> 'a reactor_scheme \<Rightarrow> 'a reactor_scheme result option" where
  "startLoop call exec l w =
     (if looping (loops w l) then Some (Inl (AssertFail ''!_looping''))
      else if \<not> isInLoopThread l w then Some (Inl (AssertFail ''isInLoopThread()''))
      else (case loop_while call exec l
                   (set_loop l (\<lambda>el. el\<lparr>looping := True, quit := False\<rparr>) w) of
              None \<Rightarrow> None
            | Some r \<Rightarrow>
                Some (bindE r (\<lambda>w. Inr (set_loop l (looping_update (\<lambda>_. False)) w)))))"

section \<open>Facts about the state\<close>

lemma set_loop_simps [simp]:
  "loops (set_loop l f w) = (loops w)(l := f (loops w l))"
  "chans (set_loop l f w) = chans w" "cur_thread (set_loop l f w) = cur_thread w"
  "os (set_loop l f w) = os w" "calls (set_loop l f w) = calls w" "t_loop (set_loop l f w) = t_loop w"
  by (simp_all add: set_loop_def)

lemma set_chan_simps [simp]:
  "chans (set_chan c g w) = (chans w)(c := g (chans w c))"
  "loops (set_chan c g w) = loops w" "cur_thread (set_chan c g w) = cur_thread w"
  "os (set_chan c g w) = os w" "calls (set_chan c g w) = calls w" "t_loop (set_chan c g w) = t_loop w"
  by (simp_all add: set_chan_def)

lemma isInLoopThread_simps [simp]:
  "isInLoopThread l (set_chan c g w) = isInLoopThread l w"
  "(\<And>el. threadId (f el) = threadId el) \<Longrightarrow> isInLoopThread l (set_loop l' f w) = isInLoopThread l w"
  by (simp_all add: isInLoopThread_def)

text \<open>The agreement of every loop's poller with the store of channels.\<close>

definition reactor_inv :: "'a reactor_scheme \<Rightarrow> bool" where
  "reactor_inv w \<longleftrightarrow> (\<forall>l. poller_inv (loop_poller (loops w l), chans w)
     \<and> ownerLoop (loop_poller (loops w l)) = l
     \<and> (\<forall>fd c. channelMap (loop_poller (loops w l)) fd = Some c \<longrightarrow> ch_loop (chans w c) = l))"

lemma reactor_invD:
  assumes "reactor_inv w"
  shows "poller_inv (loop_poller (loops w l), chans w)" "ownerLoop (loop_poller (loops w l)) = l"
    "channelMap (loop_poller (loops w l)) fd = Some c \<Longrightarrow> ch_loop (chans w c) = l"
  using assms by (auto simp: reactor_inv_def)

lemma poller_inv_other_channels:
  assumes "poller_inv (p, chs)"
    and "\<And>fd c. channelMap p fd = Some c \<Longrightarrow>
      ch_fd (chs' c) = ch_fd (chs c) \<and> ch_index (chs' c) = ch_index (chs c)"
  shows "poller_inv (p, chs')"
proof (rule poller_invI)
  fix fd c assume c: "channelMap p fd = Some c"
  with poller_invD [OF assms(1) c] assms(2) [OF c] show "0 \<le> fd \<and> ch_fd (chs' c) = fd
     \<and> 0 \<le> ch_index (chs' c) \<and> ch_index (chs' c) < int (length (pollfds p))
     \<and> (pfd_fd (pollfds p ! nat (ch_index (chs' c))) = fd
        \<or> pfd_fd (pollfds p ! nat (ch_index (chs' c))) = hidden_fd fd)" by simp
next
  fix i assume "i < length (pollfds p)"
  from poller_inv_covers [OF assms(1) this] assms(2)
  show "\<exists>fd c. channelMap p fd = Some c \<and> ch_index (chs' c) = int i" by metis
qed

text \<open>A step of one loop's poller that changes only positions of the loop's own channels keeps
  the agreement of all loops.\<close>

lemma reactor_inv_step:
  assumes inv: "reactor_inv w"
    and p: "poller_inv (p', chs')" "ownerLoop p' = l"
    and own: "\<And>fd c. channelMap p' fd = Some c \<Longrightarrow> ch_loop (chs' c) = l"
    and frame: "\<And>c. ch_loop (chs' c) = ch_loop (chans w c)"
      "\<And>c. ch_loop (chans w c) \<noteq> l \<Longrightarrow>
         ch_fd (chs' c) = ch_fd (chans w c) \<and> ch_index (chs' c) = ch_index (chans w c)"
    and w': "loop_poller (loops w' l) = p'" "\<And>k. k \<noteq> l \<Longrightarrow> loop_poller (loops w' k) = loop_poller (loops w k)"
      "chans w' = chs'"
  shows "reactor_inv w'"
  unfolding reactor_inv_def
proof
  fix k
  show "poller_inv (loop_poller (loops w' k), chans w') \<and> ownerLoop (loop_poller (loops w' k)) = k
     \<and> (\<forall>fd c. channelMap (loop_poller (loops w' k)) fd = Some c \<longrightarrow> ch_loop (chans w' c) = k)"
  proof (cases "k = l")
    case True
    then show ?thesis using p own w' by auto
  next
    case False
    have "poller_inv (loop_poller (loops w k), chs')"
    proof (rule poller_inv_other_channels [OF reactor_invD(1) [OF inv]])
      fix fd c assume "channelMap (loop_poller (loops w k)) fd = Some c"
      with reactor_invD(3) [OF inv] False have "ch_loop (chans w c) \<noteq> l" by auto
      then show "ch_fd (chs' c) = ch_fd (chans w c) \<and> ch_index (chs' c) = ch_index (chans w c)"
        by (rule frame(2))
    qed
    then show ?thesis using False w' reactor_invD(2,3) [OF inv, of k] by (simp add: frame(1))
  qed
qed

text \<open>What keeps the pollers and the links of the channels keeps the agreement.\<close>

lemma reactor_inv_same:
  assumes "reactor_inv w" "\<And>l. loop_poller (loops w' l) = loop_poller (loops w l)"
    "\<And>c. ch_fd (chans w' c) = ch_fd (chans w c)" "\<And>c. ch_index (chans w' c) = ch_index (chans w c)"
    "\<And>c. ch_loop (chans w' c) = ch_loop (chans w c)"
  shows "reactor_inv w'"
  using assms(1) same_links_inv(1) [of "loop_poller (loops w l)" "chans w" "chans w'" for l] assms(2-)
  by (simp add: reactor_inv_def)

lemma reactor_inv_set_chan:
  assumes "reactor_inv w" "\<And>ch. ch_fd (g ch) = ch_fd ch" "\<And>ch. ch_index (g ch) = ch_index ch"
    "\<And>ch. ch_loop (g ch) = ch_loop ch"
  shows "reactor_inv (set_chan c g w)"
  by (rule reactor_inv_same [OF assms(1)]) (simp_all add: assms(2-))

lemma reactor_inv_set_loop:
  assumes "reactor_inv w" "\<And>el. loop_poller (f el) = loop_poller el"
  shows "reactor_inv (set_loop l f w)"
  by (rule reactor_inv_same [OF assms(1)]) (simp_all add: assms(2))

text \<open>A new channel takes the place of one that no poller knows.\<close>

definition fresh_channel :: "nat \<Rightarrow> 'a reactor_scheme \<Rightarrow> bool" where
  "fresh_channel c w \<longleftrightarrow> (\<forall>l fd. channelMap (loop_poller (loops w l)) fd \<noteq> Some c)"

lemma reactor_inv_new_channel:
  assumes inv: "reactor_inv w" and fresh: "fresh_channel c w"
    and w': "loops w' = loops w" "chans w' = (chans w)(c := ch)"
  shows "reactor_inv w'"
  unfolding reactor_inv_def
proof
  fix l
  have ne: "d \<noteq> c" if "channelMap (loop_poller (loops w l)) fd = Some d" for fd d
    using fresh that by (auto simp: fresh_channel_def)
  have "poller_inv (loop_poller (loops w l), (chans w)(c := ch))"
    by (rule poller_inv_other_channels [OF reactor_invD(1) [OF inv]]) (use ne in auto)
  then show "poller_inv (loop_poller (loops w' l), chans w') \<and> ownerLoop (loop_poller (loops w' l)) = l
     \<and> (\<forall>fd d. channelMap (loop_poller (loops w' l)) fd = Some d \<longrightarrow> ch_loop (chans w' d) = l)"
    using ne reactor_invD(2,3) [OF inv, of l] by (auto simp: w')
qed

section \<open>Registration through the loop\<close>

definition own_poller :: "nat \<Rightarrow> 'a reactor_scheme \<Rightarrow> poller \<times> channel_store" where
  "own_poller c w = (loop_poller (loops w (ch_loop (chans w c))), chans w)"

definition may_update :: "nat \<Rightarrow> 'a reactor_scheme \<Rightarrow> bool" where
  "may_update c w \<longleftrightarrow> isInLoopThread (ch_loop (chans w c)) w
     \<and> (joinable c (own_poller c w) \<or> enrolled c (own_poller c w))"

lemma update_frame_store:
  assumes "poller_inv (p, chs)" "joinable c (p, chs) \<or> enrolled c (p, chs)"
  shows "\<exists>p' i. Poller_updateChannel True c (p, chs) = Inr (p', chs(c := (chs c)\<lparr>ch_index := i\<rparr>))
     \<and> poller_inv (p', chs(c := (chs c)\<lparr>ch_index := i\<rparr>)) \<and> ownerLoop p' = ownerLoop p
     \<and> channelMap p' = (channelMap p)(ch_fd (chs c) \<mapsto> c)"
  using assms(2)
proof
  assume "joinable c (p, chs)"
  from update_new [OF assms(1) this] show ?thesis by blast
next
  assume mem: "enrolled c (p, chs)"
  have "chs(c := (chs c)\<lparr>ch_index := ch_index (chs c)\<rparr>) = chs" by simp
  moreover have "(channelMap p)(ch_fd (chs c) \<mapsto> c) = channelMap p"
    using mem by (auto simp: enrolled_def)
  ultimately show ?thesis using update_old [OF assms(1) mem] by metis
qed

text \<open>The state after an operation on channel \<open>c\<close> that left the poller \<open>p\<close> and the position \<open>i\<close>.\<close>

definition entered :: "nat \<Rightarrow> poller \<Rightarrow> int \<Rightarrow> 'a reactor_scheme \<Rightarrow> 'a reactor_scheme" where
  "entered c p i w =
     set_chan c (ch_index_update (\<lambda>_. i)) (set_loop (ch_loop (chans w c)) (loop_poller_update (\<lambda>_. p)) w)"

lemma Channel_update_entered:
  assumes inv: "reactor_inv w" and may: "may_update c w"
  shows "\<exists>p i. Channel_update c w = Inr (entered c p i w) \<and> reactor_inv (entered c p i w)
     \<and> may_update c (entered c p i w) \<and> enrolled c (own_poller c (entered c p i w))"
proof -
  let ?l = "ch_loop (chans w c)"
  let ?p = "loop_poller (loops w ?l)"
  have pre: "poller_inv (?p, chans w)" "joinable c (?p, chans w) \<or> enrolled c (?p, chans w)"
    using reactor_invD(1) [OF inv] may by (auto simp: may_update_def own_poller_def)
  from update_frame_store [OF pre] obtain p i where
    run: "Poller_updateChannel True c (?p, chans w) = Inr (p, (chans w)(c := (chans w c)\<lparr>ch_index := i\<rparr>))"
    and p: "poller_inv (p, (chans w)(c := (chans w c)\<lparr>ch_index := i\<rparr>))" "ownerLoop p = ownerLoop ?p"
      "channelMap p = (channelMap ?p)(ch_fd (chans w c) \<mapsto> c)" by blast
  let ?w = "entered c p i w"
  have w': "loop_poller (loops ?w ?l) = p" "chans ?w = (chans w)(c := (chans w c)\<lparr>ch_index := i\<rparr>)"
    "\<And>k. k \<noteq> ?l \<Longrightarrow> loop_poller (loops ?w k) = loop_poller (loops w k)"
    by (simp_all add: entered_def)
  have il: "isInLoopThread ?l w" using may by (simp add: may_update_def)
  have "Channel_update c w = Inr ?w"
    using run il reactor_invD(2) [OF inv, of ?l]
    by (simp add: Channel_update_def EventLoop_updateChannel_def with_poller_def entered_def
        set_chan_def set_loop_def)
  moreover have "reactor_inv ?w"
  proof (rule reactor_inv_step [OF inv p(1), of ?l])
    show "ownerLoop p = ?l" using p(2) reactor_invD(2) [OF inv] by simp
    show "ch_loop (((chans w)(c := (chans w c)\<lparr>ch_index := i\<rparr>)) d) = ?l"
      if "channelMap p fd = Some d" for fd d
      using that p(3) reactor_invD(3) [OF inv, of ?l fd d] by (auto split: if_splits)
  qed (use w' in \<open>auto\<close>)
  moreover have "enrolled c (own_poller c ?w)"
    using w' p(3) by (simp add: own_poller_def enrolled_def)
  moreover from this have "may_update c ?w"
    using il by (simp add: may_update_def entered_def)
  ultimately show ?thesis by blast
qed

lemma may_update_mask:
  "may_update c w \<Longrightarrow> may_update c (set_chan c (apply_mask m) w)"
  by (auto simp: may_update_def own_poller_def joinable_def enrolled_def)

lemmas channel_ops = Channel_enableReading_def Channel_enableWriting_def
  Channel_disableWriting_def Channel_disableAll_def

lemma channel_ops_mask:
  "Channel_enableReading c w = Channel_update c (set_chan c (apply_mask EnableReading) w)"
  "Channel_enableWriting c w = Channel_update c (set_chan c (apply_mask EnableWriting) w)"
  "Channel_disableWriting c w = Channel_update c (set_chan c (apply_mask DisableWriting) w)"
  "Channel_disableAll c w = Channel_update c (set_chan c (apply_mask DisableAll) w)"
  by (simp_all add: channel_ops set_chan_def)

text \<open>Every mask operation on a channel of the current thread's loop returns and keeps the
  agreement; beside the channel's mask it changes the position and the loop's poller only.\<close>

lemma Channel_mask_entered:
  assumes inv: "reactor_inv w" and may: "may_update c w"
  shows "\<exists>p i. Channel_update c (set_chan c (apply_mask m) w)
       = Inr (entered c p i (set_chan c (apply_mask m) w))
     \<and> reactor_inv (entered c p i (set_chan c (apply_mask m) w))
     \<and> may_update c (entered c p i (set_chan c (apply_mask m) w))
     \<and> enrolled c (own_poller c (entered c p i (set_chan c (apply_mask m) w)))"
  by (rule Channel_update_entered [OF reactor_inv_set_chan [OF inv] may_update_mask [OF may]]) simp_all

lemma entered_simps [simp]:
  "chans (entered c p i w) = (chans w)(c := (chans w c)\<lparr>ch_index := i\<rparr>)"
  "cur_thread (entered c p i w) = cur_thread w" "os (entered c p i w) = os w"
  "calls (entered c p i w) = calls w" "t_loop (entered c p i w) = t_loop w"
  "isInLoopThread l (entered c p i w) = isInLoopThread l w"
  "threadId (loops (entered c p i w) l) = threadId (loops w l)"
  "pendingFunctors (loops (entered c p i w) l) = pendingFunctors (loops w l)"
  "callingPendingFunctors (loops (entered c p i w) l) = callingPendingFunctors (loops w l)"
  "wakeupFd (loops (entered c p i w) l) = wakeupFd (loops w l)"
  by (simp_all add: entered_def)

lemma remove_frame:
  assumes "Poller_removeChannel True c (p, chs) = Inr (p', chs')"
    and "\<And>fd. channelMap p fd \<noteq> Some d"
  shows "chs' d = chs d"
  using assms by (auto simp: Poller_removeChannel_def Let_def result_simps split: if_splits option.splits)

definition may_remove :: "nat \<Rightarrow> 'a reactor_scheme \<Rightarrow> bool" where
  "may_remove c w \<longleftrightarrow> isInLoopThread (ch_loop (chans w c)) w \<and> retirable c (own_poller c w)"

lemma removeChannel_reactor:
  assumes inv: "reactor_inv w" and may: "may_remove c w"
  shows "\<exists>w'. EventLoop_removeChannel (ch_loop (chans w c)) c w = Inr w' \<and> reactor_inv w'
     \<and> (\<forall>d. \<exists>i. chans w' d = (chans w d)\<lparr>ch_index := i\<rparr>)
     \<and> channelMap (loop_poller (loops w' (ch_loop (chans w c)))) (ch_fd (chans w c)) = None"
proof -
  let ?l = "ch_loop (chans w c)"
  let ?p = "loop_poller (loops w ?l)"
  have pre: "poller_inv (?p, chans w)" "retirable c (?p, chans w)"
    using reactor_invD(1) [OF inv] may by (auto simp: may_remove_def own_poller_def)
  from remove_channel [OF pre] obtain p chs where
    run: "Poller_removeChannel True c (?p, chans w) = Inr (p, chs)"
    and p: "poller_inv (p, chs)" "channelMap p = (channelMap ?p)(ch_fd (chans w c) := None)"
      "ownerLoop p = ownerLoop ?p"
    and frame: "\<forall>d. \<exists>i. chs d = (chans w d)\<lparr>ch_index := i\<rparr>" by blast
  let ?w = "(set_loop ?l (loop_poller_update (\<lambda>_. p)) w)\<lparr>chans := chs\<rparr>"
  have fr: "ch_loop (chs d) = ch_loop (chans w d)" "ch_fd (chs d) = ch_fd (chans w d)" for d
    using frame [rule_format, of d] by auto
  have "EventLoop_removeChannel ?l c w = Inr ?w"
    using run may reactor_invD(2) [OF inv, of ?l]
    by (simp add: EventLoop_removeChannel_def with_poller_def may_remove_def)
  moreover have "reactor_inv ?w"
  proof (rule reactor_inv_step [OF inv p(1), of ?l])
    show "ownerLoop p = ?l" using p(3) reactor_invD(2) [OF inv] by simp
    show "ch_loop (chs d) = ?l" if "channelMap p fd = Some d" for fd d
      using that p(2) fr reactor_invD(3) [OF inv, of ?l fd d] by (auto split: if_splits)
    show "ch_fd (chs d) = ch_fd (chans w d) \<and> ch_index (chs d) = ch_index (chans w d)"
      if "ch_loop (chans w d) \<noteq> ?l" for d
    proof -
      have "chs d = chans w d"
        using remove_frame [OF run] reactor_invD(3) [OF inv, of ?l _ d] that by blast
      then show ?thesis by simp
    qed
  qed (auto simp: fr)
  ultimately show ?thesis using frame p(2) by auto
qed

section \<open>Dispatch of an event\<close>

text \<open>The part of a channel its dispatch reads.\<close>

definition routing :: "channel \<Rightarrow> 32 word \<times> callback option \<times> callback option
    \<times> callback option \<times> callback option" where
  "routing ch = (ch_revents ch, ch_closeCallback ch, ch_errorCallback ch,
                 ch_readCallback ch, ch_writeCallback ch)"

lemma routing_determines:
  assumes "routing ch = routing ch'"
  shows "is_closing ch = is_closing ch'" "is_error ch = is_error ch'"
    "is_readable ch = is_readable ch'" "is_writable ch = is_writable ch'"
    "ch_closeCallback ch = ch_closeCallback ch'" "ch_errorCallback ch = ch_errorCallback ch'"
    "ch_readCallback ch = ch_readCallback ch'" "ch_writeCallback ch = ch_writeCallback ch'"
  using assms by (simp_all add: routing_def is_closing_def is_error_def is_readable_def is_writable_def)

definition keeps_routing ::
  "(callback \<Rightarrow> timestamp \<Rightarrow> 'a reactor_scheme \<Rightarrow> 'a reactor_scheme result) \<Rightarrow> nat \<Rightarrow> bool" where
  "keeps_routing call c \<longleftrightarrow> (\<forall>cb t w w'. call cb t w = Inr w' \<longrightarrow>
     routing (chans w' c) = routing (chans w c))"

definition due_callback :: "bool \<Rightarrow> callback option \<Rightarrow> callback list" where
  "due_callback due cb = (if due then (case cb of None \<Rightarrow> [] | Some f \<Rightarrow> [f]) else [])"

lemma dispatch_due:
  "dispatch ch = due_callback (is_closing ch) (ch_closeCallback ch)
     @ due_callback (is_error ch) (ch_errorCallback ch)
     @ due_callback (is_readable ch) (ch_readCallback ch)
     @ due_callback (is_writable ch) (ch_writeCallback ch)"
  by (auto simp: dispatch_def due_callback_def List.map_filter_def split: option.splits)

lemma call_if_run:
  "call_if call c due cb_of t w =
     run_all (\<lambda>cb. call cb t) (due_callback (due (chans w c)) (cb_of (chans w c))) w"
  by (auto simp: call_if_def due_callback_def bindE_def split: option.splits sum.splits)

lemma call_if_routing:
  assumes "keeps_routing call c" "call_if call c due cb_of t w = Inr w'"
  shows "routing (chans w' c) = routing (chans w c)"
  using assms by (auto simp: call_if_def keeps_routing_def split: if_splits option.splits)

lemma call_if_step:
  assumes keep: "keeps_routing call c" and r: "routing (chans v c) = routing (chans w c)"
    and due: "\<And>ch ch'. routing ch = routing ch' \<Longrightarrow> due ch = due ch'"
    and cb: "\<And>ch ch'. routing ch = routing ch' \<Longrightarrow> cb_of ch = cb_of ch'"
    and cont: "\<And>v'. routing (chans v' c) = routing (chans w c) \<Longrightarrow> k v' = k' v'"
  shows "bindE (call_if call c due cb_of t v) k =
     bindE (run_all (\<lambda>cb. call cb t) (due_callback (due (chans w c)) (cb_of (chans w c))) v) k'"
proof (cases "call_if call c due cb_of t v")
  case (Inl e)
  then show ?thesis using due [OF r] cb [OF r] by (simp add: call_if_run)
next
  case (Inr v')
  with call_if_routing [OF keep this] r cont show ?thesis
    using due [OF r] cb [OF r] by (simp add: call_if_run)
qed

lemma handleEvent_as_dispatch:
  assumes keep: "keeps_routing call c"
  shows "Channel_handleEvent call t c w =
     bindE (run_all (\<lambda>cb. call cb t) (dispatch (chans w c))
              (set_chan c (ch_eventHandling_update (\<lambda>_. True)) w))
       (\<lambda>w. Inr (set_chan c (ch_eventHandling_update (\<lambda>_. False)) w))"
  unfolding Channel_handleEvent_def dispatch_due run_all_append bindE_assoc
  by (intro call_if_step keep routing_determines refl) (simp_all add: routing_def)

section \<open>Polling\<close>

lemma ready_channels_enrolled:
  assumes inv: "poller_inv (p, chs)" and pos: "\<forall>pfd \<in> set (pollfds p). sint (pfd_revents pfd) > 0 \<longrightarrow> 0 \<le> pfd_fd pfd"
    and c: "c \<in> set (ready_channels (channelMap p) (pollfds p))"
  shows "enrolled c (p, chs)"
proof -
  from c obtain pfd where pfd: "pfd \<in> set (pollfds p)" "sint (pfd_revents pfd) > 0"
    "c = the (channelMap p (pfd_fd pfd))" by (auto simp: ready_channels_def)
  with pos have "0 \<le> pfd_fd pfd" by blast
  from poller_inv_entry [OF inv pfd(1) this] pfd(3) show ?thesis by (auto simp: enrolled_def)
qed

text \<open>A \<open>poll\<close> of a loop that the kernel answers as documented returns, keeps the agreement, and
  makes active only registered channels of this loop.\<close>

lemma loop_poll_returns:
  assumes inv: "reactor_inv w"
    and ok: "poll_answer_ok (loop_poller (loops w l), chans w) kPollTimeMs w"
  shows "\<exists>w'. loop_poll l w = Inr w' \<and> reactor_inv w'
     \<and> (\<forall>c \<in> set (activeChannels (loops w' l)). ch_loop (chans w' c) = l
          \<and> enrolled c (loop_poller (loops w' l), chans w'))
     \<and> (\<forall>c. \<exists>r. chans w' c = (chans w c)\<lparr>ch_revents := r\<rparr>)"
proof -
  let ?w = "set_loop l (activeChannels_update (\<lambda>_. [])) w"
  let ?p = "loop_poller (loops w l)"
  let ?fds = "store_revents (ready (os w (length (calls w)))) (pollfds ?p)"
  have ok': "poll_answer_ok (?p, chans w) kPollTimeMs ?w" using ok by (simp add: poll_answer_ok_def)
  from Poller_poll_returns [OF reactor_invD(1) [OF inv] ok' refl] obtain t chs v where
    run: "Poller_poll kPollTimeMs [] (?p, chans w) ?w =
      Inr (t, ready_channels (channelMap ?p) ?fds, (?p\<lparr>pollfds := ?fds\<rparr>, chs), v)"
    and pinv: "poller_inv (?p\<lparr>pollfds := ?fds\<rparr>, chs)"
    and same: "\<forall>c. \<exists>r. chs c = (chans w c)\<lparr>ch_revents := r\<rparr>"
    and pos: "\<forall>pfd \<in> set ?fds. sint (pfd_revents pfd) > 0 \<longrightarrow> 0 \<le> pfd_fd pfd"
    by auto
  have v: "loops v = loops ?w"
    using run by (auto simp: Poller_poll_def do_call_def Let_def result_simps split: if_splits)
  let ?w' = "(set_loop l (\<lambda>el. el\<lparr>pollReturnTime := t,
       activeChannels := ready_channels (channelMap ?p) ?fds, loop_poller := ?p\<lparr>pollfds := ?fds\<rparr>\<rparr>) v)\<lparr>chans := chs\<rparr>"
  have fr: "ch_loop (chs d) = ch_loop (chans w d)" "ch_fd (chs d) = ch_fd (chans w d)"
    "ch_index (chs d) = ch_index (chans w d)" for d
    using same [rule_format, of d] by auto
  have "loop_poll l w = Inr ?w'" using run by (simp add: loop_poll_def)
  moreover have "reactor_inv ?w'"
  proof (rule reactor_inv_step [OF inv pinv, of l])
    show "ownerLoop (?p\<lparr>pollfds := ?fds\<rparr>) = l" using reactor_invD(2) [OF inv] by simp
    show "ch_loop (chs c) = l" if "channelMap (?p\<lparr>pollfds := ?fds\<rparr>) fd = Some c" for fd c
      using that fr reactor_invD(3) [OF inv] by simp
  qed (simp_all add: fr v)
  moreover have "enrolled c (?p\<lparr>pollfds := ?fds\<rparr>, chs)" "ch_loop (chs c) = l"
    if c: "c \<in> set (ready_channels (channelMap ?p) ?fds)" for c
  proof -
    show en: "enrolled c (?p\<lparr>pollfds := ?fds\<rparr>, chs)"
      by (rule ready_channels_enrolled [OF pinv]) (use pos c in simp_all)
    then show "ch_loop (chs c) = l"
      using reactor_invD(3) [OF inv, of l "ch_fd (chs c)" c] fr by (simp add: enrolled_def)
  qed
  ultimately show ?thesis using same by auto
qed

section \<open>Queued functors\<close>

text \<open>The eventfd takes every wake-up.\<close>

definition wakeups_ok :: "'a reactor_scheme \<Rightarrow> bool" where
  "wakeups_ok w \<longleftrightarrow> (\<forall>n. ret (os w n) = 8)"

lemma queueInLoop_calling:
  assumes "wakeups_ok w" "callingPendingFunctors (loops w l)"
  shows "\<exists>w'. run_all (queueInLoop l) fs w = Inr w' \<and> wakeups_ok w'
    \<and> loops w' = (loops w)(l := (loops w l)\<lparr>pendingFunctors := pendingFunctors (loops w l) @ fs\<rparr>)
    \<and> map fst (calls w') = map fst (calls w) @ replicate (length fs) (SysWrite (wakeupFd (loops w l)) one_bytes)"
  using assms
proof (induction fs arbitrary: w)
  case (Cons f fs)
  let ?v = "(set_loop l (pendingFunctors_update (\<lambda>fs. fs @ [f])) w)"
  let ?v' = "?v\<lparr>calls := calls w @ [(SysWrite (wakeupFd (loops w l)) one_bytes, os w (length (calls w)))]\<rparr>"
  have q: "queueInLoop l f w = Inr ?v'"
    using Cons.prems by (simp add: queueInLoop_def wakeup_def do_call_def wakeups_ok_def Let_def)
  have "wakeups_ok ?v'" "callingPendingFunctors (loops ?v' l)"
    using Cons.prems by (simp_all add: wakeups_ok_def)
  from Cons.IH [OF this] obtain w' where
    w': "run_all (queueInLoop l) fs ?v' = Inr w'" "wakeups_ok w'"
    "loops w' = (loops ?v')(l := (loops ?v' l)\<lparr>pendingFunctors := pendingFunctors (loops ?v' l) @ fs\<rparr>)"
    "map fst (calls w') = map fst (calls ?v')
       @ replicate (length fs) (SysWrite (wakeupFd (loops ?v' l)) one_bytes)" by blast
  then have "loops w' = (loops w)(l := (loops w l)\<lparr>pendingFunctors := pendingFunctors (loops w l) @ f # fs\<rparr>)"
    by (simp add: fun_eq_iff)
  with w' q show ?case by auto
qed simp

text \<open>Functors that do nothing but queue further functors.\<close>

definition exec_spawn :: "nat \<Rightarrow> (task \<Rightarrow> task list) \<Rightarrow> task \<Rightarrow> 'a reactor_scheme \<Rightarrow> 'a reactor_scheme result" where
  "exec_spawn l spawn f = run_all (queueInLoop l) (spawn f)"

section \<open>Leaving the loop\<close>

primrec turns ::
  "(callback \<Rightarrow> timestamp \<Rightarrow> 'a reactor_scheme \<Rightarrow> 'a reactor_scheme result)
    \<Rightarrow> (task \<Rightarrow> 'a reactor_scheme \<Rightarrow> 'a reactor_scheme result)
    \<Rightarrow> nat \<Rightarrow> nat \<Rightarrow> 'a reactor_scheme \<Rightarrow> 'a reactor_scheme result" where
  "turns call exec l 0 w = Inr w"
| "turns call exec l (Suc n) w = bindE (loop_turn call exec l w) (turns call exec l n)"

definition leaves_after ::
  "(callback \<Rightarrow> timestamp \<Rightarrow> 'a reactor_scheme \<Rightarrow> 'a reactor_scheme result)
    \<Rightarrow> (task \<Rightarrow> 'a reactor_scheme \<Rightarrow> 'a reactor_scheme result)
    \<Rightarrow> nat \<Rightarrow> nat \<Rightarrow> 'a reactor_scheme \<Rightarrow> 'a reactor_scheme \<Rightarrow> bool" where
  "leaves_after call exec l n w w' \<longleftrightarrow> turns call exec l n w = Inr w' \<and> quit (loops w' l)
     \<and> (\<forall>m < n. \<forall>v. turns call exec l m w = Inr v \<longrightarrow> \<not> quit (loops v l))"

lemma leaves_after_0: "leaves_after call exec l 0 w w' \<longleftrightarrow> w' = w \<and> quit (loops w l)"
  by (auto simp: leaves_after_def)

lemma leaves_after_Suc:
  "leaves_after call exec l (Suc n) w w' \<longleftrightarrow> \<not> quit (loops w l)
     \<and> (\<exists>v. loop_turn call exec l w = Inr v \<and> leaves_after call exec l n v w')"
proof -
  have all: "(\<forall>m < Suc n. P m) \<longleftrightarrow> P 0 \<and> (\<forall>m < n. P (Suc m))" for P
    by (auto simp: less_Suc_eq_0_disj)
  show ?thesis unfolding leaves_after_def all by (auto simp: result_simps)
qed

lemma loop_while_leaves:
  "leaves_after call exec l n w w' \<Longrightarrow> loop_while call exec l w = Some (Inr w')"
proof (induction n arbitrary: w)
  case 0
  then show ?case by (simp add: leaves_after_0 loop_while.simps)
next
  case (Suc n)
  then obtain v where "\<not> quit (loops w l)" "loop_turn call exec l w = Inr v"
    "leaves_after call exec l n v w'" by (auto simp: leaves_after_Suc)
  with Suc.IH show ?case by (simp add: loop_while.simps [of call exec l w])
qed

lemma loop_while_only:
  assumes "loop_while call exec l w = Some (Inr w')"
  shows "\<exists>n. leaves_after call exec l n w w'"
proof -
  have "\<forall>w'. r = Inr w' \<longrightarrow> (\<exists>n. leaves_after call exec l n w w')"
    if "loop_while call exec l w = Some r" for r
  proof (rule loop_while.raw_induct [OF _ that], intro allI impI)
    fix f call exec l w r w'
    assume IH: "\<And>exec l w b y. f exec l w b = Some y \<Longrightarrow>
        \<forall>w'. y = Inr w' \<longrightarrow> (\<exists>n. leaves_after exec l w n b w')"
      and run: "(if quit (loops w l) then Some (Inr w)
        else case loop_turn call exec l w of Inl e \<Rightarrow> Some (Inl e) | Inr w' \<Rightarrow> f call exec l w') = Some r"
      and r: "r = Inr w'"
    show "\<exists>n. leaves_after call exec l n w w'"
    proof (cases "quit (loops w l)")
      case True
      with run r have "leaves_after call exec l 0 w w'" by (simp add: leaves_after_0)
      then show ?thesis by blast
    next
      case False
      with run r obtain v where v: "loop_turn call exec l w = Inr v" "f call exec l v = Some r"
        by (auto split: sum.splits)
      from IH [OF v(2)] r obtain n where "leaves_after call exec l n v w'" by blast
      with False v(1) have "leaves_after call exec l (Suc n) w w'" by (simp add: leaves_after_Suc)
      then show ?thesis by blast
    qed
  qed
  with assms show ?thesis by blast
qed

fun Channel_op :: "mask_op \<Rightarrow> nat \<Rightarrow> 'a reactor_scheme \<Rightarrow> 'a reactor_scheme result" where
  "Channel_op EnableReading = Channel_enableReading"
| "Channel_op EnableWriting = Channel_enableWriting"
| "Channel_op DisableWriting = Channel_disableWriting"
| "Channel_op DisableAll = Channel_disableAll"

lemma Channel_op_mask: "Channel_op m c w = Channel_update c (set_chan c (apply_mask m) w)"
  by (cases m) (simp_all add: channel_ops_mask)

lemma Channel_op_entered:
  assumes "reactor_inv w" "may_update c w"
  shows "\<exists>p i. Channel_op m c w = Inr (entered c p i (set_chan c (apply_mask m) w))
     \<and> reactor_inv (entered c p i (set_chan c (apply_mask m) w))
     \<and> may_update c (entered c p i (set_chan c (apply_mask m) w))
     \<and> enrolled c (own_poller c (entered c p i (set_chan c (apply_mask m) w)))"
  unfolding Channel_op_mask by (rule Channel_mask_entered [OF assms])

lemma doPendingFunctors_spawn:
  assumes "wakeups_ok w"
  shows "\<exists>w'. doPendingFunctors (exec_spawn l spawn) l w = Inr w'
     \<and> pendingFunctors (loops w' l) = concat (map spawn (pendingFunctors (loops w l)))
     \<and> \<not> callingPendingFunctors (loops w' l)
     \<and> map fst (calls w') = map fst (calls w) @
         replicate (length (concat (map spawn (pendingFunctors (loops w l)))))
           (SysWrite (wakeupFd (loops w l)) one_bytes)"
proof -
  let ?fs = "pendingFunctors (loops w l)"
  let ?w = "set_loop l (pendingFunctors_update (\<lambda>_. [])) (set_loop l (callingPendingFunctors_update (\<lambda>_. True)) w)"
  have run: "run_all (exec_spawn l spawn) ?fs ?w = run_all (queueInLoop l) (concat (map spawn ?fs)) ?w"
    unfolding exec_spawn_def by (rule run_all_concat)
  have "wakeups_ok ?w" "callingPendingFunctors (loops ?w l)" using assms by (simp_all add: wakeups_ok_def)
  from queueInLoop_calling [OF this, of "concat (map spawn ?fs)"] run
  show ?thesis by (auto simp: doPendingFunctors_def Let_def)
qed

lemma ctor_own_poller:
  assumes eb: "reactor_inv w" and other: "\<And>k fd. k \<noteq> l \<Longrightarrow> channelMap (loop_poller (loops w k)) fd \<noteq> Some c"
    and el: "loop_poller el = Poller_ctor l"
  shows "reactor_inv (w\<lparr>loops := (loops w)(l := el), chans := (chans w)(c := ch)\<rparr>)"
  unfolding reactor_inv_def
proof
  fix k
  let ?w = "w\<lparr>loops := (loops w)(l := el), chans := (chans w)(c := ch)\<rparr>"
  show "poller_inv (loop_poller (loops ?w k), chans ?w) \<and> ownerLoop (loop_poller (loops ?w k)) = k
     \<and> (\<forall>fd c. channelMap (loop_poller (loops ?w k)) fd = Some c \<longrightarrow> ch_loop (chans ?w c) = k)"
  proof (cases "k = l")
    case True
    then show ?thesis using Poller_ctor_inv [of l] by (simp add: el) (simp add: Poller_ctor_def)
  next
    case False
    have ne: "d \<noteq> c" if "channelMap (loop_poller (loops w k)) fd = Some d" for fd d
      using other [OF False] that by blast
    have "poller_inv (loop_poller (loops w k), (chans w)(c := ch))"
      by (rule poller_inv_other_channels [OF reactor_invD(1) [OF eb]]) (use ne in auto)
    then show ?thesis using False ne reactor_invD(2,3) [OF eb, of k] by auto
  qed
qed

definition ctor_ok :: "nat \<Rightarrow> nat \<Rightarrow> 'a reactor_scheme \<Rightarrow> bool" where
  "ctor_ok l c w \<longleftrightarrow> 0 \<le> ret (os w (length (calls w))) \<and> t_loop w (cur_thread w) = None
     \<and> (\<forall>k fd. k \<noteq> l \<longrightarrow> channelMap (loop_poller (loops w k)) fd \<noteq> Some c)"

lemma EventLoop_ctor_returns:
  assumes inv: "reactor_inv w" and ok: "ctor_ok l c w"
  shows "\<exists>w'. EventLoop_ctor l c w = Inr w' \<and> reactor_inv w'
     \<and> isInLoopThread l w' \<and> t_loop w' (cur_thread w') = Some l
     \<and> wakeupChannel (loops w' l) = c \<and> enrolled c (own_poller c w') \<and> ch_loop (chans w' c) = l
     \<and> ch_fd (chans w' c) = wakeupFd (loops w' l) \<and> ch_events (chans w' c) = kReadEvent
     \<and> ch_readCallback (chans w' c) = Some (LoopHandleRead l)
     \<and> pendingFunctors (loops w' l) = [] \<and> \<not> quit (loops w' l)"
proof -
  let ?a = "os w (length (calls w))"
  let ?v = "w\<lparr>calls := calls w @ [(SysEventfd, ?a)]\<rparr>"
  let ?el = "\<lparr>looping = False, quit = False, callingPendingFunctors = False,
                   threadId = cur_thread w, loop_poller = Poller_ctor l,
                   pollReturnTime = Timestamp_default, wakeupFd = ret ?a, wakeupChannel = c,
                   activeChannels = [], pendingFunctors = []\<rparr>"
  let ?ch = "(Channel_ctor l (ret ?a))\<lparr>ch_readCallback := Some (LoopHandleRead l)\<rparr>"
  let ?w = "?v\<lparr>loops := (loops w)(l := ?el), t_loop := (t_loop w)(cur_thread w \<mapsto> l),
             chans := (chans w)(c := ?ch)\<rparr>"
  have run: "EventLoop_ctor l c w = Channel_op EnableReading c ?w"
    using ok by (simp add: EventLoop_ctor_def createEventfd_def ctor_ok_def do_call_def Let_def set_chan_def)
  have "reactor_inv (w\<lparr>loops := (loops w)(l := ?el), chans := (chans w)(c := ?ch)\<rparr>)"
    by (rule ctor_own_poller [OF inv]) (use ok in \<open>auto simp: ctor_ok_def\<close>)
  then have inv': "reactor_inv ?w" by (simp add: reactor_inv_def)
  have may: "may_update c ?w"
    using ok by (simp add: may_update_def isInLoopThread_def joinable_def own_poller_def
        Channel_ctor_def Poller_ctor_def ctor_ok_def)
  from Channel_op_entered [OF inv' may, of EnableReading] obtain p i where
    e: "Channel_op EnableReading c ?w = Inr (entered c p i (set_chan c (apply_mask EnableReading) ?w))"
    "reactor_inv (entered c p i (set_chan c (apply_mask EnableReading) ?w))"
    "enrolled c (own_poller c (entered c p i (set_chan c (apply_mask EnableReading) ?w)))" by blast
  show ?thesis
    unfolding run
    by (rule exI, rule conjI, rule e(1), intro conjI e)
      (simp_all add: isInLoopThread_def entered_def add_reading_def Channel_ctor_def)
qed

text \<open>What the construction of a loop leaves alone.\<close>

lemma EventLoop_ctor_frame:
  assumes "0 \<le> ret (os w (length (calls w)))" "t_loop w (cur_thread w) = None"
    and "EventLoop_ctor l c w = Inr w'"
  shows "os w' = os w" "cur_thread w' = cur_thread w" "t_loop w' = (t_loop w)(cur_thread w \<mapsto> l)"
    "channelMap (loop_poller (loops w' l)) = [ret (os w (length (calls w))) \<mapsto> c]"
    "threadId (loops w' l) = cur_thread w" "k \<noteq> l \<Longrightarrow> loops w' k = loops w k"
  using assms
  by (auto simp: EventLoop_ctor_def createEventfd_def do_call_def Let_def set_chan_def set_loop_def
      Channel_enableReading_def Channel_update_def EventLoop_updateChannel_def with_poller_def
      Poller_updateChannel_def Channel_ctor_def Poller_ctor_def isInLoopThread_def add_reading_def)

section \<open>Properties\<close>



text \<open>
  A \<open>poll\<close> of the loop that the kernel answers as documented passes every assertion of the
  poller, keeps the agreement, and makes active only channels that are registered with this loop.
\<close>

theorem loop_polls_own_channels:
  assumes "reactor_inv w"
    and "poll_answer_ok (loop_poller (loops w l), chans w) kPollTimeMs w"
  shows "\<exists>w'. loop_poll l w = Inr w' \<and> reactor_inv w'
     \<and> (\<forall>c \<in> set (activeChannels (loops w' l)). ch_loop (chans w' c) = l
          \<and> enrolled c (loop_poller (loops w' l), chans w'))"
  using loop_poll_returns [OF assms] by blast

text \<open>
  Functors queued by functors. When each queued functor queues further functors,
  \<open>doPendingFunctors\<close> still ends after the ones that were queued before it; what they queued is
  left for the next turn, in order, and the eventfd was written once for each, so that the next
  \<open>poll\<close> does not block.
\<close>

theorem functors_queue_for_next_turn:
  assumes "wakeups_ok w"
  shows "\<exists>w'. doPendingFunctors (exec_spawn l spawn) l w = Inr w'
     \<and> pendingFunctors (loops w' l) = concat (map spawn (pendingFunctors (loops w l)))
     \<and> \<not> callingPendingFunctors (loops w' l)
     \<and> map fst (calls w') = map fst (calls w) @
         replicate (length (concat (map spawn (pendingFunctors (loops w l)))))
           (SysWrite (wakeupFd (loops w l)) one_bytes)"
  by (rule doPendingFunctors_spawn [OF assms])

text \<open>
  C29. \<open>startLoop\<close> returns normally exactly when some turn of the loop ends with \<open>_quit\<close> set:
  it returns after the first such turn, with \<open>_looping\<close> cleared. Called in the right thread on a
  loop that is not running.
\<close>

theorem startLoop_returns_iff:
  assumes "\<not> looping (loops w l)" "isInLoopThread l w"
  shows "startLoop call exec l w = Some (Inr w') \<longleftrightarrow>
     (\<exists>n v. leaves_after call exec l n (set_loop l (\<lambda>el. el\<lparr>looping := True, quit := False\<rparr>) w) v
        \<and> w' = set_loop l (looping_update (\<lambda>_. False)) v)"
proof -
  let ?w = "set_loop l (\<lambda>el. el\<lparr>looping := True, quit := False\<rparr>) w"
  have "startLoop call exec l w = Some (Inr w') \<longleftrightarrow>
      (\<exists>v. loop_while call exec l ?w = Some (Inr v) \<and> w' = set_loop l (looping_update (\<lambda>_. False)) v)"
    using assms by (auto simp: startLoop_def result_simps bindE_def split: option.splits sum.splits)
  then show ?thesis using loop_while_leaves loop_while_only by blast
qed

text \<open>
  The constructor of an event loop, in a thread that has none, with an eventfd the kernel
  grants: it returns, the agreement of all pollers holds, the loop belongs to the current thread,
  and its wake-up channel is registered for reading with \<open>handleRead\<close> as its callback.
\<close>

theorem EventLoop_ctor_ready:
  assumes "reactor_inv w" "ctor_ok l c w"
  shows "\<exists>w'. EventLoop_ctor l c w = Inr w' \<and> reactor_inv w'
     \<and> isInLoopThread l w' \<and> t_loop w' (cur_thread w') = Some l
     \<and> wakeupChannel (loops w' l) = c \<and> enrolled c (own_poller c w')
     \<and> ch_events (chans w' c) = kReadEvent
     \<and> ch_readCallback (chans w' c) = Some (LoopHandleRead l)"
  using EventLoop_ctor_returns [OF assms] by blast

section \<open>Examples\<close>

definition idle_loop :: "nat \<Rightarrow> event_loop" where
  "idle_loop l = \<lparr>looping = False, quit = False, callingPendingFunctors = False, threadId = 0,
     loop_poller = Poller_ctor l, pollReturnTime = Timestamp_default, wakeupFd = 3,
     wakeupChannel = 0, activeChannels = [], pendingFunctors = []\<rparr>"

text \<open>A process of one thread before the construction of any loop; every call returns 8.\<close>

definition first_state :: reactor where
  "first_state = \<lparr>os = (\<lambda>n. returns 8), calls = [], cur_thread = 0,
     chans = (\<lambda>c. Channel_ctor 0 (int c + 8)), loops = idle_loop, t_loop = Map.empty\<rparr>"

lemma first_state_inv: "reactor_inv first_state"
  by (simp add: reactor_inv_def first_state_def idle_loop_def Poller_ctor_inv)
    (simp add: Poller_ctor_def)

lemma first_state_ctor_ok: "ctor_ok 0 0 first_state"
  by (simp add: ctor_ok_def first_state_def idle_loop_def Poller_ctor_def returns_def)

lemma first_state_may_update: "may_update 1 first_state"
  by (simp add: may_update_def isInLoopThread_def joinable_def own_poller_def first_state_def
      idle_loop_def Poller_ctor_def Channel_ctor_def)

theorem EventLoop_ctor_ready_witness:
  "\<exists>w'. EventLoop_ctor 0 0 first_state = Inr w' \<and> enrolled 0 (own_poller 0 w')"
  using EventLoop_ctor_ready [OF first_state_inv first_state_ctor_ok] by blast


text \<open>Callbacks that record their names in the queue of loop 0.\<close>

definition record_call :: "callback \<Rightarrow> timestamp \<Rightarrow> reactor \<Rightarrow> reactor result" where
  "record_call cb t w = Inr (set_loop 0 (pendingFunctors_update (\<lambda>fs. fs @
     [UserFunctor (case cb of ConnHandleClose _ \<Rightarrow> 1 | ConnHandleRead _ \<Rightarrow> 2 | _ \<Rightarrow> 3)])) w)"

definition event_state :: reactor where
  "event_state = first_state\<lparr>chans := (\<lambda>c. (Channel_ctor 0 8)\<lparr>ch_revents := POLLHUP OR POLLPRI,
     ch_closeCallback := Some (ConnHandleClose 0), ch_readCallback := Some (ConnHandleRead 0)\<rparr>)\<rparr>"


theorem loop_polls_own_channels_witness:
  "\<exists>w'. loop_poll 0 (first_state\<lparr>os := (\<lambda>n. returns 0)\<rparr>) = Inr w' \<and> reactor_inv w'"
proof -
  let ?w = "first_state\<lparr>os := (\<lambda>n. returns 0)\<rparr>"
  have "reactor_inv ?w" using first_state_inv by (simp add: reactor_inv_def)
  moreover have "poll_answer_ok (loop_poller (loops ?w 0), chans ?w) kPollTimeMs ?w"
    by (simp add: poll_answer_ok_def first_state_def idle_loop_def Poller_ctor_def returns_def)
  ultimately show ?thesis using loop_polls_own_channels [of ?w 0] by blast
qed

definition queue_state :: reactor where
  "queue_state = set_loop 0 (pendingFunctors_update (\<lambda>_. [UserFunctor 2, UserFunctor 0])) first_state"

definition example_spawn :: "task \<Rightarrow> task list" where
  "example_spawn f = (case f of UserFunctor n \<Rightarrow> replicate n (UserFunctor 1) | _ \<Rightarrow> [])"

theorem functors_queue_for_next_turn_witness:
  "\<exists>w'. doPendingFunctors (exec_spawn 0 example_spawn) 0 queue_state = Inr w'
     \<and> pendingFunctors (loops w' 0) = [UserFunctor 1, UserFunctor 1]
     \<and> length (calls w') = 2"
proof -
  have "wakeups_ok queue_state" by (simp add: wakeups_ok_def queue_state_def first_state_def returns_def)
  from functors_queue_for_next_turn [OF this, of 0 example_spawn] obtain w' where
    w': "doPendingFunctors (exec_spawn 0 example_spawn) 0 queue_state = Inr w'"
    "pendingFunctors (loops w' 0) = concat (map example_spawn (pendingFunctors (loops queue_state 0)))"
    "map fst (calls w') = map fst (calls queue_state) @
         replicate (length (concat (map example_spawn (pendingFunctors (loops queue_state 0)))))
           (SysWrite (wakeupFd (loops queue_state 0)) one_bytes)" by blast
  have "length (calls w') = length (map fst (calls w'))" by simp
  also have "\<dots> = 2" unfolding w'(3)
    by (simp add: queue_state_def first_state_def example_spawn_def)
  finally show ?thesis using w'(1,2)
    by (simp add: queue_state_def example_spawn_def numeral_2_eq_2)
qed

text \<open>A loop with one queued functor, which calls \<open>quitLoop\<close>: \<open>startLoop\<close> returns after one turn.\<close>

definition quitting_state :: reactor where
  "quitting_state = (set_loop 0 (pendingFunctors_update (\<lambda>_. [UserFunctor 0])) first_state)
     \<lparr>os := (\<lambda>n. returns 0)\<rparr>"

theorem startLoop_returns_iff_witness:
  "\<exists>w'. startLoop record_call (\<lambda>_. quitLoop 0) 0 quitting_state = Some (Inr w')
     \<and> \<not> looping (loops w' 0)"
proof -
  let ?w = "set_loop 0 (\<lambda>el. el\<lparr>looping := True, quit := False\<rparr>) quitting_state"
  have ok: "\<not> looping (loops quitting_state 0)" "isInLoopThread 0 quitting_state"
    by (simp_all add: quitting_state_def first_state_def idle_loop_def isInLoopThread_def)
  have "\<exists>v. loop_turn record_call (\<lambda>_. quitLoop 0) 0 ?w = Inr v \<and> quit (loops v 0)"
    by (simp add: quitting_state_def first_state_def idle_loop_def loop_turn_def loop_poll_def
        Poller_poll_def do_call_def Let_def returns_def doPendingFunctors_def quitLoop_def
        isInLoopThread_def Poller_ctor_def)
  then obtain v where "leaves_after record_call (\<lambda>_. quitLoop 0) 0 1 ?w v"
    by (auto simp: leaves_after_Suc leaves_after_0 quitting_state_def)
  with startLoop_returns_iff [OF ok, of record_call "\<lambda>_. quitLoop 0"]
  have "startLoop record_call (\<lambda>_. quitLoop 0) 0 quitting_state =
      Some (Inr (set_loop 0 (looping_update (\<lambda>_. False)) v))" by blast
  then show ?thesis by simp
qed

end
