(* ===== verification/LoopProtocol.thy ===== *)
theory LoopProtocol
  imports EventLoop
begin

text \<open>
  The protocol between the thread of an event loop and the other threads, as interleaved steps.
  \<open>EventLoop.thy\<close> runs each operation as a whole; here the operations that several threads
  perform at once (\<open>queueInLoop\<close>, \<open>quitLoop\<close>, the turn of the loop) are cut at the points where
  another thread can come in between: the push under the mutex, the write to the eventfd, the test of
  \<open>_quit\<close>, the return of \<open>poll\<close>, the read of the eventfd, the swap of the queue, the start of
  each functor. \<open>counter\<close> is the eventfd's counter; \<open>owes\<close> the number of other threads that
  have pushed or set \<open>_quit\<close> and not yet written to the eventfd; \<open>self_owes\<close> the same for the
  loop's own thread. \<open>pushed\<close> and \<open>executed\<close> record the history; \<open>early\<close> records that
  the loop's own thread queued a functor before it called \<open>startLoop\<close>.
\<close>

section \<open>The steps\<close>

datatype loop_pc =
    BeforeStart
  | AtTest
  | AtPoll
  | Handling bool
  | Swapping
  | Running "task list"
  | Exited

record protocol =
  pc :: loop_pc
  calling :: bool
  quitting :: bool
  pending :: "task list"
  counter :: nat
  self_owes :: bool
  owes :: nat
  pushed :: "task list"
  executed :: "task list"
  early :: bool

definition protocol_start :: "protocol \<Rightarrow> bool" where
  "protocol_start s \<longleftrightarrow> s = \<lparr>pc = BeforeStart, calling = False, quitting = False, pending = [],
     counter = 0, self_owes = False, owes = 0, pushed = [], executed = [], early = False\<rparr>"

text \<open>Where the loop's own thread runs callbacks or functors, or has not entered the loop yet.\<close>

fun runs_user_code :: "loop_pc \<Rightarrow> bool" where
  "runs_user_code BeforeStart = True"
| "runs_user_code (Handling b) = True"
| "runs_user_code (Running fs) = True"
| "runs_user_code _ = False"

text \<open>
  Steps of another thread: the push and the wake-up of \<open>queueInLoop\<close>, the flag of \<open>quitLoop\<close>.
\<close>

inductive other_step :: "protocol \<Rightarrow> protocol \<Rightarrow> bool" where
  other_push: "other_step s (s\<lparr>pending := pending s @ [f], owes := owes s + 1, pushed := pushed s @ [f]\<rparr>)"
| other_quit: "other_step s (s\<lparr>quitting := True, owes := owes s + 1\<rparr>)"
| other_wake: "0 < owes s \<Longrightarrow> other_step s (s\<lparr>counter := counter s + 1, owes := owes s - 1\<rparr>)"

text \<open>
  Steps of the loop's thread that the user's code causes: \<open>queueInLoop\<close> (which wakes up only
  while functors are run) and \<open>quitLoop\<close>.
\<close>

inductive own_step :: "protocol \<Rightarrow> protocol \<Rightarrow> bool" where
  own_push: "runs_user_code (pc s) \<Longrightarrow> \<not> self_owes s \<Longrightarrow>
     own_step s (s\<lparr>pending := pending s @ [f], pushed := pushed s @ [f], self_owes := calling s,
                   early := early s \<or> pc s = BeforeStart\<rparr>)"
| own_wake: "self_owes s \<Longrightarrow> own_step s (s\<lparr>counter := counter s + 1, self_owes := False\<rparr>)"
| own_quit: "runs_user_code (pc s) \<Longrightarrow> \<not> self_owes s \<Longrightarrow> own_step s (s\<lparr>quitting := True\<rparr>)"

text \<open>Steps of \<open>startLoop\<close> and \<open>doPendingFunctors\<close>. A \<open>poll\<close> that starts or continues while
  the counter is positive reports the eventfd; otherwise it may return for another descriptor
  or at its time limit.\<close>

inductive turn_step :: "protocol \<Rightarrow> protocol \<Rightarrow> bool" where
  enter: "pc s = BeforeStart \<Longrightarrow> \<not> self_owes s \<Longrightarrow> turn_step s (s\<lparr>pc := AtTest, quitting := False\<rparr>)"
| leave: "pc s = AtTest \<Longrightarrow> quitting s \<Longrightarrow> turn_step s (s\<lparr>pc := Exited\<rparr>)"
| go_on: "pc s = AtTest \<Longrightarrow> \<not> quitting s \<Longrightarrow> turn_step s (s\<lparr>pc := AtPoll\<rparr>)"
| poll_woken: "pc s = AtPoll \<Longrightarrow> 0 < counter s \<Longrightarrow> turn_step s (s\<lparr>pc := Handling True\<rparr>)"
| poll_other: "pc s = AtPoll \<Longrightarrow> counter s = 0 \<Longrightarrow> turn_step s (s\<lparr>pc := Handling False\<rparr>)"
| read_counter: "pc s = Handling True \<Longrightarrow> turn_step s (s\<lparr>pc := Handling False, counter := 0\<rparr>)"
| mark: "pc s = Handling False \<Longrightarrow> turn_step s (s\<lparr>pc := Swapping, calling := True\<rparr>)"
| swap: "pc s = Swapping \<Longrightarrow> turn_step s (s\<lparr>pc := Running (pending s), pending := [], early := False\<rparr>)"
| run_next: "pc s = Running (f # fs) \<Longrightarrow> \<not> self_owes s \<Longrightarrow>
     turn_step s (s\<lparr>pc := Running fs, executed := executed s @ [f]\<rparr>)"
| unmark: "pc s = Running [] \<Longrightarrow> \<not> self_owes s \<Longrightarrow> turn_step s (s\<lparr>pc := AtTest, calling := False\<rparr>)"

inductive protocol_step :: "protocol \<Rightarrow> protocol \<Rightarrow> bool" where
  by_other: "other_step s t \<Longrightarrow> protocol_step s t"
| by_own: "own_step s t \<Longrightarrow> protocol_step s t"
| by_turn: "turn_step s t \<Longrightarrow> protocol_step s t"

inductive_cases other_stepE: "other_step s t"
inductive_cases own_stepE: "own_step s t"
inductive_cases turn_stepE: "turn_step s t"
inductive_cases protocol_stepE: "protocol_step s t"

section \<open>The invariant\<close>

fun being_run :: "loop_pc \<Rightarrow> task list" where
  "being_run (Running fs) = fs"
| "being_run _ = []"

text \<open>The places from which the loop reaches the next \<open>poll\<close> without a swap in between.\<close>

fun bound_for_poll :: "loop_pc \<Rightarrow> bool" where
  "bound_for_poll AtTest = True"
| "bound_for_poll AtPoll = True"
| "bound_for_poll (Running fs) = True"
| "bound_for_poll _ = False"

definition wake_due :: "protocol \<Rightarrow> bool" where
  "wake_due s \<longleftrightarrow> 0 < counter s \<or> 0 < owes s \<or> self_owes s"

definition protocol_inv :: "protocol \<Rightarrow> bool" where
  "protocol_inv s \<longleftrightarrow>
     pushed s = executed s @ being_run (pc s) @ pending s
     \<and> (calling s \<longleftrightarrow> pc s = Swapping \<or> (\<exists>fs. pc s = Running fs))
     \<and> (self_owes s \<longrightarrow> (\<exists>fs. pc s = Running fs))
     \<and> (pc s = Handling True \<longrightarrow> 0 < counter s)
     \<and> (bound_for_poll (pc s) \<and> pending s \<noteq> [] \<longrightarrow> wake_due s \<or> early s)
     \<and> (pc s = AtPoll \<and> quitting s \<longrightarrow> wake_due s)
     \<and> (pc s = BeforeStart \<longrightarrow> executed s = [] \<and> (pending s \<noteq> [] \<longrightarrow> wake_due s \<or> early s))
     \<and> (early s \<longrightarrow> executed s = [] \<and> (\<forall>fs. pc s \<noteq> Running fs))"

lemma protocol_invD:
  assumes "protocol_inv s"
  shows "pushed s = executed s @ being_run (pc s) @ pending s"
    "calling s \<longleftrightarrow> pc s = Swapping \<or> (\<exists>fs. pc s = Running fs)"
    "self_owes s \<Longrightarrow> \<exists>fs. pc s = Running fs"
    "pc s = Handling True \<Longrightarrow> 0 < counter s"
    "bound_for_poll (pc s) \<Longrightarrow> pending s \<noteq> [] \<Longrightarrow> wake_due s \<or> early s"
    "pc s = AtPoll \<Longrightarrow> quitting s \<Longrightarrow> wake_due s"
    "pc s = BeforeStart \<Longrightarrow> executed s = []" "pc s = BeforeStart \<Longrightarrow> pending s \<noteq> [] \<Longrightarrow> wake_due s \<or> early s"
    "early s \<Longrightarrow> executed s = []" "early s \<Longrightarrow> pc s \<noteq> Running fs"
  using assms unfolding protocol_inv_def by blast+

lemma protocol_start_inv: "protocol_start s \<Longrightarrow> protocol_inv s"
  by (simp add: protocol_start_def protocol_inv_def)

lemma other_step_inv: "protocol_inv s \<Longrightarrow> other_step s t \<Longrightarrow> protocol_inv t"
  by (erule other_stepE) (auto simp: protocol_inv_def wake_due_def)

lemma own_push_inv:
  assumes inv: "protocol_inv s" and pc: "runs_user_code (pc s)" "\<not> self_owes s"
  shows "protocol_inv (s\<lparr>pending := pending s @ [f], pushed := pushed s @ [f], self_owes := calling s,
                   early := early s \<or> pc s = BeforeStart\<rparr>)"
proof (cases "pc s")
  case BeforeStart
  with protocol_invD [OF inv] show ?thesis by (simp add: protocol_inv_def wake_due_def)
next
  case (Handling b)
  with protocol_invD [OF inv] show ?thesis by (simp add: protocol_inv_def wake_due_def)
next
  case (Running fs)
  with protocol_invD [OF inv] show ?thesis by (simp add: protocol_inv_def wake_due_def)
qed (use pc in simp_all)

lemma own_step_inv:
  assumes "protocol_inv s" "own_step s t"
  shows "protocol_inv t"
  using assms(2)
proof cases
  case (own_push f)
  then show ?thesis using own_push_inv [OF assms(1)] by simp
next
  case own_wake
  then show ?thesis using assms(1) by (simp add: protocol_inv_def wake_due_def)
next
  case own_quit
  then have "pc s \<noteq> AtPoll" by auto
  with own_quit show ?thesis using assms(1) by (simp add: protocol_inv_def wake_due_def)
qed

lemma turn_step_inv:
  assumes "protocol_inv s" "turn_step s t"
  shows "protocol_inv t"
  using assms(2,1) by cases (auto simp: protocol_inv_def wake_due_def)

lemma protocol_step_inv: "protocol_inv s \<Longrightarrow> protocol_step s t \<Longrightarrow> protocol_inv t"
  by (erule protocol_stepE) (blast intro: other_step_inv own_step_inv turn_step_inv)+

interpretation protocol: invariant_system protocol_start protocol_step protocol_inv
  by unfold_locales (fact protocol_start_inv, fact protocol_step_inv)

section \<open>Progress\<close>

abbreviation reachable :: "protocol \<Rightarrow> bool" where
  "reachable \<equiv> reach protocol_start protocol_step"

lemma turns_reachable: "turn_step\<^sup>*\<^sup>* s t \<Longrightarrow> reachable s \<Longrightarrow> reachable t"
  by (induction rule: rtranclp_induct) (auto intro: reach_step by_turn)

text \<open>The loop's thread, left alone, runs the functors of its turn.\<close>

lemma run_functors:
  "pc s = Running fs \<Longrightarrow> \<not> self_owes s \<Longrightarrow>
     turn_step\<^sup>*\<^sup>* s (s\<lparr>pc := Running [], executed := executed s @ fs\<rparr>)"
proof (induction fs arbitrary: s)
  case Nil
  then have "s\<lparr>pc := Running [], executed := executed s @ []\<rparr> = s" by simp
  then show ?case by simp
next
  case (Cons f fs)
  let ?t = "s\<lparr>pc := Running fs, executed := executed s @ [f]\<rparr>"
  have "turn_step s ?t" by (rule run_next) (use Cons.prems in simp_all)
  moreover have "turn_step\<^sup>*\<^sup>* ?t (?t\<lparr>pc := Running [], executed := executed ?t @ fs\<rparr>)"
    by (rule Cons.IH) (use Cons.prems in simp_all)
  ultimately show ?case by (simp add: converse_rtranclp_into_rtranclp)
qed

lemma finish_turn:
  assumes "pc s = Handling False" "\<not> self_owes s"
  shows "\<exists>t. turn_step\<^sup>*\<^sup>* s t \<and> pc t = AtTest \<and> pending t = [] \<and> quitting t = quitting s
     \<and> executed t = executed s @ pending s \<and> pushed t = pushed s"
proof -
  let ?s1 = "s\<lparr>pc := Swapping, calling := True\<rparr>"
  let ?s2 = "?s1\<lparr>pc := Running (pending ?s1), pending := [], early := False\<rparr>"
  let ?s3 = "?s2\<lparr>pc := Running [], executed := executed ?s2 @ pending s\<rparr>"
  have "turn_step s ?s1" using assms by (intro mark)
  moreover have "turn_step ?s1 ?s2" by (rule swap) simp
  moreover have "turn_step\<^sup>*\<^sup>* ?s2 ?s3" by (rule run_functors) (use assms in simp_all)
  moreover have "turn_step ?s3 (?s3\<lparr>pc := AtTest, calling := False\<rparr>)"
    by (rule unmark) (use assms in simp_all)
  ultimately have "turn_step\<^sup>*\<^sup>* s (?s3\<lparr>pc := AtTest, calling := False\<rparr>)"
    by (meson converse_rtranclp_into_rtranclp rtranclp.rtrancl_into_rtrancl)
  then show ?thesis by (intro exI [of _ "?s3\<lparr>pc := AtTest, calling := False\<rparr>"]) simp
qed

lemma woken_turn:
  assumes "pc s = AtPoll" "0 < counter s" "\<not> self_owes s"
  shows "\<exists>t. turn_step\<^sup>*\<^sup>* s t \<and> pc t = AtTest \<and> pending t = [] \<and> quitting t = quitting s
     \<and> executed t = executed s @ pending s \<and> pushed t = pushed s"
proof -
  let ?s1 = "s\<lparr>pc := Handling True\<rparr>" and ?s2 = "s\<lparr>pc := Handling False, counter := 0\<rparr>"
  have "turn_step s ?s1" using assms by (intro poll_woken)
  moreover have "turn_step ?s1 ?s2" using read_counter [of ?s1] by simp
  moreover obtain t where "turn_step\<^sup>*\<^sup>* ?s2 t" "pc t = AtTest" "pending t = []" "quitting t = quitting s"
    "executed t = executed s @ pending s" "pushed t = pushed s"
    using finish_turn [of ?s2] assms(3) by auto
  ultimately show ?thesis by (meson converse_rtranclp_into_rtranclp)
qed

section \<open>The operations of the loop are runs of the protocol\<close>

text \<open>The counter of an eventfd after a log of system calls.\<close>

fun count_call :: "int \<Rightarrow> syscall \<times> answer \<Rightarrow> nat \<Rightarrow> nat" where
  "count_call fd (SysWrite fd' bytes, a) n = (if fd' = fd \<and> ret a = 8 then n + 1 else n)"
| "count_call fd (SysRead fd' len, a) n = (if fd' = fd \<and> ret a = 8 then 0 else n)"
| "count_call fd _ n = n"

definition counter_of :: "int \<Rightarrow> (syscall \<times> answer) list \<Rightarrow> nat" where
  "counter_of fd log = fold (count_call fd) log 0"

lemma counter_of_snoc [simp]: "counter_of fd (log @ [ca]) = count_call fd ca (counter_of fd log)"
  by (simp add: counter_of_def)

text \<open>\<open>s\<close> describes loop \<open>l\<close> of the state \<open>w\<close>.\<close>

definition describes :: "nat \<Rightarrow> 'a reactor_scheme \<Rightarrow> protocol \<Rightarrow> bool" where
  "describes l w s \<longleftrightarrow> pending s = pendingFunctors (loops w l)
     \<and> calling s = callingPendingFunctors (loops w l) \<and> quitting s = quit (loops w l)
     \<and> counter s = counter_of (wakeupFd (loops w l)) (calls w)"

lemma wakeup_counts:
  "wakeup l w = Inr w' \<Longrightarrow> loops w' = loops w \<and> cur_thread w' = cur_thread w
     \<and> counter_of (wakeupFd (loops w l)) (calls w') = counter_of (wakeupFd (loops w l)) (calls w) + 1"
  by (auto simp: wakeup_def do_call_def Let_def result_simps)

lemma queueInLoop_other:
  assumes d: "describes l w s" and other: "\<not> isInLoopThread l w" and run: "queueInLoop l f w = Inr w'"
  shows "\<exists>s1 s'. other_step s s1 \<and> other_step s1 s' \<and> describes l w' s' \<and> pc s' = pc s
     \<and> pushed s' = pushed s @ [f]"
proof -
  let ?s1 = "s\<lparr>pending := pending s @ [f], owes := owes s + 1, pushed := pushed s @ [f]\<rparr>"
  let ?s2 = "?s1\<lparr>counter := counter ?s1 + 1, owes := owes ?s1 - 1\<rparr>"
  have "wakeup l (set_loop l (pendingFunctors_update (\<lambda>fs. fs @ [f])) w) = Inr w'"
    using other run by (simp add: queueInLoop_def)
  from wakeup_counts [OF this] d have "describes l w' ?s2" by (simp add: describes_def)
  moreover have "other_step s ?s1" by (rule other_push)
  moreover have "other_step ?s1 ?s2" by (rule other_wake) simp
  ultimately show ?thesis
    by (intro exI [of _ ?s1] exI [of _ ?s2]) simp
qed

lemma queueInLoop_own:
  assumes d: "describes l w s" and own: "isInLoopThread l w" and run: "queueInLoop l f w = Inr w'"
    and pc: "runs_user_code (pc s)" "\<not> self_owes s"
  shows "\<exists>s'. own_step\<^sup>*\<^sup>* s s' \<and> describes l w' s' \<and> pc s' = pc s \<and> \<not> self_owes s'
     \<and> pushed s' = pushed s @ [f] \<and> executed s' = executed s"
proof -
  let ?s1 = "s\<lparr>pending := pending s @ [f], pushed := pushed s @ [f], self_owes := calling s,
                   early := early s \<or> pc s = BeforeStart\<rparr>"
  let ?s2 = "?s1\<lparr>counter := counter ?s1 + 1, self_owes := False\<rparr>"
  let ?w = "set_loop l (pendingFunctors_update (\<lambda>fs. fs @ [f])) w"
  have push: "own_step s ?s1" by (rule own_push [OF pc])
  show ?thesis
  proof (cases "calling s")
    case True
    then have "wakeup l ?w = Inr w'" using d own run by (simp add: queueInLoop_def describes_def)
    from wakeup_counts [OF this] d have "describes l w' ?s2" by (simp add: describes_def)
    moreover have "own_step ?s1 ?s2" by (rule own_wake) (use True in simp)
    ultimately show ?thesis using push by (intro exI [of _ ?s2]) simp
  next
    case False
    then have "w' = ?w" using d own run by (simp add: queueInLoop_def describes_def)
    with d have "describes l w' ?s1" by (simp add: describes_def)
    then show ?thesis using push False pc(2) by (intro exI [of _ ?s1]) simp
  qed
qed

lemma quitLoop_other:
  assumes d: "describes l w s" and other: "\<not> isInLoopThread l w" and run: "quitLoop l w = Inr w'"
  shows "\<exists>s1 s'. other_step s s1 \<and> other_step s1 s' \<and> describes l w' s' \<and> pc s' = pc s \<and> quitting s'"
proof -
  let ?s1 = "s\<lparr>quitting := True, owes := owes s + 1\<rparr>"
  let ?s2 = "?s1\<lparr>counter := counter ?s1 + 1, owes := owes ?s1 - 1\<rparr>"
  have "wakeup l (set_loop l (quit_update (\<lambda>_. True)) w) = Inr w'"
    using other run by (simp add: quitLoop_def)
  from wakeup_counts [OF this] d have "describes l w' ?s2" by (simp add: describes_def)
  moreover have "other_step s ?s1" by (rule other_quit)
  moreover have "other_step ?s1 ?s2" by (rule other_wake) simp
  ultimately show ?thesis by (intro exI [of _ ?s1] exI [of _ ?s2]) simp
qed

lemma handleRead_turn:
  assumes d: "describes l w s" and pc: "pc s = Handling True" and run: "EventLoop_handleRead l w = Inr w'"
  shows "\<exists>s'. turn_step s s' \<and> describes l w' s' \<and> pc s' = Handling False"
proof -
  let ?s = "s\<lparr>pc := Handling False, counter := 0\<rparr>"
  have "describes l w' ?s"
    using d run by (auto simp: EventLoop_handleRead_def describes_def do_call_def Let_def result_simps)
  moreover have "turn_step s ?s" by (rule read_counter [OF pc])
  ultimately show ?thesis by (intro exI [of _ ?s]) simp
qed

text \<open>The functors of a turn, each of which queues further functors.\<close>

lemma own_steps_protocol: "own_step\<^sup>*\<^sup>* s t \<Longrightarrow> protocol_step\<^sup>*\<^sup>* s t"
  by (induction rule: rtranclp_induct) (auto intro: rtranclp.rtrancl_into_rtrancl by_own)

lemma queue_many_own:
  assumes "describes l w s" "isInLoopThread l w" "run_all (queueInLoop l) fs w = Inr w'"
    "pc s = Running gs" "\<not> self_owes s"
  shows "\<exists>s'. protocol_step\<^sup>*\<^sup>* s s' \<and> describes l w' s' \<and> isInLoopThread l w' \<and> pc s' = Running gs
     \<and> \<not> self_owes s' \<and> pushed s' = pushed s @ fs \<and> executed s' = executed s"
  using assms
proof (induction fs arbitrary: w s)
  case (Cons f fs)
  then obtain v where v: "queueInLoop l f w = Inr v" "run_all (queueInLoop l) fs v = Inr w'"
    by (auto simp: result_simps)
  from queueInLoop_own [OF Cons.prems(1,2) v(1)] Cons.prems(4,5) obtain s1 where
    s1: "own_step\<^sup>*\<^sup>* s s1" "describes l v s1" "pc s1 = Running gs" "\<not> self_owes s1"
    "pushed s1 = pushed s @ [f]" "executed s1 = executed s" by auto
  have "isInLoopThread l v"
    using v(1) Cons.prems(2)
    by (auto simp: queueInLoop_def isInLoopThread_def Let_def dest!: wakeup_counts split: if_splits)
  from Cons.IH [OF s1(2) this v(2) s1(3,4)] s1 show ?case
    by (auto dest: own_steps_protocol intro: rtranclp_trans)
qed auto

lemma functors_of_turn:
  assumes "describes l w s" "isInLoopThread l w" "run_all (exec_spawn l spawn) fs w = Inr w'"
    "pc s = Running fs" "\<not> self_owes s"
  shows "\<exists>s'. protocol_step\<^sup>*\<^sup>* s s' \<and> describes l w' s' \<and> isInLoopThread l w' \<and> pc s' = Running []
     \<and> \<not> self_owes s' \<and> executed s' = executed s @ fs"
  using assms
proof (induction fs arbitrary: w s)
  case (Cons f fs)
  from Cons.prems(3) obtain v where v': "exec_spawn l spawn f w = Inr v"
    and v2: "run_all (exec_spawn l spawn) fs v = Inr w'" by (auto simp: result_simps)
  note v = v' [unfolded exec_spawn_def] v2
  let ?s = "s\<lparr>pc := Running fs, executed := executed s @ [f]\<rparr>"
  have run: "protocol_step s ?s" using Cons.prems by (intro by_turn run_next) simp_all
  have "describes l w ?s" using Cons.prems(1) by (simp add: describes_def)
  from queue_many_own [OF this Cons.prems(2) v(1)] Cons.prems(5) obtain s1 where
    s1: "protocol_step\<^sup>*\<^sup>* ?s s1" "describes l v s1" "isInLoopThread l v" "pc s1 = Running fs"
    "\<not> self_owes s1" "executed s1 = executed s @ [f]" by auto
  from Cons.IH [OF s1(2,3) v(2) s1(4,5)] s1 run show ?case
    by (auto intro: converse_rtranclp_into_rtranclp rtranclp_trans)
qed auto

lemma doPendingFunctors_protocol:
  assumes d: "describes l w s" and own: "isInLoopThread l w" and pc: "pc s = Handling False" "\<not> self_owes s"
    and run: "doPendingFunctors (exec_spawn l spawn) l w = Inr w'"
  shows "\<exists>s'. protocol_step\<^sup>*\<^sup>* s s' \<and> describes l w' s' \<and> pc s' = AtTest
     \<and> executed s' = executed s @ pendingFunctors (loops w l)"
proof -
  let ?w = "set_loop l (pendingFunctors_update (\<lambda>_. [])) (set_loop l (callingPendingFunctors_update (\<lambda>_. True)) w)"
  let ?s1 = "s\<lparr>pc := Swapping, calling := True\<rparr>"
  let ?s2 = "?s1\<lparr>pc := Running (pending ?s1), pending := [], early := False\<rparr>"
  have steps: "protocol_step s ?s1" "protocol_step ?s1 ?s2"
    by (rule by_turn, rule mark [OF pc(1)]) (rule by_turn, rule swap, simp)
  have fs: "pending s = pendingFunctors (loops w l)" using d by (simp add: describes_def)
  obtain v where v: "run_all (exec_spawn l spawn) (pending s) ?w = Inr v"
    "w' = set_loop l (callingPendingFunctors_update (\<lambda>_. False)) v"
    using run fs by (auto simp: doPendingFunctors_def Let_def result_simps)
  have "describes l ?w ?s2" "isInLoopThread l ?w" using d own by (simp_all add: describes_def)
  from functors_of_turn [OF this v(1)] pc(2) obtain s3 where
    s3: "protocol_step\<^sup>*\<^sup>* ?s2 s3" "describes l v s3" "pc s3 = Running []" "\<not> self_owes s3"
    "executed s3 = executed s @ pending s" by auto
  let ?s4 = "s3\<lparr>pc := AtTest, calling := False\<rparr>"
  have "protocol_step s3 ?s4" by (rule by_turn, rule unmark [OF s3(3,4)])
  with steps s3(1) have "protocol_step\<^sup>*\<^sup>* s ?s4"
    by (meson converse_rtranclp_into_rtranclp rtranclp.rtrancl_into_rtrancl)
  moreover have "describes l w' ?s4" using s3(2) v(2) by (simp add: describes_def)
  ultimately show ?thesis using s3(5) fs by (intro exI [of _ ?s4]) simp
qed

section \<open>Properties\<close>


text \<open>
  C23. Exactly once and in order: at every moment the functors that were run, the ones of the
  current turn that are still to be run, and the queued ones, in this order, are the functors that were
  pushed, in the order of the pushes.
\<close>

theorem functors_run_once_in_order:
  assumes "reachable s"
  shows "executed s @ being_run (pc s) @ pending s = pushed s"
  using protocol_invD(1) [OF protocol.reach_inv [OF assms]] by simp

text \<open>
  The wake-up channel's \<open>handleRead\<close> is only called while the counter is positive, so its read
  of the non-blocking eventfd finds the eight bytes its assertion asks for.
\<close>

theorem handleRead_finds_counter:
  assumes "reachable s" and "pc s = Handling True"
  shows "0 < counter s"
  using protocol_invD(4) [OF protocol.reach_inv [OF assms(1)] assms(2)] .


text \<open>
  The exception of the no-lost-wake-up property is real: a functor that the loop's own thread
  queued before \<open>startLoop\<close> can be waiting while \<open>poll\<close> blocks with nothing to wake it.
\<close>

theorem early_functor_waits:
  "\<exists>s. reachable s \<and> pc s = AtPoll \<and> pending s \<noteq> [] \<and> \<not> wake_due s"
proof -
  let ?s0 = "\<lparr>pc = BeforeStart, calling = False, quitting = False, pending = [],
     counter = 0, self_owes = False, owes = 0, pushed = [], executed = [], early = False\<rparr>"
  let ?s1 = "?s0\<lparr>pending := [UserFunctor 0], pushed := [UserFunctor 0], early := True\<rparr>"
  let ?s2 = "?s1\<lparr>pc := AtTest\<rparr>" and ?s3 = "?s1\<lparr>pc := AtPoll\<rparr>"
  have "reachable ?s0" by (rule reach_start) (simp add: protocol_start_def)
  moreover have "protocol_step ?s0 ?s1" using own_push [of ?s0 "UserFunctor 0"] by (intro by_own) simp
  moreover have "protocol_step ?s1 ?s2" using enter [of ?s1] by (intro by_turn) simp
  moreover have "protocol_step ?s2 ?s3" using go_on [of ?s2] by (intro by_turn) simp
  ultimately have "reachable ?s3" by (blast intro: reach_step)
  then show ?thesis by (intro exI [of _ ?s3]) (simp add: wake_due_def)
qed

text \<open>
  C25. A lost quit: when another thread completes \<open>quitLoop\<close> after the loop was constructed and
  before its thread has entered \<open>startLoop\<close> (\<open>EventLoopThread\<close> hands out the loop in between), the
  loop can be at \<open>poll\<close> afterwards with \<open>_quit\<close> false and nothing to wake it.
\<close>

theorem quit_before_start_is_lost:
  "\<exists>s0 s1 s2 s. protocol_start s0 \<and> other_step s0 s1 \<and> quitting s1 \<and> other_step s1 s2 \<and> owes s2 = 0
     \<and> turn_step\<^sup>*\<^sup>* s2 s \<and> pc s = AtPoll \<and> \<not> quitting s \<and> \<not> wake_due s"
proof -
  let ?s0 = "\<lparr>pc = BeforeStart, calling = False, quitting = False, pending = [],
     counter = 0, self_owes = False, owes = 0, pushed = [], executed = [], early = False\<rparr>"
  let ?s1 = "?s0\<lparr>quitting := True, owes := 1\<rparr>" and ?s2 = "?s0\<lparr>quitting := True, counter := 1\<rparr>"
  let ?s3 = "?s0\<lparr>pc := AtTest, counter := 1\<rparr>" and ?s4 = "?s0\<lparr>pc := AtPoll, counter := 1\<rparr>"
  have "other_step ?s0 ?s1" using other_quit [of ?s0] by simp
  moreover have "other_step ?s1 ?s2" using other_wake [of ?s1] by simp
  moreover have "turn_step ?s2 ?s3" using enter [of ?s2] by simp
  moreover have "turn_step ?s3 ?s4" using go_on [of ?s3] by simp
  moreover have "turn_step\<^sup>*\<^sup>* ?s4 (?s0\<lparr>pc := AtTest\<rparr>)"
  proof -
    let ?a = "?s0\<lparr>pc := Handling True, counter := 1\<rparr>" and ?b = "?s0\<lparr>pc := Handling False\<rparr>"
    let ?c = "?s0\<lparr>pc := Swapping, calling := True\<rparr>" and ?d = "?s0\<lparr>pc := Running [], calling := True\<rparr>"
    have "turn_step ?s4 ?a" using poll_woken [of ?s4] by simp
    moreover have "turn_step ?a ?b" using read_counter [of ?a] by simp
    moreover have "turn_step ?b ?c" using mark [of ?b] by simp
    moreover have "turn_step ?c ?d" using swap [of ?c] by simp
    moreover have "turn_step ?d (?s0\<lparr>pc := AtTest\<rparr>)" using unmark [of ?d] by simp
    ultimately show ?thesis by (meson converse_rtranclp_into_rtranclp rtranclp.rtrancl_refl)
  qed
  moreover have "turn_step (?s0\<lparr>pc := AtTest\<rparr>) (?s0\<lparr>pc := AtPoll\<rparr>)"
    using go_on [of "?s0\<lparr>pc := AtTest\<rparr>"] by simp
  ultimately have "turn_step\<^sup>*\<^sup>* ?s2 (?s0\<lparr>pc := AtPoll\<rparr>)"
    by (meson converse_rtranclp_into_rtranclp rtranclp.rtrancl_into_rtrancl)
  with \<open>other_step ?s0 ?s1\<close> \<open>other_step ?s1 ?s2\<close> show ?thesis
    by (intro exI [of _ ?s0] exI [of _ ?s1] exI [of _ ?s2] exI [of _ "?s0\<lparr>pc := AtPoll\<rparr>"])
      (simp add: protocol_start_def wake_due_def)
qed

text \<open>
  The sequential \<open>doPendingFunctors\<close> implements the protocol: a run of it, with functors that
  queue further functors, is a sequence of protocol steps between states that describe the loop
  before and after, and the functors executed are the ones that were queued at its start.
\<close>

theorem doPendingFunctors_implements_protocol:
  assumes "describes l w s" and "isInLoopThread l w" and "pc s = Handling False" and "\<not> self_owes s"
    and "doPendingFunctors (exec_spawn l spawn) l w = Inr w'"
  shows "\<exists>s'. protocol_step\<^sup>*\<^sup>* s s' \<and> describes l w' s' \<and> pc s' = AtTest
     \<and> executed s' = executed s @ pendingFunctors (loops w l)"
  by (rule doPendingFunctors_protocol [OF assms])

section \<open>Examples\<close>

definition polling_state :: protocol where
  "polling_state = \<lparr>pc = AtPoll, calling = False, quitting = False, pending = [UserFunctor 4],
     counter = 1, self_owes = False, owes = 0, pushed = [UserFunctor 4], executed = [], early = False\<rparr>"

lemma polling_state_reachable: "reachable polling_state"
proof -
  let ?s0 = "\<lparr>pc = BeforeStart, calling = False, quitting = False, pending = [],
     counter = 0, self_owes = False, owes = 0, pushed = [], executed = [], early = False\<rparr>"
  let ?s1 = "?s0\<lparr>pc := AtTest\<rparr>" and ?s2 = "?s0\<lparr>pc := AtPoll\<rparr>"
  let ?s3 = "?s2\<lparr>pending := [UserFunctor 4], owes := 1, pushed := [UserFunctor 4]\<rparr>"
  have "reachable ?s0" by (rule reach_start) (simp add: protocol_start_def)
  moreover have "protocol_step ?s0 ?s1" using enter [of ?s0] by (intro by_turn) simp
  moreover have "protocol_step ?s1 ?s2" using go_on [of ?s1] by (intro by_turn) simp
  moreover have "protocol_step ?s2 ?s3" using other_push [of ?s2 "UserFunctor 4"] by (intro by_other) simp
  moreover have "protocol_step ?s3 polling_state"
    using other_wake [of ?s3] by (intro by_other) (simp add: polling_state_def)
  ultimately show ?thesis by (blast intro: reach_step)
qed


theorem functors_run_once_in_order_witness:
  "executed polling_state @ being_run (pc polling_state) @ pending polling_state = [UserFunctor 4]"
  using functors_run_once_in_order [OF polling_state_reachable] by (simp add: polling_state_def)

theorem handleRead_finds_counter_witness: "0 < counter (polling_state\<lparr>pc := Handling True\<rparr>)"
proof (rule handleRead_finds_counter)
  have "protocol_step polling_state (polling_state\<lparr>pc := Handling True\<rparr>)"
    by (rule by_turn, rule poll_woken) (simp_all add: polling_state_def)
  with polling_state_reachable show "reachable (polling_state\<lparr>pc := Handling True\<rparr>)" by (rule reach_step)
qed simp


theorem doPendingFunctors_implements_protocol_witness:
  "\<exists>w' s'. doPendingFunctors (exec_spawn 0 example_spawn) 0 queue_state = Inr w' \<and> describes 0 w' s'
     \<and> executed s' = [UserFunctor 2, UserFunctor 0]"
proof -
  let ?s = "\<lparr>pc = Handling False, calling = False, quitting = False, pending = [UserFunctor 2, UserFunctor 0],
     counter = 0, self_owes = False, owes = 0, pushed = [UserFunctor 2, UserFunctor 0], executed = [], early = False\<rparr>"
  have d: "describes 0 queue_state ?s"
    by (simp add: describes_def queue_state_def first_state_def idle_loop_def counter_of_def)
  have own: "isInLoopThread 0 queue_state"
    by (simp add: isInLoopThread_def queue_state_def first_state_def idle_loop_def)
  have "wakeups_ok queue_state" by (simp add: wakeups_ok_def queue_state_def first_state_def returns_def)
  then obtain w' where w': "doPendingFunctors (exec_spawn 0 example_spawn) 0 queue_state = Inr w'"
    using doPendingFunctors_spawn by blast
  from doPendingFunctors_implements_protocol [OF d own _ _ w'] w' show ?thesis
    by (fastforce simp: queue_state_def)
qed

end
