(* ===== verification/Buffer_Spec.thy ===== *)
theory Buffer_Spec
  imports Prelude
begin

text \<open>
  The contract of the application-level buffer, as its clients (a connection's input and
  output side) rely on it: a queue of bytes with \<open>put\<close> at the back and \<open>discard\<close> at the front.
  \<open>view\<close> is the queue's content, oldest byte first. The two guards say for which arguments the
  contract is promised; an implementation that meets it everywhere takes the constant true
  guard.
\<close>

datatype 'a buffer_op = Put "'a list" | Discard nat

text \<open>A sequence of operations; the result is what was taken out, and the buffer.\<close>

primrec exec_ops :: "('b \<Rightarrow> 'a list) \<Rightarrow> ('a list \<Rightarrow> 'b \<Rightarrow> 'b result)
    \<Rightarrow> (nat \<Rightarrow> 'b \<Rightarrow> 'b result) \<Rightarrow> 'a buffer_op list \<Rightarrow> 'b \<Rightarrow> ('a list \<times> 'b) result" where
  "exec_ops view put discard [] b = Inr ([], b)"
| "exec_ops view put discard (x # ops) b =
     (case x of
        Put xs \<Rightarrow> bindE (put xs b) (exec_ops view put discard ops)
      | Discard n \<Rightarrow> bindE (discard n b)
          (\<lambda>b'. bindE (exec_ops view put discard ops b') (\<lambda>(out, b''). Inr (take n (view b) @ out, b''))))"

primrec guarded_ops :: "('b \<Rightarrow> 'a list) \<Rightarrow> ('a list \<Rightarrow> 'b \<Rightarrow> 'b result)
    \<Rightarrow> (nat \<Rightarrow> 'b \<Rightarrow> 'b result) \<Rightarrow> ('a list \<Rightarrow> 'b \<Rightarrow> bool) \<Rightarrow> (nat \<Rightarrow> 'b \<Rightarrow> bool)
    \<Rightarrow> 'a buffer_op list \<Rightarrow> 'b \<Rightarrow> bool" where
  "guarded_ops view put discard put_ok discard_ok [] b \<longleftrightarrow> True"
| "guarded_ops view put discard put_ok discard_ok (x # ops) b \<longleftrightarrow>
     (case x of
        Put xs \<Rightarrow> put_ok xs b \<and> (case put xs b of Inl e \<Rightarrow> False
          | Inr b' \<Rightarrow> guarded_ops view put discard put_ok discard_ok ops b')
      | Discard n \<Rightarrow> discard_ok n b \<and> n \<le> length (view b)
          \<and> (case discard n b of Inl e \<Rightarrow> False
            | Inr b' \<Rightarrow> guarded_ops view put discard put_ok discard_ok ops b'))"

fun input_of :: "'a buffer_op \<Rightarrow> 'a list" where
  "input_of (Put xs) = xs"
| "input_of (Discard n) = []"

locale byte_queue =
  fixes view :: "'b \<Rightarrow> 'a list"
    and inv :: "'b \<Rightarrow> bool"
    and put :: "'a list \<Rightarrow> 'b \<Rightarrow> 'b result"
    and discard :: "nat \<Rightarrow> 'b \<Rightarrow> 'b result"
    and put_ok :: "'a list \<Rightarrow> 'b \<Rightarrow> bool"
    and discard_ok :: "nat \<Rightarrow> 'b \<Rightarrow> bool"
  assumes put_law: "inv b \<Longrightarrow> put_ok xs b \<Longrightarrow>
      \<exists>b'. put xs b = Inr b' \<and> inv b' \<and> view b' = view b @ xs"
    and discard_law: "inv b \<Longrightarrow> n \<le> length (view b) \<Longrightarrow> discard_ok n b \<Longrightarrow>
      \<exists>b'. discard n b = Inr b' \<and> inv b' \<and> view b' = drop n (view b)"
    and discard_strict: "inv b \<Longrightarrow> length (view b) < n \<Longrightarrow> \<exists>e. discard n b = Inl e"
begin

lemma put_view: "inv b \<Longrightarrow> put_ok xs b \<Longrightarrow> put xs b = Inr b' \<Longrightarrow> view b' = view b @ xs"
  using put_law by fastforce

lemma put_inv: "inv b \<Longrightarrow> put_ok xs b \<Longrightarrow> put xs b = Inr b' \<Longrightarrow> inv b'"
  using put_law by fastforce

lemma put_returns: "inv b \<Longrightarrow> put_ok xs b \<Longrightarrow> \<exists>b'. put xs b = Inr b'"
  using put_law by blast

lemma discard_bound: "inv b \<Longrightarrow> discard n b = Inr b' \<Longrightarrow> n \<le> length (view b)"
  using discard_strict by (metis Inl_Inr_False not_le)

lemma discard_view:
  "inv b \<Longrightarrow> discard_ok n b \<Longrightarrow> discard n b = Inr b' \<Longrightarrow> view b' = drop n (view b)"
  using discard_law discard_bound by fastforce

lemma discard_inv: "inv b \<Longrightarrow> discard_ok n b \<Longrightarrow> discard n b = Inr b' \<Longrightarrow> inv b'"
  using discard_law discard_bound by fastforce

text \<open>First in, first out: what came out, then what is left, is what was there, then what
  was put in; and a guarded run always returns.\<close>

lemma exec_conserves:
  "inv b \<Longrightarrow> guarded_ops view put discard put_ok discard_ok ops b \<Longrightarrow>
     \<exists>out b'. exec_ops view put discard ops b = Inr (out, b') \<and> inv b'
       \<and> out @ view b' = view b @ concat (map input_of ops)"
proof (induction ops arbitrary: b)
  case (Cons x ops)
  show ?case
  proof (cases x)
    case (Put xs)
    with Cons.prems obtain b1 where "put xs b = Inr b1" "inv b1" "view b1 = view b @ xs"
      using put_law by fastforce
    with Cons Put show ?thesis by fastforce
  next
    case (Discard n)
    with Cons.prems obtain b1 where
      b1: "discard n b = Inr b1" "inv b1" "view b1 = drop n (view b)"
      using discard_law by fastforce
    with Cons Discard obtain out b' where
      "exec_ops view put discard ops b1 = Inr (out, b')" "inv b'"
      "out @ view b' = drop n (view b) @ concat (map input_of ops)"
      by fastforce
    moreover have "take n (view b) @ drop n (view b) @ ys = view b @ ys" for ys
      by (metis append_assoc append_take_drop_id)
    ultimately show ?thesis using b1 Discard by simp
  qed
qed simp

end

end
