(* ===== verification/Buffer.thy ===== *)
theory Buffer
  imports Buffer_Spec Kernel
begin

text \<open>
  \<open>base/Buffer.h\<close>: the ring buffer between a socket and the user. \<open>buf\<close> is the vector
  \<open>_buffer\<close>; the readable bytes start at \<open>startIndex\<close> and run, wrapping around the end of the
  vector, up to \<open>endIndex\<close>; \<open>isFull\<close> tells the full buffer from the empty one when the two
  indices meet. A \<open>const char*\<close> with a length is a \<open>string\<close>. Sizes are \<open>nat\<close>: every
  subtraction of the code is guarded by the branch it stands in, and a vector is far shorter
  than \<open>2 ^ 64\<close>.
\<close>

section \<open>The class\<close>

record buffer =
  buf :: string
  startIndex :: nat
  endIndex :: nat
  isFull :: bool

definition initialSize :: nat where "initialSize = 10"

definition bufferSize :: "buffer \<Rightarrow> nat" where
  "bufferSize b = length (buf b)"

definition readableBytes :: "buffer \<Rightarrow> nat" where
  "readableBytes b =
     (if isFull b then bufferSize b
      else if startIndex b \<le> endIndex b then endIndex b - startIndex b
      else bufferSize b - (startIndex b - endIndex b))"

definition writableBytes :: "buffer \<Rightarrow> nat" where
  "writableBytes b = bufferSize b - readableBytes b"

definition bytesAfterEnd :: "buffer \<Rightarrow> nat" where
  "bytesAfterEnd b =
     (if isFull b then 0
      else if endIndex b < startIndex b then startIndex b - endIndex b
      else bufferSize b - endIndex b)"

definition isEmpty :: "buffer \<Rightarrow> bool" where
  "isEmpty b \<longleftrightarrow> startIndex b = endIndex b \<and> \<not> isFull b"

definition new_buffer :: buffer where
  "new_buffer = \<lparr>buf = replicate initialSize (CHR 0x00), startIndex = 0, endIndex = 0,
                 isFull = False\<rparr>"

definition Buffer_ctor :: "buffer result" where
  "Buffer_ctor =
     assert_that ''readableBytes() == 0'' (readableBytes new_buffer = 0)
       (assert_that ''writableBytes() == initialSize'' (writableBytes new_buffer = initialSize)
         (Inr new_buffer))"

text \<open>\<open>n\<close> bytes from \<open>peek()\<close>, and from \<open>begin()\<close>.\<close>

definition peek_bytes :: "nat \<Rightarrow> buffer \<Rightarrow> string result" where
  "peek_bytes n b = read_at (buf b) (startIndex b) n"

definition begin_bytes :: "nat \<Rightarrow> buffer \<Rightarrow> string result" where
  "begin_bytes n b = read_at (buf b) 0 n"

definition retrieve :: "nat \<Rightarrow> buffer \<Rightarrow> buffer result" where
  "retrieve len b =
     assert_that ''len <= readableBytes()'' (len \<le> readableBytes b)
       (let b1 = (if startIndex b + len < bufferSize b
                  then b\<lparr>startIndex := startIndex b + len\<rparr>
                  else b\<lparr>startIndex := startIndex b + len - bufferSize b\<rparr>)
        in Inr (if len > 0 \<and> startIndex b1 = endIndex b1 then b1\<lparr>isFull := False\<rparr> else b1))"

definition retrieveAll :: "buffer \<Rightarrow> buffer" where
  "retrieveAll b = b\<lparr>startIndex := 0, endIndex := 0, isFull := False\<rparr>"

definition retrieveAsString :: "buffer \<Rightarrow> (string \<times> buffer) result" where
  "retrieveAsString b =
     bindE
       (if startIndex b < endIndex b then peek_bytes (readableBytes b) b
        else if startIndex b > endIndex b \<or> isFull b then
          bindE (peek_bytes (bufferSize b - startIndex b) b)
            (\<lambda>s1. bindE (begin_bytes (endIndex b) b) (\<lambda>s2. Inr (s1 @ s2)))
        else Inr '''')
       (\<lambda>str. Inr (str, retrieveAll b))"

definition hasWritten :: "nat \<Rightarrow> buffer \<Rightarrow> buffer" where
  "hasWritten len b =
     (let b1 = (if endIndex b + len < bufferSize b
                then b\<lparr>endIndex := endIndex b + len\<rparr>
                else b\<lparr>endIndex := endIndex b + len - bufferSize b\<rparr>)
      in if len > 0 \<and> endIndex b1 = startIndex b1 then b1\<lparr>isFull := True\<rparr> else b1)"

text \<open>
  The second copy of the wrapping branch is \<open>std::copy(data+firstPart, data+secondPart, ...)\<close>
  as written: it copies \<open>secondPart - firstPart\<close> bytes, and its range is reversed when
  \<open>secondPart < firstPart\<close>.
\<close>

definition writeAfterEnd :: "string \<Rightarrow> buffer \<Rightarrow> buffer result" where
  "writeAfterEnd data b =
     (let len = length data in
      bindE
        (if endIndex b + len \<le> bufferSize b then copy_into (buf b) (endIndex b) data
         else
           let firstPart = bufferSize b - endIndex b;
               secondPart = len - firstPart
           in bindE (copy_into (buf b) (endIndex b) (take firstPart data))
                (\<lambda>v. if secondPart < firstPart then Inl BadRange
                     else copy_into v 0 (take (secondPart - firstPart) (drop firstPart data))))
        (\<lambda>v. Inr (hasWritten len (b\<lparr>buf := v\<rparr>))))"

text \<open>\<open>_buffer.resize(newSize)\<close>: cut off, or filled up with zero bytes.\<close>

definition resize :: "nat \<Rightarrow> buffer \<Rightarrow> buffer" where
  "resize newSize b =
     b\<lparr>buf := take newSize (buf b) @ replicate (newSize - bufferSize b) (CHR 0x00)\<rparr>"

text \<open>
  \<open>bufferSize() + (len - writableBytes())\<close> in \<open>size_t\<close>: the sum is exact whether or not the
  inner difference wraps.
\<close>

definition grown_size :: "nat \<Rightarrow> buffer \<Rightarrow> nat" where
  "grown_size len b = bufferSize b + len - writableBytes b"

lemma bufferSize_resize [simp]: "bufferSize (resize n b) = n"
  by (simp add: resize_def bufferSize_def)

lemma resize_simps [simp]:
  "startIndex (resize n b) = startIndex b" "endIndex (resize n b) = endIndex b"
  "isFull (resize n b) = isFull b"
  by (simp_all add: resize_def)

lemma retrieveAll_simps [simp]:
  "buf (retrieveAll b) = buf b" "startIndex (retrieveAll b) = 0" "endIndex (retrieveAll b) = 0"
  "isFull (retrieveAll b) = False" "bufferSize (retrieveAll b) = bufferSize b"
  by (simp_all add: retrieveAll_def bufferSize_def)

text \<open>What makes the mutual recursion of \<open>append\<close> and \<open>makeSpace\<close> end: the bytes taken out
  always fit into the grown vector, so the inner \<open>append\<close> does not call \<open>makeSpace\<close> again.\<close>

lemma retrieveAsString_state: "retrieveAsString b = Inr (d, b1) \<Longrightarrow> b1 = retrieveAll b"
  by (auto simp: retrieveAsString_def result_simps)

lemma retrieveAsString_fits:
  assumes "retrieveAsString b = Inr (d, b1)"
  shows "length d \<le> writableBytes (resize (grown_size len b) b1)"
proof -
  have b1: "b1 = retrieveAll b" using assms by (rule retrieveAsString_state)
  have "length d \<le> grown_size len b"
    using assms
    by (auto simp: retrieveAsString_def peek_bytes_def begin_bytes_def result_simps
        grown_size_def writableBytes_def readableBytes_def bufferSize_def split: if_splits)
  then show ?thesis by (simp add: b1 writableBytes_def readableBytes_def)
qed

function append :: "string \<Rightarrow> buffer \<Rightarrow> buffer result"
  and makeSpace :: "nat \<Rightarrow> buffer \<Rightarrow> buffer result" where
  "append data b =
     bindE (if writableBytes b < length data then makeSpace (length data) b else Inr b)
       (writeAfterEnd data)"
| "makeSpace len b =
     bindE (retrieveAsString b)
       (\<lambda>(data, b1). bindE (append data (resize (grown_size len b) b1))
          (\<lambda>b2. assert_that ''readable == readableBytes()'' (readableBytes b = readableBytes b2)
                  (Inr b2)))"
  by pat_completeness auto
termination
proof (relation "measure (\<lambda>x. case x of
          Inl (data, b) \<Rightarrow> if writableBytes b < length data then 2 else 0
        | Inr (len, b) \<Rightarrow> Suc 0)")
  show "wf (measure (\<lambda>x. case x of
          Inl (data :: string, b) \<Rightarrow> if writableBytes b < length data then 2 else 0
        | Inr (len :: nat, b) \<Rightarrow> Suc 0))"
    by (rule wf_measure)
qed (auto dest: retrieveAsString_fits [THEN leD])

declare append.simps [simp del] makeSpace.simps [simp del]

section \<open>Transfers from and to a descriptor\<close>

text \<open>
  \<open>readFd\<close> returns \<open>n\<close> as \<open>size_t\<close>, the value for \<open>*savedErrno\<close> (\<open>None\<close>: left alone) and the
  buffer. \<open>writeFd\<close> returns \<open>n\<close> as \<open>size_t\<close> and leaves the buffer to \<open>retrieve\<close>.
\<close>

definition readFd ::
  "int \<Rightarrow> buffer \<Rightarrow> 'a kernel_scheme \<Rightarrow> (nat \<times> int option \<times> buffer \<times> 'a kernel_scheme) result"
  where
  "readFd fd b w =
     (let (a, w) = do_call (SysRead fd 65535) w; n = ret a in
      if n < 0 then Inr (size_t_of n, Some (err a), b, w)
      else bindE (append (take (nat n) (payload a)) b) (\<lambda>b. Inr (size_t_of n, None, b, w)))"

definition writeFd :: "int \<Rightarrow> buffer \<Rightarrow> 'a kernel_scheme \<Rightarrow> (nat \<times> 'a kernel_scheme) result" where
  "writeFd fd b w =
     assert_that ''!isEmpty()'' (\<not> isEmpty b)
       (bindE (if startIndex b < endIndex b then peek_bytes (readableBytes b) b
               else peek_bytes (bufferSize b - startIndex b) b)
          (\<lambda>bytes. let (a, w) = do_call (SysWrite fd bytes) w in Inr (size_t_of (ret a), w)))"

section \<open>The content of the buffer\<close>

definition buffer_inv :: "buffer \<Rightarrow> bool" where
  "buffer_inv b \<longleftrightarrow> startIndex b < bufferSize b \<and> endIndex b < bufferSize b
     \<and> (isFull b \<longrightarrow> startIndex b = endIndex b)"

definition contents :: "buffer \<Rightarrow> string" where
  "contents b =
     map (\<lambda>i. buf b ! ((startIndex b + i) mod bufferSize b)) [0..<readableBytes b]"

lemma length_contents [simp]: "length (contents b) = readableBytes b"
  by (simp add: contents_def)

lemma contents_nth:
  "i < readableBytes b \<Longrightarrow> contents b ! i = buf b ! ((startIndex b + i) mod bufferSize b)"
  by (simp add: contents_def)

lemma contents_Nil: "readableBytes b = 0 \<Longrightarrow> contents b = []"
  by (simp add: contents_def)

lemma readable_le_size: "buffer_inv b \<Longrightarrow> readableBytes b \<le> bufferSize b"
  by (auto simp: buffer_inv_def readableBytes_def)

lemma isEmpty_iff: "buffer_inv b \<Longrightarrow> isEmpty b \<longleftrightarrow> contents b = []"
  by (auto simp: buffer_inv_def isEmpty_def contents_def readableBytes_def)

text \<open>The content in the two pieces the code works with.\<close>

lemma contents_pieces:
  assumes "buffer_inv b"
  shows "contents b =
    (if startIndex b < endIndex b then take (readableBytes b) (drop (startIndex b) (buf b))
     else if startIndex b > endIndex b \<or> isFull b
     then drop (startIndex b) (buf b) @ take (endIndex b) (buf b) else [])"
proof (rule nth_equalityI)
  show "length (contents b) = length (if startIndex b < endIndex b
      then take (readableBytes b) (drop (startIndex b) (buf b))
      else if startIndex b > endIndex b \<or> isFull b
      then drop (startIndex b) (buf b) @ take (endIndex b) (buf b) else [])"
    using assms by (auto simp: buffer_inv_def readableBytes_def bufferSize_def)
next
  fix i assume "i < length (contents b)"
  then have i: "i < readableBytes b" by simp
  have wrap: "(startIndex b + i) mod bufferSize b =
      (if startIndex b + i < bufferSize b then startIndex b + i else startIndex b + i - bufferSize b)"
    using i assms readable_le_size [OF assms] by (auto simp: buffer_inv_def mod_if)
  show "contents b ! i = (if startIndex b < endIndex b
      then take (readableBytes b) (drop (startIndex b) (buf b))
      else if startIndex b > endIndex b \<or> isFull b
      then drop (startIndex b) (buf b) @ take (endIndex b) (buf b) else []) ! i"
    using i assms unfolding contents_nth [OF i] wrap
    by (auto simp: buffer_inv_def readableBytes_def bufferSize_def nth_append algebra_simps
        split: if_splits)
qed

lemma retrieveAsString_contents:
  assumes "buffer_inv b"
  shows "retrieveAsString b = Inr (contents b, retrieveAll b)"
  using assms
  by (auto simp: contents_pieces [OF assms] retrieveAsString_def peek_bytes_def begin_bytes_def
      read_at_def buffer_inv_def readableBytes_def bufferSize_def)

lemma retrieveAll_inv: "0 < bufferSize b \<Longrightarrow> buffer_inv (retrieveAll b)"
  by (simp add: buffer_inv_def)

lemma retrieveAll_contents [simp]: "contents (retrieveAll b) = []"
  by (simp add: contents_def readableBytes_def)

lemma inv_size_pos: "buffer_inv b \<Longrightarrow> 0 < bufferSize b"
  by (auto simp: buffer_inv_def)

lemma new_buffer_inv: "buffer_inv new_buffer"
  by (simp add: new_buffer_def buffer_inv_def bufferSize_def initialSize_def)

lemma new_buffer_contents [simp]: "contents new_buffer = []"
  by (simp add: new_buffer_def contents_def readableBytes_def)

lemma Buffer_ctor_returns: "Buffer_ctor = Inr new_buffer"
  by (simp add: Buffer_ctor_def readableBytes_def writableBytes_def bufferSize_def new_buffer_def)

section \<open>Taking bytes out\<close>

definition retrieve_ok :: "nat \<Rightarrow> buffer \<Rightarrow> bool" where
  "retrieve_ok n b \<longleftrightarrow> \<not> isFull b \<or> n = 0 \<or> n = bufferSize b"

lemma retrieve_contents:
  assumes inv: "buffer_inv b" and n: "n \<le> readableBytes b" and ok: "retrieve_ok n b"
  shows "\<exists>b'. retrieve n b = Inr b' \<and> buffer_inv b' \<and> contents b' = drop n (contents b)"
proof -
  obtain b' where b': "retrieve n b = Inr b'"
    using n by (simp add: retrieve_def Let_def)
  have nsz: "n \<le> bufferSize b" using n readable_le_size [OF inv] by simp
  have same: "buf b' = buf b" "endIndex b' = endIndex b" "bufferSize b' = bufferSize b"
    and start: "startIndex b' = (startIndex b + n) mod bufferSize b"
    using b' inv nsz by (auto simp: retrieve_def Let_def result_simps bufferSize_def buffer_inv_def
        mod_if split: if_splits)
  have rb: "readableBytes b' = readableBytes b - n" and inv': "buffer_inv b'"
    using b' inv n ok unfolding retrieve_def Let_def retrieve_ok_def buffer_inv_def
    by (auto simp: result_simps readableBytes_def bufferSize_def split: if_splits)
  have "contents b' = drop n (contents b)"
  proof (rule nth_equalityI)
    show "length (contents b') = length (drop n (contents b))" by (simp add: rb)
    fix i assume "i < length (contents b')"
    then show "contents b' ! i = drop n (contents b) ! i"
      using n by (simp add: contents_nth rb same start mod_add_left_eq add.assoc)
  qed
  with b' inv' show ?thesis by blast
qed

lemma retrieve_too_much: "readableBytes b < n \<Longrightarrow> retrieve n b = Inl (AssertFail ''len <= readableBytes()'')"
  by (simp add: retrieve_def)

section \<open>Putting bytes in\<close>

lemma hasWritten_simps [simp]: "buf (hasWritten n b) = buf b" "startIndex (hasWritten n b) = startIndex b"
  "bufferSize (hasWritten n b) = bufferSize b"
  by (simp_all add: hasWritten_def Let_def bufferSize_def)



lemma hasWritten_endIndex:
  assumes "buffer_inv b" "n \<le> bufferSize b"
  shows "endIndex (hasWritten n b) =
    (if endIndex b + n < bufferSize b then endIndex b + n else endIndex b + n - bufferSize b)"
  using assms by (simp add: hasWritten_def Let_def bufferSize_def)

lemma hasWritten_isFull:
  "isFull (hasWritten n b) \<longleftrightarrow> isFull b \<or> n > 0 \<and> endIndex (hasWritten n b) = startIndex b"
  by (simp add: hasWritten_def Let_def)

lemma hasWritten_state:
  assumes inv: "buffer_inv b" and n: "n \<le> writableBytes b"
  shows "buffer_inv (hasWritten n b)" "readableBytes (hasWritten n b) = readableBytes b + n"
proof -
  have n': "n \<le> bufferSize b" using n by (simp add: writableBytes_def)
  note facts = hasWritten_endIndex [OF inv n'] hasWritten_isFull [of n b]
  have full: "n = 0" if "isFull b"
    using that n by (simp add: writableBytes_def readableBytes_def)
  have asc: "n \<le> bufferSize b - (endIndex b - startIndex b)" if "\<not> isFull b" "startIndex b \<le> endIndex b"
    using that n by (simp add: writableBytes_def readableBytes_def)
  have desc: "n \<le> startIndex b - endIndex b" if "\<not> isFull b" "endIndex b < startIndex b"
    using that n inv by (simp add: writableBytes_def readableBytes_def buffer_inv_def)
  show "buffer_inv (hasWritten n b)"
    using inv n' full asc desc unfolding buffer_inv_def facts hasWritten_simps
    by auto
  show "readableBytes (hasWritten n b) = readableBytes b + n"
    using inv n' full asc desc unfolding buffer_inv_def readableBytes_def facts hasWritten_simps
    by (auto simp: not_le)
qed

lemma end_from_start:
  "buffer_inv b \<Longrightarrow> (startIndex b + readableBytes b) mod bufferSize b = endIndex b"
  by (auto simp: buffer_inv_def readableBytes_def)

lemma same_indices [simp]:
  "length v = bufferSize b \<Longrightarrow> bufferSize (b\<lparr>buf := v\<rparr>) = bufferSize b"
  "length v = bufferSize b \<Longrightarrow> readableBytes (b\<lparr>buf := v\<rparr>) = readableBytes b"
  "length v = bufferSize b \<Longrightarrow> writableBytes (b\<lparr>buf := v\<rparr>) = writableBytes b"
  "length v = bufferSize b \<Longrightarrow> buffer_inv (b\<lparr>buf := v\<rparr>) = buffer_inv b"
  by (simp_all add: bufferSize_def readableBytes_def writableBytes_def buffer_inv_def)

lemma written_contents:
  assumes inv: "buffer_inv b" and n: "length W \<le> writableBytes b" and v: "length v = bufferSize b"
    and new: "\<And>k. k < length W \<Longrightarrow> v ! ((endIndex b + k) mod bufferSize b) = W ! k"
    and old: "\<And>i. i < readableBytes b \<Longrightarrow>
      v ! ((startIndex b + i) mod bufferSize b) = buf b ! ((startIndex b + i) mod bufferSize b)"
  shows "contents (hasWritten (length W) (b\<lparr>buf := v\<rparr>)) = contents b @ W" (is "contents ?b' = _")
proof -
  have rb: "readableBytes ?b' = readableBytes b + length W"
    using hasWritten_state(2) [of "b\<lparr>buf := v\<rparr>" "length W"] inv n v by simp
  show ?thesis
  proof (rule nth_equalityI)
    show "length (contents ?b') = length (contents b @ W)" by (simp add: rb)
    fix i assume "i < length (contents ?b')"
    then have i: "i < readableBytes ?b'" by simp
    show "contents ?b' ! i = (contents b @ W) ! i"
    proof (cases "i < readableBytes b")
      case True
      then show ?thesis using i v old by (simp add: contents_nth nth_append)
    next
      case False
      then obtain k where k: "i = readableBytes b + k" by (metis le_add_diff_inverse not_less)
      have "(startIndex b + i) mod bufferSize b = (endIndex b + k) mod bufferSize b"
        unfolding k end_from_start [OF inv, symmetric] by (simp add: mod_add_left_eq add.assoc)
      then show ?thesis using i k v rb new [of k] by (simp add: contents_nth nth_append)
    qed
  qed
qed

lemma first_part_fits:
  assumes "endIndex b < bufferSize b"
  shows "\<exists>v. copy_into (buf b) (endIndex b) (take (bufferSize b - endIndex b) data) = Inr v"
  using assms by (intro copy_into_returns) (simp add: bufferSize_def)

text \<open>The free part of the ring is disjoint from the readable part.\<close>

lemma readable_not_free:
  assumes "buffer_inv b" "i < readableBytes b" "k < writableBytes b"
  shows "(startIndex b + i) mod bufferSize b \<noteq> (endIndex b + k) mod bufferSize b"
  using assms
  by (auto simp: buffer_inv_def readableBytes_def writableBytes_def mod_once split: if_splits)

definition append_ok :: "string \<Rightarrow> buffer \<Rightarrow> bool" where
  "append_ok data b \<longleftrightarrow> writableBytes b < length data \<or> endIndex b + length data \<le> bufferSize b"

lemma writeAfterEnd_flat:
  assumes inv: "buffer_inv b" and n: "length data \<le> writableBytes b"
    and flat: "endIndex b + length data \<le> bufferSize b"
  shows "\<exists>b'. writeAfterEnd data b = Inr b' \<and> buffer_inv b' \<and> contents b' = contents b @ data
     \<and> bufferSize b' = bufferSize b \<and> startIndex b' = startIndex b"
proof -
  obtain v where v: "copy_into (buf b) (endIndex b) data = Inr v"
    using flat by (simp add: copy_into_def bufferSize_def)
  note len = copy_into_length [OF v] and nth = copy_into_nth [OF v]
  have sz: "length v = bufferSize b" using len by (simp add: bufferSize_def)
  have free: "j < bufferSize b \<Longrightarrow> endIndex b \<le> j \<Longrightarrow> j < endIndex b + length data \<Longrightarrow>
      \<exists>k < writableBytes b. j = (endIndex b + k) mod bufferSize b" for j
    using n flat by (intro exI [of _ "j - endIndex b"]) auto
  have "contents (hasWritten (length data) (b\<lparr>buf := v\<rparr>)) = contents b @ data"
  proof (rule written_contents [OF inv n sz])
    fix k assume "k < length data"
    then show "v ! ((endIndex b + k) mod bufferSize b) = data ! k"
      using flat nth [of "endIndex b + k"] by (simp add: bufferSize_def)
  next
    fix i assume i: "i < readableBytes b"
    have j: "(startIndex b + i) mod bufferSize b < bufferSize b" using inv_size_pos [OF inv] by simp
    then show "v ! ((startIndex b + i) mod bufferSize b) = buf b ! ((startIndex b + i) mod bufferSize b)"
      using nth [of "(startIndex b + i) mod bufferSize b"] free [OF j] readable_not_free [OF inv i]
      by (auto simp: bufferSize_def)
  qed
  moreover have "buffer_inv (hasWritten (length data) (b\<lparr>buf := v\<rparr>))"
    using hasWritten_state(1) [of "b\<lparr>buf := v\<rparr>" "length data"] inv n sz by simp
  ultimately show ?thesis
    using flat v sz by (simp add: writeAfterEnd_def Let_def)
qed

text \<open>The wrapping branch, as written: what ends up behind the old content.\<close>

lemma wrapped_vector:
  assumes inv: "buffer_inv b" and dsz: "length data \<le> bufferSize b"
    and first: "firstPart = bufferSize b - endIndex b" and wrap: "2 * firstPart \<le> length data"
  shows "\<exists>v. writeAfterEnd data b = Inr (hasWritten (length data) (b\<lparr>buf := v\<rparr>))
    \<and> length v = bufferSize b
    \<and> (\<forall>j < bufferSize b. v ! j =
         (if j < length data - 2 * firstPart then data ! (firstPart + j)
          else if endIndex b \<le> j then data ! (j - endIndex b) else buf b ! j))"
proof -
  let ?s = "length data - firstPart"
  have fpos: "0 < firstPart" using inv first by (simp add: buffer_inv_def)
  obtain v1 where v1: "copy_into (buf b) (endIndex b) (take firstPart data) = Inr v1"
    using first_part_fits inv first by (auto simp: buffer_inv_def)
  have "0 + length (take (?s - firstPart) (drop firstPart data)) \<le> length v1"
    using dsz copy_into_length [OF v1] by (simp add: bufferSize_def)
  from copy_into_returns [OF this]
  obtain v where v: "copy_into v1 0 (take (?s - firstPart) (drop firstPart data)) = Inr v" ..
  have sz: "length v = bufferSize b" and sz1: "length v1 = bufferSize b"
    using copy_into_length [OF v1] copy_into_length [OF v] by (simp_all add: bufferSize_def)
  have "v ! j = (if j < length data - 2 * firstPart then data ! (firstPart + j)
       else if endIndex b \<le> j then data ! (j - endIndex b) else buf b ! j)" if "j < bufferSize b" for j
    using that wrap copy_into_nth [OF v, of j] copy_into_nth [OF v1, of j] sz1 first inv
    by (auto simp: bufferSize_def buffer_inv_def)
  moreover have "\<not> endIndex b + length data \<le> bufferSize b" "\<not> ?s < firstPart"
    using first wrap fpos inv by (auto simp: buffer_inv_def)
  ultimately show ?thesis using sz v1 v first by (auto simp: writeAfterEnd_def Let_def)
qed

lemma writeAfterEnd_wrapped:
  assumes inv: "buffer_inv b" and n: "length data \<le> writableBytes b"
    and first: "firstPart = bufferSize b - endIndex b" and wrap: "2 * firstPart \<le> length data"
  shows "\<exists>b'. writeAfterEnd data b = Inr b' \<and> buffer_inv b'
     \<and> contents b' = contents b @ take (length data - firstPart) data
         @ take firstPart (drop (length data - 2 * firstPart) (buf b))"
proof -
  let ?s = "length data - firstPart"
  let ?W = "take ?s data @ take firstPart (drop (length data - 2 * firstPart) (buf b))"
  have dsz: "length data \<le> bufferSize b" using n by (simp add: writableBytes_def)
  from wrapped_vector [OF inv dsz first wrap]
  obtain v where v: "writeAfterEnd data b = Inr (hasWritten (length data) (b\<lparr>buf := v\<rparr>))"
    "length v = bufferSize b" and nth: "\<And>j. j < bufferSize b \<Longrightarrow> v ! j =
         (if j < length data - 2 * firstPart then data ! (firstPart + j)
          else if endIndex b \<le> j then data ! (j - endIndex b) else buf b ! j)" by blast
  have fpos: "0 < firstPart" and e: "endIndex b < bufferSize b"
    using inv first by (auto simp: buffer_inv_def)
  have gap: "length data - 2 * firstPart \<le> endIndex b" using dsz first e by linarith
  have W: "length ?W = length data" using wrap dsz by (simp add: bufferSize_def)
  have "contents (hasWritten (length ?W) (b\<lparr>buf := v\<rparr>)) = contents b @ ?W"
  proof (rule written_contents [OF inv _ v(2)])
    show "length ?W \<le> writableBytes b" using n W by simp
  next
    fix k assume "k < length ?W"
    then have k: "k < length data" using W by simp
    then have Wk: "?W ! k = (if k < ?s then data ! k else buf b ! (k - firstPart))"
      using wrap dsz by (simp add: nth_append bufferSize_def)
    have m: "(endIndex b + k) mod bufferSize b = (if k < firstPart then endIndex b + k else k - firstPart)"
      using k dsz first e by (auto simp: mod_once)
    show "v ! ((endIndex b + k) mod bufferSize b) = ?W ! k"
    proof (cases "k < firstPart")
      case True
      then have "endIndex b + k < bufferSize b" "\<not> endIndex b + k < length data - 2 * firstPart" "k < ?s"
        using first gap wrap by linarith+
      with True m Wk nth [of "endIndex b + k"] show ?thesis by simp
    next
      case False
      then have "k - firstPart < bufferSize b" "\<not> endIndex b \<le> k - firstPart"
        "k - firstPart < length data - 2 * firstPart \<longleftrightarrow> k < ?s"
        using first k dsz e by linarith+
      with False m Wk nth [of "k - firstPart"] show ?thesis by simp
    qed
  next
    fix i assume i: "i < readableBytes b"
    let ?j = "(startIndex b + i) mod bufferSize b"
    have j: "?j < bufferSize b" using e by simp
    have free: "?j \<noteq> (endIndex b + k) mod bufferSize b" if "k < length data" for k
      using readable_not_free [OF inv i, of k] that n by simp
    have "?j - endIndex b < length data" if "endIndex b \<le> ?j"
      using that j first wrap fpos by linarith
    then have "\<not> endIndex b \<le> ?j"
      using free [of "?j - endIndex b"] j by auto
    moreover have "\<not> ?j < length data - 2 * firstPart"
      using free [of "firstPart + ?j"] first e j by (cases "firstPart + ?j < length data") auto
    ultimately show "v ! ?j = buf b ! ?j" using nth [OF j] by simp
  qed
  moreover have "buffer_inv (hasWritten (length data) (b\<lparr>buf := v\<rparr>))"
    using hasWritten_state(1) [of "b\<lparr>buf := v\<rparr>" "length data"] inv n v(2) by simp
  ultimately show ?thesis using v W by simp
qed

lemma writeAfterEnd_reversed:
  assumes inv: "buffer_inv b" 
    and first: "firstPart = bufferSize b - endIndex b"
    and wrap: "firstPart < length data" "length data < 2 * firstPart"
  shows "writeAfterEnd data b = Inl BadRange"
proof -
  have "\<not> endIndex b + length data \<le> bufferSize b" using first wrap inv by (auto simp: buffer_inv_def)
  moreover obtain v where "copy_into (buf b) (endIndex b) (take firstPart data) = Inr v"
    using first_part_fits inv first by (auto simp: buffer_inv_def)
  moreover have "length data + endIndex b - bufferSize b < bufferSize b - endIndex b"
    using first wrap by linarith
  ultimately show ?thesis
    unfolding writeAfterEnd_def Let_def first by simp
qed

section \<open>Append and growth\<close>

lemma fresh_simps [simp]:
  "readableBytes (resize n (retrieveAll b)) = 0" "contents (resize n (retrieveAll b)) = []"
  "writableBytes (resize n (retrieveAll b)) = n"
  by (simp_all add: readableBytes_def contents_def writableBytes_def)

lemma readable_less_size: "buffer_inv b \<Longrightarrow> \<not> isFull b \<Longrightarrow> readableBytes b < bufferSize b"
  by (auto simp: buffer_inv_def readableBytes_def)

lemma append_fits: "length data \<le> writableBytes b \<Longrightarrow> append data b = writeAfterEnd data b"
  by (simp add: append.simps)

lemma makeSpace_contents:
  assumes inv: "buffer_inv b" and small: "writableBytes b < len"
  shows "\<exists>b'. makeSpace len b = Inr b' \<and> buffer_inv b' \<and> contents b' = contents b
     \<and> bufferSize b' = readableBytes b + len \<and> startIndex b' = 0
     \<and> endIndex b' = readableBytes b \<and> \<not> isFull b'"
proof -
  let ?b1 = "resize (grown_size len b) (retrieveAll b)"
  have size: "grown_size len b = readableBytes b + len"
    using small readable_le_size [OF inv] by (simp add: grown_size_def writableBytes_def)
  have empty: "readableBytes ?b1 = 0" by simp
  have inv1: "buffer_inv ?b1" using small by (simp add: buffer_inv_def size)
  have fits: "length (contents b) \<le> writableBytes ?b1"
    by (simp add: size)
  then have "endIndex ?b1 + length (contents b) \<le> bufferSize ?b1" by (simp add: size)
  from writeAfterEnd_flat [OF inv1 fits this] obtain b' where
    b': "writeAfterEnd (contents b) ?b1 = Inr b'" "buffer_inv b'"
    "contents b' = contents ?b1 @ contents b" "bufferSize b' = bufferSize ?b1"
    "startIndex b' = 0" by auto
  have c: "contents b' = contents b" using b'(3) contents_Nil [OF empty] by simp
  have rb: "readableBytes b' = readableBytes b" by (metis c length_contents)
  moreover have "\<not> isFull b'"
    using rb small b'(4) size by (auto simp: readableBytes_def)
  moreover have "endIndex b' = readableBytes b"
    using calculation b'(5) by (simp add: readableBytes_def split: if_splits)
  ultimately show ?thesis
    using b' c size
    by (simp add: makeSpace.simps retrieveAsString_contents [OF inv] append_fits [OF fits, unfolded size])
qed

lemma append_contents_aux:
  assumes inv: "buffer_inv b" and ok: "append_ok data b"
  shows "\<exists>b'. append data b = Inr b' \<and> buffer_inv b' \<and> contents b' = contents b @ data
    \<and> bufferSize b' = max (bufferSize b) (readableBytes b + length data)
    \<and> (writableBytes b < length data \<longrightarrow> startIndex b' = 0)"
proof (cases "writableBytes b < length data")
  case True
  from makeSpace_contents [OF inv True] obtain b1 where
    b1: "makeSpace (length data) b = Inr b1" "buffer_inv b1" "contents b1 = contents b"
    "bufferSize b1 = readableBytes b + length data" "startIndex b1 = 0"
    "endIndex b1 = readableBytes b" by blast
  have rb: "readableBytes b1 = readableBytes b" by (metis b1(3) length_contents)
  with b1(4) have "length data \<le> writableBytes b1" by (simp add: writableBytes_def)
  from writeAfterEnd_flat [OF b1(2) this] b1 True show ?thesis
    using readable_le_size [OF inv] by (auto simp: append.simps writableBytes_def)
next
  case False
  then have fits: "length data \<le> writableBytes b" by simp
  with ok have "endIndex b + length data \<le> bufferSize b" by (simp add: append_ok_def)
  from writeAfterEnd_flat [OF inv fits this] fits show ?thesis
    using readable_le_size [OF inv] by (auto simp: append_fits writableBytes_def)
qed

interpretation buffer_queue: byte_queue contents buffer_inv append retrieve append_ok retrieve_ok
proof unfold_locales
  fix b xs assume "buffer_inv b" "append_ok xs b"
  then show "\<exists>b'. append xs b = Inr b' \<and> buffer_inv b' \<and> contents b' = contents b @ xs"
    using append_contents_aux by blast
next
  fix b n assume "buffer_inv b" "n \<le> length (contents b)" "retrieve_ok n b"
  then show "\<exists>b'. retrieve n b = Inr b' \<and> buffer_inv b' \<and> contents b' = drop n (contents b)"
    using retrieve_contents by simp
next
  fix b n assume "buffer_inv b" "length (contents b) < n"
  then show "\<exists>e. retrieve n b = Inl e"
    using retrieve_too_much by simp
qed

text \<open>An append that has to make space leaves a buffer that is exactly full.\<close>

lemma append_grown_full:
  assumes inv: "buffer_inv b" and small: "writableBytes b < length data"
    and run: "append data b = Inr b'"
  shows "isFull b' \<and> startIndex b' = 0 \<and> bufferSize b' = readableBytes b + length data \<and> 
     readableBytes b' = bufferSize b' \<and> buffer_inv b'"
proof -
  from append_contents_aux [OF inv, of data] small run
  have b': "buffer_inv b'" "contents b' = contents b @ data" "startIndex b' = 0"
    "bufferSize b' = max (bufferSize b) (readableBytes b + length data)"
    by (auto simp: append_ok_def)
  then have rb: "readableBytes b' = readableBytes b + length data"
    by (metis length_append length_contents)
  have sz: "bufferSize b' = readableBytes b + length data"
    using b'(4) small readable_le_size [OF inv] by (simp add: writableBytes_def)
  have "isFull b'" using readable_less_size [OF b'(1)] rb sz by auto
  with b' rb sz show ?thesis by simp
qed

section \<open>Taking a part out of a full buffer\<close>

text \<open>\<open>retrieve\<close> clears \<open>_isFull\<close> only when the indices meet, so after taking a part out of a full
  buffer the flag is still set and the byte count is that of the full buffer.\<close>

lemma retrieve_part_of_full:
  assumes inv: "buffer_inv b" and full: "isFull b" and n: "0 < n" "n < bufferSize b"
    and run: "retrieve n b = Inr b'"
  shows "isFull b' \<and> readableBytes b' = bufferSize b \<and> buf b' = buf b \<and> endIndex b' = endIndex b
    \<and> startIndex b' \<noteq> endIndex b' \<and> startIndex b' = (startIndex b + n) mod bufferSize b"
  using assms
  by (auto simp: retrieve_def Let_def result_simps buffer_inv_def readableBytes_def bufferSize_def
      mod_once split: if_splits)

lemma stuck_append_fails:
  assumes start: "0 < startIndex b" "startIndex b < bufferSize b" and e: "endIndex b = 0"
    and full: "isFull b" and data: "data \<noteq> []"
  shows "append data b = Inl (AssertFail ''readable == readableBytes()'')"
proof -
  let ?len = "length data"
  have none: "writableBytes b = 0" using full by (simp add: writableBytes_def readableBytes_def)
  have out: "retrieveAsString b = Inr (drop (startIndex b) (buf b), retrieveAll b)"
    using start e by (simp add: retrieveAsString_def peek_bytes_def begin_bytes_def read_at_def bufferSize_def)
  let ?b1 = "resize (grown_size ?len b) (retrieveAll b)"
  let ?out = "drop (startIndex b) (buf b)"
  have inv1: "buffer_inv ?b1" using start none by (simp add: buffer_inv_def grown_size_def)
  have empty: "readableBytes ?b1 = 0" by simp
  have fits: "length ?out \<le> writableBytes ?b1"
    using none by (simp add: grown_size_def bufferSize_def)
  then have "endIndex ?b1 + length ?out \<le> bufferSize ?b1" by simp
  from writeAfterEnd_flat [OF inv1 fits this] obtain b2 where
    b2: "writeAfterEnd ?out ?b1 = Inr b2" "contents b2 = contents ?b1 @ ?out" by auto
  then have "readableBytes b2 = bufferSize b - startIndex b"
    using contents_Nil [OF empty] by (metis append_Nil bufferSize_def length_contents length_drop)
  moreover have "readableBytes b = bufferSize b" using full by (simp add: readableBytes_def)
  ultimately have "makeSpace ?len b = Inl (AssertFail ''readable == readableBytes()'')"
    using out b2(1) start by (simp add: makeSpace.simps append_fits [OF fits])
  then show ?thesis using none data by (simp add: append.simps)
qed

section \<open>Descriptor transfers\<close>

text \<open>The bytes \<open>writeFd\<close> hands to the kernel: all of the content, or its part before the end of
  the vector.\<close>

definition offered :: "buffer \<Rightarrow> string" where
  "offered b = (if startIndex b < endIndex b then contents b else drop (startIndex b) (buf b))"

lemma writeFd_offered:
  assumes inv: "buffer_inv b" and some: "contents b \<noteq> []"
  shows "writeFd fd b w = Inr (size_t_of (ret (os w (length (calls w)))),
      w\<lparr>calls := calls w @ [(SysWrite fd (offered b), os w (length (calls w)))]\<rparr>)"
    and "\<exists>rest. contents b = offered b @ rest" and "offered b \<noteq> []"
proof -
  have ne: "\<not> isEmpty b" using some by (simp add: isEmpty_iff [OF inv])
  have peek: "(if startIndex b < endIndex b then peek_bytes (readableBytes b) b
      else peek_bytes (bufferSize b - startIndex b) b) = Inr (offered b)"
    using inv by (auto simp: offered_def contents_pieces [OF inv] peek_bytes_def read_at_def
        buffer_inv_def readableBytes_def bufferSize_def)
  show "writeFd fd b w = Inr (size_t_of (ret (os w (length (calls w)))),
      w\<lparr>calls := calls w @ [(SysWrite fd (offered b), os w (length (calls w)))]\<rparr>)"
    by (simp add: writeFd_def ne peek do_call_def Let_def)
  show "\<exists>rest. contents b = offered b @ rest"
  proof (cases "startIndex b < endIndex b")
    case False
    with ne have "contents b = offered b @ take (endIndex b) (buf b)"
      by (auto simp: contents_pieces [OF inv] isEmpty_def offered_def)
    then show ?thesis by blast
  qed (simp add: offered_def)
  show "offered b \<noteq> []"
    using inv some by (simp add: offered_def buffer_inv_def bufferSize_def)
qed

lemma writeFd_prefix:
  assumes "buffer_inv b" "contents b \<noteq> []"
  shows "\<exists>bytes rest a. contents b = bytes @ rest \<and> bytes \<noteq> [] \<and> a = os w (length (calls w))
     \<and> writeFd fd b w = Inr (size_t_of (ret a), w\<lparr>calls := calls w @ [(SysWrite fd bytes, a)]\<rparr>)"
  using writeFd_offered [OF assms] by blast

lemma readFd_contents:
  assumes inv: "buffer_inv b" and a: "a = os w (length (calls w))"
    and ok: "answer_ok (SysRead fd 65535, a)" "0 \<le> ret a" "append_ok (payload a) b"
  shows "\<exists>b'. readFd fd b w = Inr (nat (ret a), None, b', w\<lparr>calls := calls w @ [(SysRead fd 65535, a)]\<rparr>)
     \<and> buffer_inv b' \<and> contents b' = contents b @ payload a"
proof -
  from append_contents_aux [OF inv ok(3)] obtain b' where
    b': "append (payload a) b = Inr b'" "buffer_inv b'" "contents b' = contents b @ payload a" by blast
  have "size_t_of (ret a) = nat (ret a)" using ok by (intro size_t_of_nonneg) auto
  moreover have "take (nat (ret a)) (payload a) = payload a" using ok by simp
  ultimately show ?thesis using b' ok(2) a
    by (simp add: readFd_def do_call_def Let_def not_less)
qed

lemma readFd_error:
  "ret (os w (length (calls w))) < 0 \<Longrightarrow>
   readFd fd b w = Inr (size_t_of (ret (os w (length (calls w)))), Some (err (os w (length (calls w)))), b,
     w\<lparr>calls := calls w @ [(SysRead fd 65535, os w (length (calls w)))]\<rparr>)"
  by (simp add: readFd_def do_call_def Let_def)

section \<open>Properties\<close>

lemmas buffer_eval = new_buffer_def initialSize_def buffer_inv_def append_ok_def retrieve_ok_def
  bufferSize_def readableBytes_def writableBytes_def

text \<open>
  An append to a well-formed buffer whose free space is either too small (the buffer then
  grows) or not split by the physical end of the vector returns, keeps the invariant, puts
  the whole message behind the old content, and grows the vector exactly to what is needed.
\<close>

theorem append_stores_message:
  assumes "buffer_inv b" and "append_ok data b"
  shows "\<exists>b'. append data b = Inr b' \<and> buffer_inv b' \<and> contents b' = contents b @ data
    \<and> bufferSize b' = max (bufferSize b) (readableBytes b + length data)"
  using append_contents_aux [OF assms] by blast

theorem append_stores_message_witness:
  "\<exists>b'. append ''hello, world'' new_buffer = Inr b' \<and> contents b' = ''hello, world''
     \<and> bufferSize b' = 12"
proof -
  have "append_ok ''hello, world'' new_buffer" by (simp add: buffer_eval)
  from append_stores_message [OF new_buffer_inv this]
  have "\<exists>b'. append ''hello, world'' new_buffer = Inr b' \<and> contents b' = ''hello, world''
     \<and> bufferSize b' = max (bufferSize new_buffer) (readableBytes new_buffer + 12)"
    by auto
  moreover have "max (bufferSize new_buffer) (readableBytes new_buffer + 12) = 12"
    by (simp add: buffer_eval)
  ultimately show ?thesis by simp
qed

text \<open>
  C32. First in, first out: for every sequence of appends and retrieves on a fresh buffer in
  which no append is split by the end of the vector and no retrieve takes a proper part out of
  a full buffer, nothing fails, and the bytes taken out followed by the bytes left are exactly
  the bytes appended, in order.
\<close>

theorem buffer_fifo:
  assumes "guarded_ops contents append retrieve append_ok retrieve_ok ops new_buffer"
  shows "\<exists>out b'. exec_ops contents append retrieve ops new_buffer = Inr (out, b')
    \<and> buffer_inv b' \<and> out @ contents b' = concat (map input_of ops)"
  using buffer_queue.exec_conserves [OF new_buffer_inv assms] by simp

theorem buffer_fifo_witness:
  "\<exists>out b'. exec_ops contents append retrieve [Put ''hello'', Discard 3, Put ''abcde''] new_buffer
       = Inr (out, b') \<and> out @ contents b' = ''helloabcde''"
proof -
  have "guarded_ops contents append retrieve append_ok retrieve_ok
      [Put ''hello'', Discard 3, Put ''abcde''] new_buffer"
    by (simp add: buffer_eval append.simps writeAfterEnd_def copy_into_def hasWritten_def
        retrieve_def numeral_eq_Suc)
  from buffer_fifo [OF this] show ?thesis by auto
qed

text \<open>
  Round trip: whatever string is appended to a fresh buffer, of any length,
  \<open>retrieveAsString\<close> returns exactly it and leaves the buffer empty.
\<close>

theorem append_retrieveAsString:
  "\<exists>b'. append data new_buffer = Inr b' \<and> retrieveAsString b' = Inr (data, retrieveAll b')
     \<and> contents (retrieveAll b') = []"
proof -
  have "append_ok data new_buffer" by (auto simp: buffer_eval)
  from append_contents_aux [OF new_buffer_inv this]
  show ?thesis using retrieveAsString_contents by fastforce
qed

text \<open>
  C34. An append that is split by the physical end of the vector does not store the message:
  of its \<open>n\<close> bytes the last \<open>firstPart\<close> (the room left at the end of the vector) are lost, and
  bytes that were in the vector before stand in their place; when the part before the end is
  the longer one, the second copy has a reversed range and the behaviour is undefined.
\<close>

theorem wrapped_append_loses_bytes:
  assumes "buffer_inv b" and "length data \<le> writableBytes b"
    and "firstPart = bufferSize b - endIndex b" and "firstPart < length data"
  shows "if 2 * firstPart \<le> length data
    then \<exists>b'. append data b = Inr b' \<and> contents b' = contents b
           @ take (length data - firstPart) data
           @ take firstPart (drop (length data - 2 * firstPart) (buf b))
    else append data b = Inl BadRange"
  using writeAfterEnd_wrapped [OF assms(1-3)] writeAfterEnd_reversed [OF assms(1,3,4)] assms(2)
  by (auto simp: append_fits)

definition wrapped_example :: buffer where
  "wrapped_example = \<lparr>buf = ''hellohel..'', startIndex = 5, endIndex = 8, isFull = False\<rparr>"

theorem wrapped_append_loses_bytes_witness:
  "\<exists>b'. append ''LOWORLD'' wrapped_example = Inr b' \<and> contents b' = ''helLOWORlo''"
proof -
  have h: "buffer_inv wrapped_example" "length ''LOWORLD'' \<le> writableBytes wrapped_example"
    "2 = bufferSize wrapped_example - endIndex wrapped_example"
    by (simp_all add: wrapped_example_def buffer_eval)
  have "contents wrapped_example = ''hel''"
    by (simp add: wrapped_example_def contents_def buffer_eval upt_rec)
  with wrapped_append_loses_bytes [OF h] show ?thesis
    by (simp add: wrapped_example_def)
qed

text \<open>
  C33. A partial retrieve from a buffer that an append has just grown is not noticed: if more
  bytes arrive than fit, then some but not all of them are retrieved, the byte count stays that of
  the full buffer, and the next append of at least one byte fails an assertion of
  \<open>makeSpace\<close> and ends the process.
\<close>

theorem partial_retrieve_then_append_aborts:
  assumes "buffer_inv b" and "writableBytes b < length data" and "append data b = Inr b1"
    and "0 < n" and "n < readableBytes b1" and "retrieve n b1 = Inr b2" and "later \<noteq> []"
  shows "readableBytes b2 = readableBytes b1
    \<and> append later b2 = Inl (AssertFail ''readable == readableBytes()'')"
proof -
  from append_grown_full [OF assms(1-3)] have b1: "isFull b1" "startIndex b1 = 0"
    "readableBytes b1 = bufferSize b1" "buffer_inv b1" by auto
  then have "endIndex b1 = 0" by (simp add: buffer_inv_def)
  moreover from retrieve_part_of_full [OF b1(4,1) assms(4) _ assms(6)] assms(5) b1(2,3)
  have b2: "isFull b2" "readableBytes b2 = bufferSize b1" "endIndex b2 = endIndex b1"
    "startIndex b2 = n" "buf b2 = buf b1" by auto
  ultimately have "append later b2 = Inl (AssertFail ''readable == readableBytes()'')"
    using assms(4,5,7) b1(3) by (intro stuck_append_fails) (auto simp: bufferSize_def)
  with b1 b2 show ?thesis by simp
qed

theorem partial_retrieve_then_append_aborts_witness:
  "\<exists>b1 b2. append ''hello, world'' new_buffer = Inr b1 \<and> retrieve 5 b1 = Inr b2
     \<and> readableBytes b2 = 12
     \<and> append ''!'' b2 = Inl (AssertFail ''readable == readableBytes()'')"
proof -
  have small: "writableBytes new_buffer < length ''hello, world''" by (simp add: buffer_eval)
  then obtain b1 where b1: "append ''hello, world'' new_buffer = Inr b1"
    using append_contents_aux [OF new_buffer_inv, of "''hello, world''"] by (auto simp: append_ok_def)
  have r: "readableBytes b1 = 12"
    using append_grown_full [OF new_buffer_inv small b1] by (simp add: buffer_eval)
  then obtain b2 where b2: "retrieve 5 b1 = Inr b2" by (simp add: retrieve_def Let_def)
  from partial_retrieve_then_append_aborts [OF new_buffer_inv small b1 _ _ b2, of "''!''"] b1 b2 r
  show ?thesis by simp
qed

text \<open>The scenario of \<open>tests/Buffertest.cpp\<close>, with its third message as the argument.\<close>

definition Buffertest :: "string \<Rightarrow> string result" where
  "Buffertest msg =
     bindE Buffer_ctor (\<lambda>b. bindE (append ''hellohel'' b) (\<lambda>b. bindE (retrieve 5 b)
       (\<lambda>b. bindE (append msg b) (\<lambda>b. bindE (append ''test'' b)
         (\<lambda>b. bindE (retrieveAsString b) (\<lambda>(s, b). Inr s))))))"

text \<open>
  The repository's own buffer test passes by coincidence: with its message \<open>lohello\<close> the
  stale bytes happen to be the lost ones, with a message of the same length in capitals the
  last two letters are replaced by what the vector held before.
\<close>

theorem buffertest_coincidence:
  "Buffertest ''lohello'' = Inr ''hellohellotest''
   \<and> Buffertest ''LOHELLO'' = Inr ''helLOHELlotest''"
  by (simp add: Buffertest_def Buffer_ctor_returns buffer_eval append.simps makeSpace.simps
      writeAfterEnd_def copy_into_def hasWritten_def retrieve_def retrieveAsString_def peek_bytes_def
      begin_bytes_def read_at_def retrieveAll_def resize_def grown_size_def numeral_eq_Suc Let_def)

text \<open>
  A transfer to a descriptor offers the kernel a non-empty prefix of the unsent content in
  one call, never bytes that are not content, and returns the kernel's result as a \<open>size_t\<close>.
\<close>

theorem writeFd_offers_prefix:
  assumes "buffer_inv b" and "contents b \<noteq> []"
  shows "\<exists>bytes rest. contents b = bytes @ rest \<and> bytes \<noteq> []
     \<and> writeFd fd b w = Inr (size_t_of (ret (os w (length (calls w)))),
           w\<lparr>calls := calls w @ [(SysWrite fd bytes, os w (length (calls w)))]\<rparr>)"
  using writeFd_prefix [OF assms] by blast

theorem writeFd_offers_prefix_witness:
  "\<exists>bytes rest. ''hel'' = bytes @ rest \<and> bytes \<noteq> []
     \<and> writeFd 7 wrapped_example \<lparr>os = (\<lambda>n. returns 3), calls = []\<rparr>
       = Inr (3, \<lparr>os = (\<lambda>n. returns 3), calls = [(SysWrite 7 bytes, returns 3)]\<rparr>)"
proof -
  have h: "buffer_inv wrapped_example"  "contents wrapped_example = ''hel''"
    by (simp_all add: wrapped_example_def contents_def buffer_eval upt_rec)
  show ?thesis
    using writeFd_offers_prefix [OF h(1), of 7 "\<lparr>os = (\<lambda>n. returns 3), calls = []\<rparr>"] h(2)
    by (simp add: size_t_of_nonneg returns_def)
qed

end
