(* ===== verification/TcpConnection.thy ===== *)
theory TcpConnection
  imports Stream_Spec LoopProtocol Buffer
begin

text \<open>
  \<open>net/TcpConnection.h\<close> and \<open>net/TcpConnection.cpp\<close>: one accepted socket with its channel, its
  two buffers and its state. Connections are objects with identity in a store; an operation
  takes the number of the connection. The user's callbacks and the server's close callback are
  not part of this class: they are names in the record and functions in \<open>hooks\<close>, a parameter of the
  operations that call them. A call of an empty \<open>std::function\<close> is a failure.
\<close>

section \<open>The class\<close>

datatype conn_state = kConnecting | kConnected | kDisconnecting | kDisconnected

record tcp_conn =
  tc_loop :: nat
  tc_name :: string
  tc_state :: conn_state
  tc_conn :: int
  tc_channel :: nat
  tc_localAddr :: sockaddr_in
  tc_peerAddr :: sockaddr_in
  tc_connCB :: "nat option"
  tc_msgCB :: "nat option"
  tc_writeCompleteCB :: "nat option"
  tc_closeCB :: "nat option"
  tc_inputBuffer :: buffer
  tc_outputBuffer :: buffer

record net = reactor +
  conns :: "nat \<Rightarrow> tcp_conn"

text \<open>What the callbacks run: the name of the callback, the connection, the state. The message
  callback finds the buffer in the connection, and gets the receive time.\<close>

record 'w hooks =
  onConnection :: "nat \<Rightarrow> nat \<Rightarrow> 'w \<Rightarrow> 'w result"
  onMessage :: "nat \<Rightarrow> nat \<Rightarrow> timestamp \<Rightarrow> 'w \<Rightarrow> 'w result"
  onClose :: "nat \<Rightarrow> nat \<Rightarrow> 'w \<Rightarrow> 'w result"

definition set_conn :: "nat \<Rightarrow> (tcp_conn \<Rightarrow> tcp_conn) \<Rightarrow> 'a net_scheme \<Rightarrow> 'a net_scheme" where
  "set_conn i f w = w\<lparr>conns := (conns w)(i := f (conns w i))\<rparr>"

definition invoke :: "nat option \<Rightarrow> (nat \<Rightarrow> 'w \<Rightarrow> 'w result) \<Rightarrow> 'w \<Rightarrow> 'w result" where
  "invoke cb f w = (case cb of None \<Rightarrow> Inl BadFunctionCall | Some k \<Rightarrow> f k w)"

text \<open>The conversion of a \<open>size_t\<close> to \<open>ssize_t\<close>.\<close>

definition ssize_t_of :: "nat \<Rightarrow> int" where
  "ssize_t_of n = sint (word_of_nat n :: 64 word)"

text \<open>The constructor of connection \<open>i\<close>, whose channel is \<open>c\<close>.\<close>

definition TcpConnection_ctor ::
  "nat \<Rightarrow> nat \<Rightarrow> nat \<Rightarrow> string \<Rightarrow> int \<Rightarrow> sockaddr_in \<Rightarrow> sockaddr_in
    \<Rightarrow> 'a net_scheme \<Rightarrow> 'a net_scheme result" where
  "TcpConnection_ctor i c loop name connfd localAddr peerAddr w =
     bindE Buffer_ctor (\<lambda>bi. bindE Buffer_ctor (\<lambda>bo.
       let conn = \<lparr>tc_loop = loop, tc_name = name, tc_state = kConnecting, tc_conn = connfd,
                   tc_channel = c, tc_localAddr = localAddr, tc_peerAddr = peerAddr,
                   tc_connCB = None, tc_msgCB = None, tc_writeCompleteCB = None,
                   tc_closeCB = None, tc_inputBuffer = bi, tc_outputBuffer = bo\<rparr>;
           ch = Channel_setErrorCallback (ConnHandleError i) (Channel_setCloseCallback (ConnHandleClose i)
                  (Channel_setWriteCallback (ConnHandleWrite i) (Channel_setReadCallback (ConnHandleRead i)
                    (Channel_ctor loop connfd))))
       in Inr (w\<lparr>conns := (conns w)(i := conn), chans := (chans w)(c := ch)\<rparr>)))"

text \<open>The destructor has an empty body; of the members, \<open>_channel\<close> is destroyed before \<open>_conn\<close>.\<close>

definition TcpConnection_dtor :: "nat \<Rightarrow> 'a net_scheme \<Rightarrow> 'a net_scheme result" where
  "TcpConnection_dtor i w =
     bindE (Channel_dtor (chans w (tc_channel (conns w i)))) (\<lambda>_.
       FileDescriptor_close (tc_conn (conns w i)) w)"

definition connected :: "nat \<Rightarrow> 'a net_scheme \<Rightarrow> bool" where
  "connected i w \<longleftrightarrow> tc_state (conns w i) = kConnected"

definition setState :: "nat \<Rightarrow> conn_state \<Rightarrow> 'a net_scheme \<Rightarrow> 'a net_scheme" where
  "setState i s w = set_conn i (tc_state_update (\<lambda>_. s)) w"

text \<open>The setters of the callbacks: an empty \<open>std::function\<close> may be passed on.\<close>

definition TcpConnection_setConnectionCallback :: "nat option \<Rightarrow> tcp_conn \<Rightarrow> tcp_conn" where
  [simp]: "TcpConnection_setConnectionCallback cb cn = cn\<lparr>tc_connCB := cb\<rparr>"

definition TcpConnection_setMessageCallback :: "nat option \<Rightarrow> tcp_conn \<Rightarrow> tcp_conn" where
  [simp]: "TcpConnection_setMessageCallback cb cn = cn\<lparr>tc_msgCB := cb\<rparr>"

definition TcpConnection_setWriteCompleteCallback :: "nat option \<Rightarrow> tcp_conn \<Rightarrow> tcp_conn" where
  [simp]: "TcpConnection_setWriteCompleteCallback cb cn = cn\<lparr>tc_writeCompleteCB := cb\<rparr>"

definition TcpConnection_setCloseCallback :: "nat option \<Rightarrow> tcp_conn \<Rightarrow> tcp_conn" where
  [simp]: "TcpConnection_setCloseCallback cb cn = cn\<lparr>tc_closeCB := cb\<rparr>"

section \<open>Sending and shutting down\<close>

text \<open>\<open>if(_writeCompleteCB) _loop->queueInLoop(...)\<close>.\<close>

definition queue_write_complete :: "nat \<Rightarrow> 'a net_scheme \<Rightarrow> 'a net_scheme result" where
  "queue_write_complete i w =
     (case tc_writeCompleteCB (conns w i) of
        None \<Rightarrow> Inr w
      | Some k \<Rightarrow> queueInLoop (tc_loop (conns w i)) (WriteCompleteCB k i) w)"

text \<open>The direct write of \<open>sendInLoop\<close>: \<open>nwrote\<close> and the state.\<close>

definition try_write :: "nat \<Rightarrow> string \<Rightarrow> 'a net_scheme \<Rightarrow> (int \<times> 'a net_scheme) result" where
  "try_write i message w =
     (let ch = chans w (tc_channel (conns w i)) in
      if \<not> isWriting ch \<and> readableBytes (tc_outputBuffer (conns w i)) = 0 then
        let (a, w) = do_call (SysWrite (ch_fd ch) message) w; nwrote = ret a in
        if nwrote \<ge> 0 then
          if nat nwrote < length message then Inr (nwrote, w)
          else bindE (queue_write_complete i w) (\<lambda>w. Inr (nwrote, w))
        else if err a \<noteq> EWOULDBLOCK then Inl Abort
        else Inr (0, w)
      else Inr (0, w))"

definition sendInLoop :: "nat \<Rightarrow> string \<Rightarrow> 'a net_scheme \<Rightarrow> 'a net_scheme result" where
  "sendInLoop i message w =
     assert_that ''_loop->isInLoopThread()'' (isInLoopThread (tc_loop (conns w i)) w)
      (bindE (try_write i message w) (\<lambda>(nwrote, w).
        assert_that ''nwrote >= 0'' (nwrote \<ge> 0)
         (if nat nwrote < length message then
            bindE (append (drop (nat nwrote) message) (tc_outputBuffer (conns w i))) (\<lambda>b.
              let w = set_conn i (tc_outputBuffer_update (\<lambda>_. b)) w; c = tc_channel (conns w i)
              in if \<not> isWriting (chans w c) then Channel_enableWriting c w else Inr w)
          else Inr w)))"

definition TcpConnection_send :: "nat \<Rightarrow> string \<Rightarrow> 'a net_scheme \<Rightarrow> 'a net_scheme result" where
  "TcpConnection_send i message w =
     (if tc_state (conns w i) = kConnected then
        if isInLoopThread (tc_loop (conns w i)) w then sendInLoop i message w
        else runInLoop (tc_loop (conns w i)) (SendInLoop i message) (sendInLoop i message) w
      else Inr w)"

definition shutDownInLoop :: "nat \<Rightarrow> 'a net_scheme \<Rightarrow> 'a net_scheme result" where
  "shutDownInLoop i w =
     assert_that ''_loop->isInLoopThread()'' (isInLoopThread (tc_loop (conns w i)) w)
      (if \<not> isWriting (chans w (tc_channel (conns w i))) then
         let (a, w) = do_call (SysShutdownWr (tc_conn (conns w i))) w
         in assert_that ''shutdown >= 0'' (ret a \<ge> 0) (Inr w)
       else Inr w)"

definition TcpConnection_shutdown :: "nat \<Rightarrow> 'a net_scheme \<Rightarrow> 'a net_scheme result" where
  "TcpConnection_shutdown i w =
     (if tc_state (conns w i) = kConnected then
        let w = setState i kDisconnecting w
        in runInLoop (tc_loop (conns w i)) (ShutDownInLoop i) (shutDownInLoop i) w
      else Inr w)"

definition setTcpNoDelay :: "nat \<Rightarrow> bool \<Rightarrow> 'a net_scheme \<Rightarrow> 'a net_scheme" where
  "setTcpNoDelay i on w =
     snd (do_call (SysSetsockopt (tc_conn (conns w i)) ''TCP_NODELAY'' (if on then 1 else 0)) w)"

section \<open>The handlers of the channel\<close>

definition handleClose :: "'a net_scheme hooks \<Rightarrow> nat \<Rightarrow> 'a net_scheme \<Rightarrow> 'a net_scheme result" where
  "handleClose H i w =
     assert_that ''_loop->isInLoopThread()'' (isInLoopThread (tc_loop (conns w i)) w)
      (assert_that ''_state == kConnected || _state == kDisconnecting''
        (tc_state (conns w i) = kConnected \<or> tc_state (conns w i) = kDisconnecting)
        (bindE (Channel_disableAll (tc_channel (conns w i)) w)
          (\<lambda>w. invoke (tc_closeCB (conns w i)) (\<lambda>k. onClose H k i) w)))"

definition handleError :: "nat \<Rightarrow> 'a net_scheme \<Rightarrow> 'a net_scheme result" where
  "handleError i w =
     (let (e, w) = Socket_getSocketErr (ch_fd (chans w (tc_channel (conns w i)))) w in Inl Abort)"

definition handleRead ::
  "'a net_scheme hooks \<Rightarrow> nat \<Rightarrow> timestamp \<Rightarrow> 'a net_scheme \<Rightarrow> 'a net_scheme result" where
  "handleRead H i receiveTime w =
     bindE (readFd (ch_fd (chans w (tc_channel (conns w i)))) (tc_inputBuffer (conns w i)) w)
      (\<lambda>(r, savedErrno, b, w).
        let w = set_conn i (tc_inputBuffer_update (\<lambda>_. b)) w; n = ssize_t_of r in
        if n > 0 then invoke (tc_msgCB (conns w i)) (\<lambda>k. onMessage H k i receiveTime) w
        else if n = 0 then handleClose H i w
        else handleError i w)"

definition handleWrite :: "nat \<Rightarrow> 'a net_scheme \<Rightarrow> 'a net_scheme result" where
  "handleWrite i w =
     assert_that ''_loop->isInLoopThread()'' (isInLoopThread (tc_loop (conns w i)) w)
      (let c = tc_channel (conns w i) in
       if isWriting (chans w c) then
         bindE (writeFd (ch_fd (chans w c)) (tc_outputBuffer (conns w i)) w) (\<lambda>(n, w).
           if n > 0 then
             bindE (retrieve n (tc_outputBuffer (conns w i))) (\<lambda>b.
               let w = set_conn i (tc_outputBuffer_update (\<lambda>_. b)) w in
               if readableBytes b = 0 then
                 bindE (Channel_disableWriting c w) (\<lambda>w.
                   bindE (queue_write_complete i w) (\<lambda>w.
                     if tc_state (conns w i) = kDisconnecting then shutDownInLoop i w else Inr w))
               else Inr w)
           else Inl Abort)
       else Inr w)"

section \<open>Establishment and destruction\<close>

definition connectEstablished ::
  "'a net_scheme hooks \<Rightarrow> nat \<Rightarrow> 'a net_scheme \<Rightarrow> 'a net_scheme result" where
  "connectEstablished H i w =
     assert_that ''_loop->isInLoopThread()'' (isInLoopThread (tc_loop (conns w i)) w)
      (assert_that ''_state == kConnecting'' (tc_state (conns w i) = kConnecting)
        (bindE (Channel_enableReading (tc_channel (conns w i)) (setState i kConnected w))
          (\<lambda>w. invoke (tc_connCB (conns w i)) (\<lambda>k. onConnection H k i) w)))"

definition connectDestroyed ::
  "'a net_scheme hooks \<Rightarrow> nat \<Rightarrow> 'a net_scheme \<Rightarrow> 'a net_scheme result" where
  "connectDestroyed H i w =
     assert_that ''_loop->isInLoopThread()'' (isInLoopThread (tc_loop (conns w i)) w)
      (assert_that ''_state == kConnected || _state == kDisconnecting''
        (tc_state (conns w i) = kConnected \<or> tc_state (conns w i) = kDisconnecting)
        (bindE (Channel_disableAll (tc_channel (conns w i)) (setState i kDisconnected w))
          (\<lambda>w. bindE (invoke (tc_connCB (conns w i)) (\<lambda>k. onConnection H k i) w)
            (\<lambda>w. EventLoop_removeChannel (tc_loop (conns w i)) (tc_channel (conns w i)) w))))"

section \<open>Facts about the state\<close>

lemma conns_frame [simp]:
  "conns (set_loop l f w) = conns w" "conns (set_chan c g w) = conns w"
  "conns (entered c p k w) = conns w"
  by (simp_all add: set_loop_def set_chan_def entered_def)

lemma set_conn_simps [simp]:
  "conns (set_conn i f w) = (conns w)(i := f (conns w i))"
  "loops (set_conn i f w) = loops w" "chans (set_conn i f w) = chans w"
  "cur_thread (set_conn i f w) = cur_thread w" "calls (set_conn i f w) = calls w"
  "os (set_conn i f w) = os w" "t_loop (set_conn i f w) = t_loop w"
  by (simp_all add: set_conn_def)

lemma state_preds_frame [simp]:
  "isInLoopThread l (set_conn i f w) = isInLoopThread l w"
  "isInLoopThread l (w\<lparr>calls := log\<rparr>) = isInLoopThread l w"
  "reactor_inv (set_conn i f w) = reactor_inv w"
  "reactor_inv (w\<lparr>calls := log\<rparr>) = reactor_inv w"
  "may_update c (set_conn i f w) = may_update c w"
  "may_update c (w\<lparr>calls := log\<rparr>) = may_update c w"
  by (simp_all add: isInLoopThread_def reactor_inv_def may_update_def own_poller_def)

definition shuts :: "int \<Rightarrow> (syscall \<times> answer) list \<Rightarrow> bool" where
  "shuts fd log \<longleftrightarrow> SysShutdownWr fd \<in> fst ` set log"

lemma shuts_simps [simp]:
  "\<not> shuts fd []" "shuts fd (log @ log') \<longleftrightarrow> shuts fd log \<or> shuts fd log'"
  "shuts fd (ca # log) \<longleftrightarrow> fst ca = SysShutdownWr fd \<or> shuts fd log"
  by (auto simp: shuts_def)

text \<open>What holds of a connection while its loop's thread works on it: the pollers agree with the
  channels, the channel is the connection's own, the buffers are well formed, and the channel
  waits for writability exactly when bytes are queued.\<close>

definition conn_inv :: "nat \<Rightarrow> 'a net_scheme \<Rightarrow> bool" where
  "conn_inv i w \<longleftrightarrow> reactor_inv w \<and> may_update (tc_channel (conns w i)) w
     \<and> ch_loop (chans w (tc_channel (conns w i))) = tc_loop (conns w i)
     \<and> ch_fd (chans w (tc_channel (conns w i))) = tc_conn (conns w i)
     \<and> wakeupFd (loops w (tc_loop (conns w i))) \<noteq> tc_conn (conns w i)
     \<and> buffer_inv (tc_inputBuffer (conns w i)) \<and> buffer_inv (tc_outputBuffer (conns w i))
     \<and> (isWriting (chans w (tc_channel (conns w i))) \<longleftrightarrow> contents (tc_outputBuffer (conns w i)) \<noteq> [])"

lemma conn_invD:
  assumes "conn_inv i w"
  shows "reactor_inv w" "may_update (tc_channel (conns w i)) w"
    "ch_loop (chans w (tc_channel (conns w i))) = tc_loop (conns w i)"
    "ch_fd (chans w (tc_channel (conns w i))) = tc_conn (conns w i)"
    "wakeupFd (loops w (tc_loop (conns w i))) \<noteq> tc_conn (conns w i)"
    "buffer_inv (tc_inputBuffer (conns w i))" "buffer_inv (tc_outputBuffer (conns w i))"
    "isWriting (chans w (tc_channel (conns w i))) \<longleftrightarrow> contents (tc_outputBuffer (conns w i)) \<noteq> []"
    "isInLoopThread (tc_loop (conns w i)) w"
  using assms by (auto simp: conn_inv_def may_update_def)

text \<open>The connection's stream: what was sent, then what waits in the output buffer.\<close>

definition conn_stream :: "nat \<Rightarrow> 'a net_scheme \<Rightarrow> string" where
  "conn_stream i w = sent_on (tc_conn (conns w i)) (calls w) @ contents (tc_outputBuffer (conns w i))"

lemma queueInLoop_quiet:
  assumes own: "isInLoopThread l w"
    and ok: "callingPendingFunctors (loops w l) \<Longrightarrow> ret (os w (length (calls w))) = 8"
  shows "\<exists>log. queueInLoop l f w = Inr ((set_loop l (pendingFunctors_update (\<lambda>fs. fs @ [f])) w)\<lparr>calls := calls w @ log\<rparr>)
     \<and> fst ` set log \<subseteq> {SysWrite (wakeupFd (loops w l)) one_bytes}
     \<and> length log = (if callingPendingFunctors (loops w l) then 1 else 0)"
proof (cases "callingPendingFunctors (loops w l)")
  case True
  then show ?thesis using own ok
    by (intro exI [of _ "[(SysWrite (wakeupFd (loops w l)) one_bytes, os w (length (calls w)))]"])
      (simp add: queueInLoop_def wakeup_def do_call_def Let_def)
next
  case False
  let ?w = "set_loop l (pendingFunctors_update (\<lambda>fs. fs @ [f])) w"
  have "queueInLoop l f w = Inr ?w" using own False by (simp add: queueInLoop_def)
  moreover have "?w\<lparr>calls := calls w @ []\<rparr> = ?w" by (simp add: set_loop_def)
  ultimately show ?thesis using False by (intro exI [of _ "[]"]) simp
qed

lemma sent_on_append: "sent_on fd (log @ log') = sent_on fd log @ sent_on fd log'"
  by (simp add: sent_on_def)

lemma sent_on_other:
  assumes "fst ` set log \<subseteq> {SysWrite fd' bytes}" "fd' \<noteq> fd"
  shows "sent_on fd log = []" "\<not> shuts fd log"
proof -
  have t: "taken_by fd ca = []" if "ca \<in> set log" for ca
  proof -
    obtain c a where ca: "ca = (c, a)" by (cases ca)
    with that assms(1) have "c = SysWrite fd' bytes" by force
    with ca assms(2) show ?thesis by simp
  qed
  then show "sent_on fd log = []" by (simp add: sent_on_def concat_eq_Nil_conv)
  show "\<not> shuts fd log" using assms(1) by (auto simp: shuts_def)
qed

text \<open>The eventfd takes the wake-up of a queued write-complete callback.\<close>

definition wakes :: "nat \<Rightarrow> 'a net_scheme \<Rightarrow> bool" where
  "wakes i w \<longleftrightarrow> tc_writeCompleteCB (conns w i) \<noteq> None \<and> callingPendingFunctors (loops w (tc_loop (conns w i)))"

lemma queue_write_complete_quiet:
  assumes inv: "conn_inv i w" and ok: "wakes i w \<Longrightarrow> ret (os w (length (calls w))) = 8"
  shows "\<exists>w'. queue_write_complete i w = Inr w' \<and> conn_inv i w' \<and> conns w' = conns w \<and> chans w' = chans w
     \<and> os w' = os w \<and> length (calls w') = length (calls w) + (if wakes i w then 1 else 0)
     \<and> sent_on (tc_conn (conns w i)) (calls w') = sent_on (tc_conn (conns w i)) (calls w)
     \<and> shuts (tc_conn (conns w i)) (calls w') = shuts (tc_conn (conns w i)) (calls w)
     \<and> pendingFunctors (loops w' (tc_loop (conns w i))) = pendingFunctors (loops w (tc_loop (conns w i))) @
         (case tc_writeCompleteCB (conns w i) of None \<Rightarrow> [] | Some k \<Rightarrow> [WriteCompleteCB k i])"
proof (cases "tc_writeCompleteCB (conns w i)")
  case None
  then show ?thesis using inv by (simp add: queue_write_complete_def wakes_def)
next
  case (Some k)
  let ?l = "tc_loop (conns w i)" and ?fd = "tc_conn (conns w i)"
  have "callingPendingFunctors (loops w ?l) \<Longrightarrow> ret (os w (length (calls w))) = 8"
    using ok Some by (simp add: wakes_def)
  from queueInLoop_quiet [OF conn_invD(9) [OF inv] this, of "WriteCompleteCB k i"] obtain log where
    run: "queueInLoop ?l (WriteCompleteCB k i) w =
        Inr ((set_loop ?l (pendingFunctors_update (\<lambda>fs. fs @ [WriteCompleteCB k i])) w)\<lparr>calls := calls w @ log\<rparr>)"
    and log: "fst ` set log \<subseteq> {SysWrite (wakeupFd (loops w ?l)) one_bytes}"
      "length log = (if callingPendingFunctors (loops w ?l) then 1 else 0)" by blast
  let ?w = "(set_loop ?l (pendingFunctors_update (\<lambda>fs. fs @ [WriteCompleteCB k i])) w)\<lparr>calls := calls w @ log\<rparr>"
  note quiet = sent_on_other [OF log(1) conn_invD(5) [OF inv]]
  have "conn_inv i ?w" using inv
    by (auto simp: conn_inv_def may_update_def own_poller_def intro!: reactor_inv_set_loop)
  then show ?thesis using run quiet log(2) Some
    by (simp add: queue_write_complete_def sent_on_append wakes_def)
qed

section \<open>Sending\<close>

definition sent_at_once :: "nat \<Rightarrow> 'a net_scheme \<Rightarrow> nat" where
  "sent_at_once i w =
     (if isWriting (chans w (tc_channel (conns w i))) then 0 else nat (ret (os w (length (calls w)))))"

text \<open>The kernel's answers to the calls of \<open>sendInLoop\<close> are documented ones other than an error, and
  the unsent rest fits into the output buffer without being split.\<close>

definition send_ok :: "nat \<Rightarrow> string \<Rightarrow> 'a net_scheme \<Rightarrow> bool" where
  "send_ok i m w \<longleftrightarrow>
     (\<not> isWriting (chans w (tc_channel (conns w i))) \<longrightarrow>
        answer_ok (SysWrite (tc_conn (conns w i)) m, os w (length (calls w)))
        \<and> (ret (os w (length (calls w))) < 0 \<longrightarrow> err (os w (length (calls w))) = EWOULDBLOCK)
        \<and> (wakes i w \<and> ret (os w (length (calls w))) = int (length m) \<longrightarrow>
             ret (os w (Suc (length (calls w)))) = 8))
     \<and> append_ok (drop (sent_at_once i w) m) (tc_outputBuffer (conns w i))"

lemma conn_inv_calls: "conn_inv i (w\<lparr>calls := log\<rparr>) = conn_inv i w"
  by (simp add: conn_inv_def)

lemma wakes_calls [simp]: "wakes i (w\<lparr>calls := log\<rparr>) = wakes i w"
  by (simp add: wakes_def)

lemma try_write_returns:
  assumes inv: "conn_inv i w" and ok: "send_ok i m w"
  shows "\<exists>w'. try_write i m w = Inr (int (sent_at_once i w), w') \<and> conn_inv i w' \<and> conns w' = conns w
     \<and> chans w' = chans w \<and> sent_at_once i w \<le> length m
     \<and> sent_on (tc_conn (conns w i)) (calls w') = sent_on (tc_conn (conns w i)) (calls w) @ take (sent_at_once i w) m
     \<and> shuts (tc_conn (conns w i)) (calls w') = shuts (tc_conn (conns w i)) (calls w)
     \<and> os w' = os w \<and> (\<not> sent_at_once i w = length m \<longrightarrow> length (calls w') =
          length (calls w) + (if isWriting (chans w (tc_channel (conns w i))) then 0 else 1))"
proof (cases "isWriting (chans w (tc_channel (conns w i)))")
  case True
  then show ?thesis using inv by (simp add: try_write_def sent_at_once_def)
next
  case False
  let ?a = "os w (length (calls w))" and ?fd = "tc_conn (conns w i)"
  let ?w = "w\<lparr>calls := calls w @ [(SysWrite ?fd m, ?a)]\<rparr>"
  note D = conn_invD [OF inv]
  have k: "sent_at_once i w = nat (ret ?a)" using False by (simp add: sent_at_once_def)
  have a: "ret ?a = - 1 \<or> 0 \<le> ret ?a \<and> ret ?a \<le> int (length m)" "ret ?a < 0 \<longrightarrow> err ?a = EWOULDBLOCK"
    using ok False by (simp_all add: send_ok_def)
  have empty: "readableBytes (tc_outputBuffer (conns w i)) = 0"
    using D(8) False length_contents by (metis list.size(3))
  have inv': "conn_inv i ?w" using inv by (simp add: conn_inv_calls)
  have eq: "try_write i m w =
      (if ret ?a \<ge> 0 then
         if nat (ret ?a) < length m then Inr (ret ?a, ?w)
         else bindE (queue_write_complete i ?w) (\<lambda>w. Inr (ret ?a, w))
       else if err ?a \<noteq> EWOULDBLOCK then Inl Abort else Inr (0, ?w))"
    using False empty D(4) by (simp add: try_write_def do_call_def Let_def)
  show ?thesis
  proof (cases "ret ?a < int (length m)")
    case True
    then show ?thesis using a inv' False by (auto simp: eq k)
  next
    case full: False
    then have "ret ?a = int (length m)" using a by auto
    with ok False have "wakes i ?w \<Longrightarrow> ret (os ?w (length (calls ?w))) = 8" by (simp add: send_ok_def)
    from queue_write_complete_quiet [OF inv' this] \<open>ret ?a = _\<close> show ?thesis
      by (auto simp: eq k)
  qed
qed

definition queue_rest :: "nat \<Rightarrow> string \<Rightarrow> 'a net_scheme \<Rightarrow> 'a net_scheme result" where
  "queue_rest i r w =
     bindE (append r (tc_outputBuffer (conns w i))) (\<lambda>b.
       let w = set_conn i (tc_outputBuffer_update (\<lambda>_. b)) w; c = tc_channel (conns w i)
       in if \<not> isWriting (chans w c) then Channel_enableWriting c w else Inr w)"

lemma queue_rest_returns:
  assumes inv: "conn_inv i w" and ok: "append_ok r (tc_outputBuffer (conns w i))" and r: "r \<noteq> []"
  shows "\<exists>w' b. queue_rest i r w = Inr w' \<and> conn_inv i w' \<and> calls w' = calls w \<and> os w' = os w
     \<and> conns w' = (conns w)(i := (conns w i)\<lparr>tc_outputBuffer := b\<rparr>)
     \<and> append r (tc_outputBuffer (conns w i)) = Inr b
     \<and> contents b = contents (tc_outputBuffer (conns w i)) @ r"
proof -
  let ?c = "tc_channel (conns w i)"
  note D = conn_invD [OF inv]
  from append_contents_aux [OF D(7) ok] obtain b where
    b: "append r (tc_outputBuffer (conns w i)) = Inr b" "buffer_inv b"
    "contents b = contents (tc_outputBuffer (conns w i)) @ r" by blast
  let ?w = "set_conn i (tc_outputBuffer_update (\<lambda>_. b)) w"
  show ?thesis
  proof (cases "isWriting (chans w ?c)")
    case True
    have "conn_inv i ?w" using inv b r True by (auto simp: conn_inv_def)
    then show ?thesis using b True
      by (intro exI [of _ ?w] exI [of _ b]) (simp add: queue_rest_def)
  next
    case False
    have "reactor_inv ?w" "may_update ?c ?w" using D by simp_all
    from Channel_mask_entered [OF this, of EnableWriting] obtain p k where
      e: "Channel_enableWriting ?c ?w = Inr (entered ?c p k (set_chan ?c (apply_mask EnableWriting) ?w))"
      "reactor_inv (entered ?c p k (set_chan ?c (apply_mask EnableWriting) ?w))"
      "may_update ?c (entered ?c p k (set_chan ?c (apply_mask EnableWriting) ?w))"
      by (auto simp: channel_ops_mask)
    let ?w' = "entered ?c p k (set_chan ?c (apply_mask EnableWriting) ?w)"
    have wr: "isWriting ((add_writing ch)\<lparr>ch_index := k\<rparr>)" for ch
      using isWriting_simps(1) [of ch] by (simp add: isWriting_def)
    have "conn_inv i ?w'"
      unfolding conn_inv_def using D e b r by (simp add: wr mask_defs) (simp add: wr mask_defs [symmetric])
    then show ?thesis using b False e(1)
      by (intro exI [of _ ?w'] exI [of _ b]) (simp add: queue_rest_def)
  qed
qed

lemma sendInLoop_returns:
  assumes inv: "conn_inv i w" and ok: "send_ok i m w"
  shows "\<exists>w' b. sendInLoop i m w = Inr w' \<and> conn_inv i w' \<and> conn_stream i w' = conn_stream i w @ m
     \<and> conns w' = (conns w)(i := (conns w i)\<lparr>tc_outputBuffer := b\<rparr>)
     \<and> contents b = contents (tc_outputBuffer (conns w i)) @ drop (sent_at_once i w) m
     \<and> (sent_at_once i w < length m \<longrightarrow>
          append (drop (sent_at_once i w) m) (tc_outputBuffer (conns w i)) = Inr b)
     \<and> shuts (tc_conn (conns w i)) (calls w') = shuts (tc_conn (conns w i)) (calls w)
     \<and> os w' = os w \<and> (\<not> sent_at_once i w = length m \<longrightarrow> length (calls w') =
          length (calls w) + (if isWriting (chans w (tc_channel (conns w i))) then 0 else 1))"
proof -
  let ?k = "sent_at_once i w" and ?out = "tc_outputBuffer (conns w i)"
  from try_write_returns [OF inv ok] obtain w1 where
    w1: "try_write i m w = Inr (int ?k, w1)" "conn_inv i w1" "conns w1 = conns w" "?k \<le> length m"
    "sent_on (tc_conn (conns w i)) (calls w1) = sent_on (tc_conn (conns w i)) (calls w) @ take ?k m"
    "shuts (tc_conn (conns w i)) (calls w1) = shuts (tc_conn (conns w i)) (calls w)" "os w1 = os w"
    "?k \<noteq> length m \<longrightarrow> length (calls w1) = length (calls w) + (if isWriting (chans w (tc_channel (conns w i))) then 0 else 1)"
    by blast
  have run: "sendInLoop i m w = (if ?k < length m then queue_rest i (drop ?k m) w1 else Inr w1)"
    using w1(1) conn_invD(9) [OF inv] by (simp add: sendInLoop_def queue_rest_def)
  have nowr: "contents ?out = []" if "0 < ?k"
    using that conn_invD(8) [OF inv] by (auto simp: sent_at_once_def split: if_splits)
  show ?thesis
  proof (cases "?k < length m")
    case True
    have "append_ok (drop ?k m) (tc_outputBuffer (conns w1 i))" using ok w1(3) by (simp add: send_ok_def)
    from queue_rest_returns [OF w1(2) this] True w1(3) obtain w' b where
      w': "queue_rest i (drop ?k m) w1 = Inr w'" "conn_inv i w'" "calls w' = calls w1"
      "conns w' = (conns w)(i := (conns w i)\<lparr>tc_outputBuffer := b\<rparr>)"
      "contents b = contents ?out @ drop ?k m" "append (drop ?k m) ?out = Inr b" "os w' = os w1" by auto
    have "take ?k m @ contents ?out @ drop ?k m = contents ?out @ m" using nowr by (cases "0 < ?k") auto
    then have "conn_stream i w' = conn_stream i w @ m" using w' w1(5) by (simp add: conn_stream_def)
    with run True w' w1(6-) show ?thesis by auto
  next
    case False
    then have k: "?k = length m" using w1(4) by simp
    have "m @ contents ?out = contents ?out @ m" using nowr k by (cases "m = []") auto
    then have "conn_stream i w1 = conn_stream i w @ m" using w1(3,5) k by (simp add: conn_stream_def)
    with run False w1 k show ?thesis
      by (intro exI [of _ w1] exI [of _ ?out]) simp
  qed
qed

section \<open>Flushing\<close>

text \<open>The kernel takes at least one byte, not more than it was offered, the buffer can give up what
  was taken, and the calls after the last byte succeed.\<close>

definition flush_ok :: "nat \<Rightarrow> 'a net_scheme \<Rightarrow> bool" where
  "flush_ok i w \<longleftrightarrow>
     (isWriting (chans w (tc_channel (conns w i))) \<longrightarrow>
       (let n = length (calls w); r = ret (os w n); out = tc_outputBuffer (conns w i) in
        0 < r \<and> r \<le> int (length (offered out)) \<and> r < 2 ^ 63 \<and> retrieve_ok (nat r) out
        \<and> (nat r = readableBytes out \<longrightarrow>
             (wakes i w \<longrightarrow> ret (os w (Suc n)) = 8)
             \<and> (tc_state (conns w i) = kDisconnecting \<longrightarrow>
                  0 \<le> ret (os w (if wakes i w then Suc (Suc n) else Suc n))))))"

lemma shutDownInLoop_idle:
  assumes inv: "conn_inv i w" and idle: "\<not> isWriting (chans w (tc_channel (conns w i)))"
    and ok: "0 \<le> ret (os w (length (calls w)))"
  shows "shutDownInLoop i w = Inr (w\<lparr>calls := calls w @ [(SysShutdownWr (tc_conn (conns w i)), os w (length (calls w)))]\<rparr>)"
  using conn_invD(9) [OF inv] idle ok by (simp add: shutDownInLoop_def do_call_def Let_def)

text \<open>What follows the last byte: write-complete callback, then the shutdown that was waiting.\<close>

definition after_flush :: "nat \<Rightarrow> 'a net_scheme \<Rightarrow> 'a net_scheme result" where
  "after_flush i w =
     bindE (queue_write_complete i w)
       (\<lambda>w. if tc_state (conns w i) = kDisconnecting then shutDownInLoop i w else Inr w)"

lemma after_flush_returns:
  assumes inv: "conn_inv i w" and idle: "\<not> isWriting (chans w (tc_channel (conns w i)))"
    and wake: "wakes i w \<Longrightarrow> ret (os w (length (calls w))) = 8"
    and shut: "tc_state (conns w i) = kDisconnecting \<Longrightarrow>
       0 \<le> ret (os w (if wakes i w then Suc (length (calls w)) else length (calls w)))"
  shows "\<exists>w'. after_flush i w = Inr w' \<and> conn_inv i w' \<and> conns w' = conns w \<and> chans w' = chans w \<and> os w' = os w
     \<and> sent_on (tc_conn (conns w i)) (calls w') = sent_on (tc_conn (conns w i)) (calls w)
     \<and> (shuts (tc_conn (conns w i)) (calls w') \<longleftrightarrow>
          shuts (tc_conn (conns w i)) (calls w) \<or> tc_state (conns w i) = kDisconnecting)
     \<and> pendingFunctors (loops w' (tc_loop (conns w i))) = pendingFunctors (loops w (tc_loop (conns w i))) @
         (case tc_writeCompleteCB (conns w i) of None \<Rightarrow> [] | Some k \<Rightarrow> [WriteCompleteCB k i])"
proof -
  from queue_write_complete_quiet [OF inv wake] obtain w1 where
    w1: "queue_write_complete i w = Inr w1" "conn_inv i w1" "conns w1 = conns w" "chans w1 = chans w" "os w1 = os w"
      "length (calls w1) = length (calls w) + (if wakes i w then 1 else 0)"
      "sent_on (tc_conn (conns w i)) (calls w1) = sent_on (tc_conn (conns w i)) (calls w)"
      "shuts (tc_conn (conns w i)) (calls w1) = shuts (tc_conn (conns w i)) (calls w)"
      "pendingFunctors (loops w1 (tc_loop (conns w i))) = pendingFunctors (loops w (tc_loop (conns w i))) @
         (case tc_writeCompleteCB (conns w i) of None \<Rightarrow> [] | Some k \<Rightarrow> [WriteCompleteCB k i])" by blast
  show ?thesis
  proof (cases "tc_state (conns w i) = kDisconnecting")
    case False
    then show ?thesis using w1 by (simp add: after_flush_def)
  next
    case True
    have "0 \<le> ret (os w1 (length (calls w1)))" using shut [OF True] w1(5,6) by (simp split: if_splits)
    moreover have "\<not> isWriting (chans w1 (tc_channel (conns w1 i)))" using idle w1(3,4) by simp
    ultimately have "shutDownInLoop i w1 =
        Inr (w1\<lparr>calls := calls w1 @ [(SysShutdownWr (tc_conn (conns w1 i)), os w1 (length (calls w1)))]\<rparr>)"
      using shutDownInLoop_idle [OF w1(2)] by simp
    then show ?thesis using w1 True by (simp add: after_flush_def conn_inv_calls)
  qed
qed

lemma handleWrite_idle:
  assumes "conn_inv i w" "\<not> isWriting (chans w (tc_channel (conns w i)))"
  shows "handleWrite i w = Inr w"
  using conn_invD(9) [OF assms(1)] assms(2) by (simp add: handleWrite_def Let_def)

lemma handleWrite_taken:
  assumes inv: "conn_inv i w" and wr: "isWriting (chans w (tc_channel (conns w i)))" and ok: "flush_ok i w"
    and r: "r = nat (ret (os w (length (calls w))))" and out: "out = tc_outputBuffer (conns w i)"
    and fd: "fd = tc_conn (conns w i)"
  shows "\<exists>w' b. handleWrite i w = Inr w' \<and> conn_inv i w' \<and> os w' = os w
     \<and> conns w' = (conns w)(i := (conns w i)\<lparr>tc_outputBuffer := b\<rparr>)
     \<and> retrieve r out = Inr b \<and> contents b = drop r (contents out) \<and> sent_on fd (calls w') = sent_on fd (calls w) @ take r (contents out)
     \<and> (shuts fd (calls w') \<longleftrightarrow> shuts fd (calls w) \<or> contents b = [] \<and> tc_state (conns w i) = kDisconnecting)
     \<and> pendingFunctors (loops w' (tc_loop (conns w i))) = pendingFunctors (loops w (tc_loop (conns w i))) @
         (case tc_writeCompleteCB (conns w i) of None \<Rightarrow> [] | Some k \<Rightarrow> if contents b = [] then [WriteCompleteCB k i] else [])"
proof -
  let ?a = "os w (length (calls w))" and ?c = "tc_channel (conns w i)"
  note D = conn_invD [OF inv]
  have some: "contents out \<noteq> []" using D(8) wr out by simp
  note off = writeFd_offered [OF D(7) some [unfolded out], folded out]
  have a: "0 < ret ?a" "ret ?a \<le> int (length (offered out))" "ret ?a < 2 ^ 63" "retrieve_ok r out"
    using ok wr by (simp_all add: flush_ok_def Let_def r out)
  obtain rest where rest: "contents out = offered out @ rest" using off(2) by blast
  have wrote: "writeFd (tc_conn (conns w i)) out w = Inr (size_t_of (ret ?a),
      w\<lparr>calls := calls w @ [(SysWrite (tc_conn (conns w i)) (offered out), ?a)]\<rparr>)" by (rule off(1))
  have r0: "0 < r" "r \<le> readableBytes out" "size_t_of (ret ?a) = r" "r \<le> length (offered out)"
    using a rest length_contents [of out] by (auto simp: r size_t_of_nonneg simp flip: length_contents)
  let ?w1 = "w\<lparr>calls := calls w @ [(SysWrite fd (offered out), ?a)]\<rparr>"
  from retrieve_contents [OF D(7) [folded out] r0(2) a(4)] obtain b where
    b: "retrieve r out = Inr b" "buffer_inv b" "contents b = drop r (contents out)" by blast
  let ?w2 = "set_conn i (tc_outputBuffer_update (\<lambda>_. b)) ?w1"
  have taken: "take (nat (ret ?a)) (offered out) = take r (contents out)"
    using r0(4) rest by (simp add: r)
  have drained: "readableBytes b = 0 \<longleftrightarrow> contents b = []" by (metis length_0_conv length_contents)
  have run: "handleWrite i w =
      (if readableBytes b = 0 then bindE (Channel_disableWriting ?c ?w2) (after_flush i) else Inr ?w2)"
    using wr D(4,9) wrote r0 b(1)
    by (simp add: handleWrite_def Let_def fd out [symmetric] after_flush_def [abs_def])
  show ?thesis
  proof (cases "contents b = []")
    case False
    have "conn_inv i ?w2" using inv b False wr by (auto simp: conn_inv_def)
    then show ?thesis using run False drained b taken a(1) fd
      by (intro exI [of _ ?w2] exI [of _ b]) (auto split: option.splits)
  next
    case True
    have "reactor_inv ?w2" "may_update ?c ?w2" using D by simp_all
    from Channel_mask_entered [OF this, of DisableWriting] obtain p k where
      e: "Channel_disableWriting ?c ?w2 = Inr (entered ?c p k (set_chan ?c (apply_mask DisableWriting) ?w2))"
      "reactor_inv (entered ?c p k (set_chan ?c (apply_mask DisableWriting) ?w2))"
      "may_update ?c (entered ?c p k (set_chan ?c (apply_mask DisableWriting) ?w2))"
      by (auto simp: channel_ops_mask)
    let ?w3 = "entered ?c p k (set_chan ?c (apply_mask DisableWriting) ?w2)"
    have nw: "\<not> isWriting ((drop_writing ch)\<lparr>ch_index := k\<rparr>)" for ch
      using isWriting_simps(2) [of ch] by (simp add: isWriting_def)
    have idle: "\<not> isWriting (chans ?w3 (tc_channel (conns ?w3 i)))" by (simp add: nw)
    have inv3: "conn_inv i ?w3"
      unfolding conn_inv_def using D e b True by (simp add: nw mask_defs) (simp add: nw mask_defs [symmetric])
    have wk: "wakes i ?w3 = wakes i w" by (simp add: wakes_def)
    have all: "nat (ret ?a) = readableBytes out" using True b(3) r0(2) by (simp add: r)
    have wake: "wakes i ?w3 \<Longrightarrow> ret (os ?w3 (length (calls ?w3))) = 8"
      using ok wr all wk by (simp add: flush_ok_def Let_def out)
    have shut: "tc_state (conns ?w3 i) = kDisconnecting \<Longrightarrow>
       0 \<le> ret (os ?w3 (if wakes i ?w3 then Suc (length (calls ?w3)) else length (calls ?w3)))"
      using ok wr all wk by (cases "wakes i w") (simp_all add: flush_ok_def Let_def out)
    from after_flush_returns [OF inv3 idle wake shut] run True drained e(1) b taken a(1) fd
    show ?thesis by (auto split: option.splits)
  qed
qed

lemma handleWrite_returns:
  assumes inv: "conn_inv i w" and ok: "flush_ok i w"
  shows "\<exists>w'. handleWrite i w = Inr w' \<and> conn_inv i w' \<and> conn_stream i w' = conn_stream i w"
proof (cases "isWriting (chans w (tc_channel (conns w i)))")
  case True
  from handleWrite_taken [OF inv True ok refl refl refl] show ?thesis
    by (fastforce simp: conn_stream_def)
next
  case False
  with handleWrite_idle [OF inv] inv show ?thesis by simp
qed

definition accepts :: "nat \<Rightarrow> string \<Rightarrow> 'a net_scheme \<Rightarrow> bool" where
  "accepts i m w \<longleftrightarrow> connected i w \<and> send_ok i m w"

lemma send_connected:
  "conn_inv i w \<Longrightarrow> connected i w \<Longrightarrow> TcpConnection_send i m w = sendInLoop i m w"
  using conn_invD(9) [of i w] by (simp add: TcpConnection_send_def connected_def)

interpretation tcp_stream: ordered_stream "conn_inv i" "conn_stream i" "TcpConnection_send i"
  "handleWrite i" "accepts i" "flush_ok i" for i :: nat
proof unfold_locales
  fix w :: "'a net_scheme" and m assume "conn_inv i w" "accepts i m w"
  then show "\<exists>w'. TcpConnection_send i m w = Inr w' \<and> conn_inv i w' \<and> conn_stream i w' = conn_stream i w @ m"
    using sendInLoop_returns [of i w m] by (auto simp: accepts_def send_connected)
next
  fix w :: "'a net_scheme" assume "conn_inv i w" "flush_ok i w"
  then show "\<exists>w'. handleWrite i w = Inr w' \<and> conn_inv i w' \<and> conn_stream i w' = conn_stream i w"
    by (rule handleWrite_returns)
qed

section \<open>Errors and a slow reader\<close>

lemma handleWrite_error:
  assumes inv: "conn_inv i w" and wr: "isWriting (chans w (tc_channel (conns w i)))"
    and a: "ret (os w (length (calls w))) = - 1"
    and small: "readableBytes (tc_outputBuffer (conns w i)) < 2 ^ 64 - 1"
  shows "handleWrite i w = Inl (AssertFail ''len <= readableBytes()'')"
proof -
  note D = conn_invD [OF inv]
  have "contents (tc_outputBuffer (conns w i)) \<noteq> []" using D(8) wr by simp
  note off = writeFd_offered(1) [OF D(7) this]
  have "writeFd (tc_conn (conns w i)) (tc_outputBuffer (conns w i)) w = Inr (2 ^ 64 - 1,
      w\<lparr>calls := calls w @ [(SysWrite (tc_conn (conns w i)) (offered (tc_outputBuffer (conns w i))),
          os w (length (calls w)))]\<rparr>)"
    using off [of "tc_conn (conns w i)" w] a by (simp add: size_t_of_minus_one)
  then show ?thesis using wr D(4,9) retrieve_too_much [OF small]
    by (simp add: handleWrite_def Let_def)
qed

lemma slow_flush:
  assumes inv: "conn_inv i w" and full: "isFull (tc_outputBuffer (conns w i))" "startIndex (tc_outputBuffer (conns w i)) = 0"
    and r: "0 < r" "r < bufferSize (tc_outputBuffer (conns w i))" "r < 2 ^ 63"
      "ret (os w (length (calls w))) = int r"
  shows "\<exists>w' b. handleWrite i w = Inr w' \<and> conns w' = (conns w)(i := (conns w i)\<lparr>tc_outputBuffer := b\<rparr>)
     \<and> chans w' = chans w \<and> isInLoopThread (tc_loop (conns w i)) w'
     \<and> isFull b \<and> startIndex b = r \<and> endIndex b = 0 \<and> bufferSize b = bufferSize (tc_outputBuffer (conns w i))"
proof -
  let ?out = "tc_outputBuffer (conns w i)" and ?a = "os w (length (calls w))" and ?c = "tc_channel (conns w i)"
  note D = conn_invD [OF inv]
  have e: "endIndex ?out = 0" using D(7) full by (simp add: buffer_inv_def)
  have size: "readableBytes ?out = bufferSize ?out" using full by (simp add: readableBytes_def)
  have some: "contents ?out \<noteq> []" using r size by (metis length_contents list.size(3) not_less_zero)
  then have wr: "isWriting (chans w ?c)" using D(8) by simp
  let ?w1 = "w\<lparr>calls := calls w @ [(SysWrite (tc_conn (conns w i)) (offered ?out), ?a)]\<rparr>"
  have wrote: "writeFd (tc_conn (conns w i)) ?out w = Inr (r, ?w1)"
    using writeFd_offered(1) [OF D(7) some, of "tc_conn (conns w i)" w] r size_t_of_nonneg [of "int r"] by simp
  obtain b where b: "retrieve r ?out = Inr b" using r size by (simp add: retrieve_def Let_def)
  from retrieve_part_of_full [OF D(7) full(1) r(1,2) b] full e r(2)
  have b': "isFull b" "readableBytes b = bufferSize ?out" "startIndex b = r" "endIndex b = 0"
    "buf b = buf ?out" by auto
  then have "readableBytes b \<noteq> 0" using r by simp
  then have "handleWrite i w = Inr (set_conn i (tc_outputBuffer_update (\<lambda>_. b)) ?w1)"
    using wrote b wr D(4,9) r(1) by (simp add: handleWrite_def Let_def)
  then show ?thesis using b' D(9)
    by (intro exI [of _ "set_conn i (tc_outputBuffer_update (\<lambda>_. b)) ?w1"] exI [of _ b])
      (simp add: bufferSize_def)
qed

lemma stuck_send_fails:
  assumes "isInLoopThread (tc_loop (conns w i)) w" "connected i w" "isWriting (chans w (tc_channel (conns w i)))"
    and "isFull (tc_outputBuffer (conns w i))" "0 < startIndex (tc_outputBuffer (conns w i))"
      "startIndex (tc_outputBuffer (conns w i)) < bufferSize (tc_outputBuffer (conns w i))"
      "endIndex (tc_outputBuffer (conns w i)) = 0"
    and "m \<noteq> []"
  shows "TcpConnection_send i m w = Inl (AssertFail ''readable == readableBytes()'')"
proof -
  have "append m (tc_outputBuffer (conns w i)) = Inl (AssertFail ''readable == readableBytes()'')"
    using assms by (intro stuck_append_fails) auto
  then show ?thesis using assms
    by (simp add: TcpConnection_send_def connected_def sendInLoop_def try_write_def)
qed

lemma slow_reader:
  assumes inv: "conn_inv i w" and up: "connected i w" and idle: "contents (tc_outputBuffer (conns w i)) = []"
    and k: "ret (os w (length (calls w))) = int k"
      "k + bufferSize (tc_outputBuffer (conns w i)) < length m1"
    and r: "ret (os w (Suc (length (calls w)))) = int r" "0 < r" "k + r < length m1" "r < 2 ^ 63"
    and m2: "m2 \<noteq> []"
  shows "run_all (perform (TcpConnection_send i) (handleWrite i)) [Send m1, Flush, Send m2] w
     = Inl (AssertFail ''readable == readableBytes()'')"
proof -
  let ?out = "tc_outputBuffer (conns w i)"
  note D = conn_invD [OF inv]
  have nowr: "\<not> isWriting (chans w (tc_channel (conns w i)))" using D(8) idle by simp
  have at: "sent_at_once i w = k" using nowr k(1) by (simp add: sent_at_once_def)
  have rb: "readableBytes ?out = 0" using idle by (metis length_contents list.size(3))
  have small: "writableBytes ?out < length (drop k m1)" using k(2) by (simp add: writableBytes_def)
  have "send_ok i m1 w" using nowr k small at by (simp add: send_ok_def append_ok_def)
  from sendInLoop_returns [OF inv this] nowr at k(2) obtain w1 b where
    w1: "sendInLoop i m1 w = Inr w1" "conn_inv i w1" "conns w1 = (conns w)(i := (conns w i)\<lparr>tc_outputBuffer := b\<rparr>)"
    "append (drop k m1) ?out = Inr b" "os w1 = os w" "length (calls w1) = Suc (length (calls w))" by auto
  from append_grown_full [OF D(7) small w1(4)] rb have
    b: "isFull b" "startIndex b = 0" "bufferSize b = length m1 - k" by auto
  have out1: "tc_outputBuffer (conns w1 i) = b" using w1(3) by simp
  have "r < bufferSize b" using r(3) b(3) by simp
  from slow_flush [OF w1(2), unfolded out1, OF b(1,2) r(2) this r(4)] r(1) w1(5,6) b(3) obtain w2 b2 where
    w2: "handleWrite i w1 = Inr w2" "conns w2 = (conns w1)(i := (conns w1 i)\<lparr>tc_outputBuffer := b2\<rparr>)"
    "chans w2 = chans w1" "isInLoopThread (tc_loop (conns w1 i)) w2"
    "isFull b2" "startIndex b2 = r" "endIndex b2 = 0" "bufferSize b2 = length m1 - k" by auto
  have "contents b \<noteq> []" using b k(2)
    by (metis length_contents list.size(3) readableBytes_def add_lessD1 zero_less_diff less_nat_zero_code)
  then have wr: "isWriting (chans w1 (tc_channel (conns w1 i)))" using conn_invD(8) [OF w1(2)] out1 by simp
  have "TcpConnection_send i m2 w2 = Inl (AssertFail ''readable == readableBytes()'')"
    by (rule stuck_send_fails) (use w2 wr up w1(3) r m2 in \<open>auto simp: connected_def\<close>)
  moreover have "TcpConnection_send i m1 w = Inr w1" using w1(1) send_connected [OF inv up] by simp
  ultimately show ?thesis using w2(1) by simp
qed

section \<open>Shutting down\<close>

lemma shutdown_returns:
  assumes inv: "conn_inv i w" and up: "connected i w"
    and ok: "contents (tc_outputBuffer (conns w i)) = [] \<Longrightarrow> 0 \<le> ret (os w (length (calls w)))"
  shows "\<exists>w'. TcpConnection_shutdown i w = Inr w' \<and> conn_inv i w'
     \<and> conns w' = (conns w)(i := (conns w i)\<lparr>tc_state := kDisconnecting\<rparr>)
     \<and> conn_stream i w' = conn_stream i w
     \<and> (shuts (tc_conn (conns w i)) (calls w') \<longleftrightarrow>
          shuts (tc_conn (conns w i)) (calls w) \<or> contents (tc_outputBuffer (conns w i)) = [])"
proof -
  let ?w = "setState i kDisconnecting w"
  note D = conn_invD [OF inv]
  have inv1: "conn_inv i ?w" using inv by (simp add: conn_inv_def setState_def)
  have st: "conns ?w = (conns w)(i := (conns w i)\<lparr>tc_state := kDisconnecting\<rparr>)" "calls ?w = calls w"
    "chans ?w = chans w" "os ?w = os w" by (simp_all add: setState_def)
  have run: "TcpConnection_shutdown i w = shutDownInLoop i ?w"
    using up conn_invD(9) [OF inv1] st
    by (simp add: TcpConnection_shutdown_def connected_def runInLoop_def Let_def)
  show ?thesis
  proof (cases "contents (tc_outputBuffer (conns w i)) = []")
    case True
    then have "\<not> isWriting (chans ?w (tc_channel (conns ?w i)))" using D(8) st by simp
    from shutDownInLoop_idle [OF inv1 this] ok [OF True] st inv1 True show ?thesis
      by (simp add: run conn_inv_calls conn_stream_def)
  next
    case False
    then have "isWriting (chans ?w (tc_channel (conns ?w i)))" using D(8) st by simp
    then have "shutDownInLoop i ?w = Inr ?w" using conn_invD(9) [OF inv1] by (simp add: shutDownInLoop_def)
    then show ?thesis using inv1 st False by (simp add: run conn_stream_def)
  qed
qed

section \<open>Receiving\<close>

lemma ssize_t_of_small: "n < 2 ^ 63 \<Longrightarrow> ssize_t_of n = int n"
  by (simp add: ssize_t_of_def signed_of_nat signed_take_bit_int_eq_self)

lemma ssize_t_of_minus_one: "ssize_t_of (size_t_of (- 1)) = - 1"
  by (simp add: ssize_t_of_def size_t_of_def)

lemma handleRead_cases:
  assumes inv: "conn_inv i w" and a: "a = os w (length (calls w))"
    and ok: "answer_ok (SysRead (tc_conn (conns w i)) 65535, a)"
    and room: "append_ok (payload a) (tc_inputBuffer (conns w i))"
  shows "(0 < ret a \<longrightarrow> (\<exists>b. buffer_inv b \<and> contents b = contents (tc_inputBuffer (conns w i)) @ payload a
      \<and> handleRead H i t w = invoke (tc_msgCB (conns w i)) (\<lambda>k. onMessage H k i t)
          (set_conn i (tc_inputBuffer_update (\<lambda>_. b)) (w\<lparr>calls := calls w @ [(SysRead (tc_conn (conns w i)) 65535, a)]\<rparr>))))
    \<and> (ret a = 0 \<longrightarrow> (\<exists>b. contents b = contents (tc_inputBuffer (conns w i)) \<and> handleRead H i t w =
         handleClose H i (set_conn i (tc_inputBuffer_update (\<lambda>_. b))
           (w\<lparr>calls := calls w @ [(SysRead (tc_conn (conns w i)) 65535, a)]\<rparr>))))
    \<and> (ret a < 0 \<longrightarrow> handleRead H i t w = Inl Abort)"
proof -
  note D = conn_invD [OF inv]
  let ?fd = "tc_conn (conns w i)" and ?in = "tc_inputBuffer (conns w i)"
  let ?w = "w\<lparr>calls := calls w @ [(SysRead ?fd 65535, a)]\<rparr>"
  show ?thesis
  proof (cases "0 \<le> ret a")
    case True
    from readFd_contents [OF D(6) a ok True room] obtain b where
      b: "readFd ?fd ?in w = Inr (nat (ret a), None, b, ?w)" "buffer_inv b" "contents b = contents ?in @ payload a" by blast
    have n: "ssize_t_of (nat (ret a)) = ret a" using True ok by (subst ssize_t_of_small) auto
    have run: "handleRead H i t w =
      (if 0 < ret a then invoke (tc_msgCB (conns w i)) (\<lambda>k. onMessage H k i t) (set_conn i (tc_inputBuffer_update (\<lambda>_. b)) ?w)
       else handleClose H i (set_conn i (tc_inputBuffer_update (\<lambda>_. b)) ?w))"
      using b(1) D(4) n True by (simp add: handleRead_def)
    have nil: "payload a = []" if "ret a = 0" using ok that by simp
    show ?thesis using run b True nil by (auto intro!: exI [of _ b])
  next
    case False
    then have "ret a = - 1" using ok by auto
    then have "handleRead H i t w = Inl Abort"
      using readFd_error [of w ?fd ?in] D(4) a
      by (simp add: handleRead_def ssize_t_of_minus_one handleError_def split_def Let_def)
    then show ?thesis using False by simp
  qed
qed

section \<open>Establishment and destruction\<close>

definition fresh_conn :: "nat \<Rightarrow> nat \<Rightarrow> int \<Rightarrow> 'a reactor_scheme \<Rightarrow> bool" where
  "fresh_conn l c fd w \<longleftrightarrow> isInLoopThread l w \<and> fresh_channel c w \<and> 0 \<le> fd
     \<and> channelMap (loop_poller (loops w l)) fd = None \<and> wakeupFd (loops w l) \<noteq> fd"

lemma TcpConnection_ctor_returns:
  assumes inv: "reactor_inv w" and fresh: "fresh_conn l c fd w"
  shows "\<exists>w'. TcpConnection_ctor i c l name fd la pa w = Inr w' \<and> conn_inv i w' \<and> fresh_conn l c fd w'
     \<and> tc_state (conns w' i) = kConnecting \<and> tc_loop (conns w' i) = l \<and> tc_channel (conns w' i) = c
     \<and> tc_conn (conns w' i) = fd \<and> tc_name (conns w' i) = name
     \<and> contents (tc_inputBuffer (conns w' i)) = [] \<and> contents (tc_outputBuffer (conns w' i)) = []"
proof -
  obtain w' where w': "TcpConnection_ctor i c l name fd la pa w = Inr w'"
    by (simp add: TcpConnection_ctor_def Buffer_ctor_returns)
  let ?ch = "(Channel_ctor l fd)\<lparr>ch_readCallback := Some (ConnHandleRead i),
     ch_writeCallback := Some (ConnHandleWrite i), ch_closeCallback := Some (ConnHandleClose i),
     ch_errorCallback := Some (ConnHandleError i)\<rparr>"
  have st: "loops w' = loops w" "chans w' = (chans w)(c := ?ch)" "cur_thread w' = cur_thread w"
    and cn: "tc_state (conns w' i) = kConnecting" "tc_loop (conns w' i) = l" "tc_channel (conns w' i) = c"
      "tc_conn (conns w' i) = fd" "tc_name (conns w' i) = name"
      "tc_inputBuffer (conns w' i) = new_buffer" "tc_outputBuffer (conns w' i) = new_buffer"
    using w' by (auto simp: TcpConnection_ctor_def Buffer_ctor_returns)
  have "reactor_inv w'"
    using reactor_inv_new_channel [OF inv _ st(1,2)] fresh by (simp add: fresh_conn_def)
  moreover have "may_update c w'" using fresh
    by (simp add: may_update_def isInLoopThread_def fresh_conn_def own_poller_def st joinable_def
        Channel_ctor_def)
  moreover have "\<not> isWriting ?ch" by (simp add: isWriting_def Channel_ctor_def)
  ultimately have "conn_inv i w'"
    using fresh by (simp add: conn_inv_def cn st fresh_conn_def new_buffer_inv Channel_ctor_def)
  moreover have "fresh_conn l c fd w'"
    using fresh by (simp add: fresh_conn_def fresh_channel_def isInLoopThread_def st)
  ultimately show ?thesis using w' cn by simp
qed

text \<open>The mask operations that do not touch the interest in writability keep \<open>conn_inv\<close>.\<close>

lemma conn_inv_mask:
  assumes inv: "conn_inv i w" and keep: "\<And>ch. isWriting (apply_mask m ch) = isWriting ch"
  shows "\<exists>w'. Channel_op m (tc_channel (conns w i)) w = Inr w' \<and> conn_inv i w' \<and> conns w' = conns w
     \<and> enrolled (tc_channel (conns w i)) (own_poller (tc_channel (conns w i)) w')
     \<and> calls w' = calls w \<and> os w' = os w"
proof -
  let ?c = "tc_channel (conns w i)"
  note D = conn_invD [OF inv]
  from Channel_op_entered [OF D(1,2), of m] obtain p k where
    e: "Channel_op m ?c w = Inr (entered ?c p k (set_chan ?c (apply_mask m) w))"
    "reactor_inv (entered ?c p k (set_chan ?c (apply_mask m) w))"
    "may_update ?c (entered ?c p k (set_chan ?c (apply_mask m) w))"
    "enrolled ?c (own_poller ?c (entered ?c p k (set_chan ?c (apply_mask m) w)))" by blast
  have wr: "isWriting ((apply_mask m ch)\<lparr>ch_index := k\<rparr>) = isWriting ch" for ch
    using keep [of ch] by (simp add: isWriting_def)
  have "conn_inv i (entered ?c p k (set_chan ?c (apply_mask m) w))"
    unfolding conn_inv_def using D e(2,3) by (simp add: wr)
  with e show ?thesis by auto
qed

lemma connectEstablished_runs:
  assumes inv: "conn_inv i w" and st: "tc_state (conns w i) = kConnecting"
  shows "\<exists>w'. connectEstablished H i w = invoke (tc_connCB (conns w i)) (\<lambda>k. onConnection H k i) w'
     \<and> conn_inv i w' \<and> connected i w' \<and> conn_stream i w' = conn_stream i w
     \<and> conns w' = (conns w)(i := (conns w i)\<lparr>tc_state := kConnected\<rparr>)
     \<and> enrolled (tc_channel (conns w i)) (own_poller (tc_channel (conns w i)) w')"
proof -
  let ?w = "setState i kConnected w"
  have inv1: "conn_inv i ?w" using inv by (simp add: conn_inv_def setState_def)
  have cn: "conns ?w = (conns w)(i := (conns w i)\<lparr>tc_state := kConnected\<rparr>)" "calls ?w = calls w"
    by (simp_all add: setState_def)
  have keep: "isWriting (apply_mask EnableReading ch) = isWriting ch" for ch by simp
  from conn_inv_mask [OF inv1 keep] obtain w' where
    w': "Channel_enableReading (tc_channel (conns w i)) ?w = Inr w'" "conn_inv i w'" "conns w' = conns ?w"
    "enrolled (tc_channel (conns w i)) (own_poller (tc_channel (conns w i)) w')" "calls w' = calls ?w"
    by (auto simp: cn)
  then show ?thesis using st conn_invD(9) [OF inv] cn
    by (intro exI [of _ w']) (simp add: connectEstablished_def connected_def conn_stream_def)
qed

lemma disableAll_retires:
  assumes inv: "reactor_inv w" and il: "isInLoopThread (ch_loop (chans w c)) w"
    and mem: "enrolled c (own_poller c w)"
  shows "\<exists>p k. Channel_disableAll c w = Inr (entered c p k (set_chan c drop_all w))
     \<and> reactor_inv (entered c p k (set_chan c drop_all w))
     \<and> may_remove c (entered c p k (set_chan c drop_all w))"
proof -
  let ?w = "set_chan c drop_all w" and ?l = "ch_loop (chans w c)"
  let ?p = "loop_poller (loops w ?l)" and ?chs = "(chans w)(c := drop_all (chans w c))"
  have inv1: "reactor_inv ?w" using inv by (rule reactor_inv_set_chan) (simp_all add: drop_all_def)
  have mem1: "enrolled c (?p, ?chs)" using mem by (simp add: enrolled_def own_poller_def drop_all_def)
  have pinv: "poller_inv (?p, ?chs)" using reactor_invD(1) [OF inv1, of ?l] by simp
  from update_old [OF pinv mem1] obtain p where
    p: "Poller_updateChannel True c (?p, ?chs) = Inr (p, ?chs)" "enrolled c (p, ?chs)"
    "entry_of (p, ?chs) = (entry_of (?p, ?chs))(ch_fd (?chs c) \<mapsto>
         (c, refreshed (?chs c) (pollfds ?p ! nat (ch_index (?chs c)))))" by blast
  have ret: "retirable c (p, ?chs)"
    using p(2,3) by (simp add: retirable_def refreshed_def Let_def)
      (simp add: drop_all_def kNoneEvent_def)
  have lp: "ch_loop (chans ?w c) = ?l" by (simp add: drop_all_def)
  have "may_update c ?w" using il mem1 lp by (simp add: may_update_def own_poller_def)
  from Channel_update_entered [OF inv1 this] obtain p' k where
    e: "Channel_update c ?w = Inr (entered c p' k ?w)" "reactor_inv (entered c p' k ?w)" by blast
  have own: "own_poller c (entered c p' k ?w) = (p, ?chs)"
  proof -
    have "Channel_update c ?w = Inr ((set_loop ?l (loop_poller_update (\<lambda>_. p)) ?w)\<lparr>chans := ?chs\<rparr>)"
      using p(1) il lp reactor_invD(2) [OF inv, of ?l]
      by (simp add: Channel_update_def EventLoop_updateChannel_def with_poller_def)
    with e(1) have eq: "entered c p' k ?w = (set_loop ?l (loop_poller_update (\<lambda>_. p)) ?w)\<lparr>chans := ?chs\<rparr>" by simp
    show ?thesis unfolding eq own_poller_def by (simp add: drop_all_def)
  qed
  have "may_remove c (entered c p' k ?w)"
    using ret il lp by (simp add: may_remove_def own)
  with e show ?thesis by (auto simp: Channel_disableAll_def)
qed

text \<open>A callback that leaves the registration of channels alone.\<close>

definition keeps_registration :: "('a net_scheme \<Rightarrow> 'a net_scheme result) \<Rightarrow> bool" where
  "keeps_registration f \<longleftrightarrow> (\<forall>w. \<exists>w'. f w = Inr w' \<and> chans w' = chans w \<and> loops w' = loops w
     \<and> cur_thread w' = cur_thread w \<and> conns w' = conns w)"

lemma connectDestroyed_returns:
  assumes inv: "conn_inv i w" and st: "tc_state (conns w i) = kConnected \<or> tc_state (conns w i) = kDisconnecting"
    and mem: "enrolled (tc_channel (conns w i)) (own_poller (tc_channel (conns w i)) w)"
    and cb: "tc_connCB (conns w i) = Some k" "keeps_registration (onConnection H k i)"
  shows "\<exists>w'. connectDestroyed H i w = Inr w' \<and> reactor_inv w' \<and> tc_state (conns w' i) = kDisconnected
     \<and> channelMap (loop_poller (loops w' (tc_loop (conns w i)))) (tc_conn (conns w i)) = None"
proof -
  let ?w = "setState i kDisconnected w" and ?c = "tc_channel (conns w i)" and ?l = "tc_loop (conns w i)"
  note D = conn_invD [OF inv]
  have cn: "conns ?w = (conns w)(i := (conns w i)\<lparr>tc_state := kDisconnected\<rparr>)" "chans ?w = chans w"
    by (simp_all add: setState_def)
  have pre: "reactor_inv ?w" "isInLoopThread (ch_loop (chans ?w ?c)) ?w" "enrolled ?c (own_poller ?c ?w)"
    using D(1,3,9) mem by (simp_all add: setState_def own_poller_def)
  from disableAll_retires [OF pre] obtain p j where
    e: "Channel_disableAll ?c ?w = Inr (entered ?c p j (set_chan ?c drop_all ?w))"
    "reactor_inv (entered ?c p j (set_chan ?c drop_all ?w))"
    "may_remove ?c (entered ?c p j (set_chan ?c drop_all ?w))" by blast
  let ?w1 = "entered ?c p j (set_chan ?c drop_all ?w)"
  obtain w2 where w2: "onConnection H k i ?w1 = Inr w2" "chans w2 = chans ?w1" "loops w2 = loops ?w1"
    "cur_thread w2 = cur_thread ?w1" "conns w2 = conns ?w1"
    using cb(2) unfolding keeps_registration_def by blast
  have inv2: "reactor_inv w2" using e(2) by (simp add: reactor_inv_def w2)
  have may2: "may_remove ?c w2" using e(3) by (simp add: may_remove_def isInLoopThread_def own_poller_def w2)
  have ch2: "ch_loop (chans w2 ?c) = ?l" "ch_fd (chans w2 ?c) = tc_conn (conns w i)"
    using D(3,4) by (simp_all add: w2 drop_all_def cn)
  have c2: "conns w2 = conns ?w" using w2(5) by simp
  from removeChannel_reactor [OF inv2 may2] obtain w3 where
    w3: "EventLoop_removeChannel ?l ?c w2 = Inr w3" "reactor_inv w3"
    "channelMap (loop_poller (loops w3 ?l)) (tc_conn (conns w i)) = None" by (auto simp: ch2)
  have "conns w3 = conns w2"
    using w3(1) by (auto simp: EventLoop_removeChannel_def with_poller_def result_simps split: prod.splits)
  then show ?thesis using e(1) st D(9) cb(1) w2(1) w3 c2 cn
    by (auto simp: connectDestroyed_def invoke_def)
qed

section \<open>Properties\<close>



text \<open>
  C20. A graceful shutdown. \<open>shutdown\<close> on a connected connection moves it to \<open>kDisconnecting\<close> and
  shuts the writing side down at once exactly when no byte is queued; the stream is unchanged, and
  every later \<open>send\<close> is ignored.
\<close>

theorem shutdown_waits_for_output:
  assumes "conn_inv i w" and "connected i w"
    and "contents (tc_outputBuffer (conns w i)) = [] \<Longrightarrow> 0 \<le> ret (os w (length (calls w)))"
  shows "\<exists>w'. TcpConnection_shutdown i w = Inr w' \<and> conn_inv i w'
     \<and> tc_state (conns w' i) = kDisconnecting \<and> conn_stream i w' = conn_stream i w
     \<and> (shuts (tc_conn (conns w i)) (calls w') \<longleftrightarrow>
          shuts (tc_conn (conns w i)) (calls w) \<or> contents (tc_outputBuffer (conns w i)) = [])
     \<and> (\<forall>m. TcpConnection_send i m w' = Inr w')"
  using shutdown_returns [OF assms] by (fastforce simp: TcpConnection_send_def)

text \<open>
  C21. A failed write ends the process through an assertion. \<open>writeFd\<close> returns \<open>size_t\<close>, so the
  \<open>-1\<close> of a failed \<open>write\<close> (\<open>EAGAIN\<close> included) is a huge positive number in \<open>handleWrite\<close>,
  which takes the branch of success and fails the assertion of \<open>retrieve\<close>.
\<close>

theorem failed_write_fails_assertion:
  assumes "conn_inv i w" and "isWriting (chans w (tc_channel (conns w i)))"
    and "ret (os w (length (calls w))) = - 1"
    and "readableBytes (tc_outputBuffer (conns w i)) < 2 ^ 64 - 1"
  shows "handleWrite i w = Inl (AssertFail ''len <= readableBytes()'')"
  by (rule handleWrite_error [OF assms])

text \<open>
  C17. A slow reader ends the process. On a connection whose output buffer is empty: a message
  of which the kernel takes \<open>k\<close> bytes and the rest is longer than the buffer, one flush of which
  it takes some but not all, then any further message: the assertion of \<open>makeSpace\<close> fails.
\<close>

theorem slow_reader_aborts:
  assumes "conn_inv i w" and "connected i w" and "contents (tc_outputBuffer (conns w i)) = []"
    and "ret (os w (length (calls w))) = int k"
    and "k + bufferSize (tc_outputBuffer (conns w i)) < length m1"
    and "ret (os w (Suc (length (calls w)))) = int r" and "0 < r" and "k + r < length m1" and "r < 2 ^ 63"
    and "m2 \<noteq> []"
  shows "run_all (perform (TcpConnection_send i) (handleWrite i)) [Send m1, Flush, Send m2] w
     = Inl (AssertFail ''readable == readableBytes()'')"
  by (rule slow_reader [OF assms])

text \<open>
  C22. The branches of \<open>handleRead\<close>: received bytes are appended to the input buffer before the
  message callback runs; the end of the stream runs \<open>handleClose\<close> with the buffer's content as it was;
  an error of any kind ends the process.
\<close>

theorem handleRead_branches:
  assumes "conn_inv i w" and "a = os w (length (calls w))"
    and "answer_ok (SysRead (tc_conn (conns w i)) 65535, a)"
    and "append_ok (payload a) (tc_inputBuffer (conns w i))"
  shows "(0 < ret a \<longrightarrow> (\<exists>b. buffer_inv b \<and> contents b = contents (tc_inputBuffer (conns w i)) @ payload a
      \<and> handleRead H i t w = invoke (tc_msgCB (conns w i)) (\<lambda>k. onMessage H k i t)
          (set_conn i (tc_inputBuffer_update (\<lambda>_. b)) (w\<lparr>calls := calls w @ [(SysRead (tc_conn (conns w i)) 65535, a)]\<rparr>))))
    \<and> (ret a = 0 \<longrightarrow> (\<exists>b. contents b = contents (tc_inputBuffer (conns w i)) \<and> handleRead H i t w =
         handleClose H i (set_conn i (tc_inputBuffer_update (\<lambda>_. b))
           (w\<lparr>calls := calls w @ [(SysRead (tc_conn (conns w i)) 65535, a)]\<rparr>))))
    \<and> (ret a < 0 \<longrightarrow> handleRead H i t w = Inl Abort)"
  by (rule handleRead_cases [OF assms])

text \<open>
  A new connection, constructed in the thread of its loop, is ready: \<open>connectEstablished\<close> passes its
  assertions, registers the channel for reading, moves the connection to \<open>kConnected\<close>, and then
  runs the connection callback.
\<close>

theorem new_connection_established:
  assumes "reactor_inv w" and "fresh_conn l c fd w"
  shows "\<exists>w1 w2. TcpConnection_ctor i c l name fd la pa w = Inr w1
     \<and> connectEstablished H i w1 = invoke (tc_connCB (conns w1 i)) (\<lambda>k. onConnection H k i) w2
     \<and> conn_inv i w2 \<and> connected i w2 \<and> enrolled c (own_poller c w2)"
proof -
  from TcpConnection_ctor_returns [OF assms, of i name la pa] obtain w1 where
    w1: "TcpConnection_ctor i c l name fd la pa w = Inr w1" "conn_inv i w1"
    "tc_state (conns w1 i) = kConnecting" "tc_channel (conns w1 i) = c" by blast
  from connectEstablished_runs [OF w1(2,3), of H] w1(1,4) show ?thesis by auto
qed

text \<open>
  \<open>connectDestroyed\<close> takes the connection out of its poller: with a connection callback that
  leaves the registration alone it returns, passing the assertions of \<open>Poller::removeChannel\<close>, the
  connection is \<open>kDisconnected\<close>, and its descriptor is not registered any more.
\<close>

theorem connectDestroyed_unregisters:
  assumes "conn_inv i w" and "tc_state (conns w i) = kConnected \<or> tc_state (conns w i) = kDisconnecting"
    and "enrolled (tc_channel (conns w i)) (own_poller (tc_channel (conns w i)) w)"
    and "tc_connCB (conns w i) = Some k" and "keeps_registration (onConnection H k i)"
  shows "\<exists>w'. connectDestroyed H i w = Inr w' \<and> reactor_inv w' \<and> tc_state (conns w' i) = kDisconnected
     \<and> channelMap (loop_poller (loops w' (tc_loop (conns w i)))) (tc_conn (conns w i)) = None"
  by (rule connectDestroyed_returns [OF assms])

section \<open>Examples\<close>

definition example_conn :: tcp_conn where
  "example_conn = \<lparr>tc_loop = 0, tc_name = ''c'', tc_state = kConnected, tc_conn = 9, tc_channel = 1,
     tc_localAddr = zero_addr, tc_peerAddr = zero_addr, tc_connCB = Some 0, tc_msgCB = Some 0,
     tc_writeCompleteCB = None, tc_closeCB = Some 0, tc_inputBuffer = new_buffer,
     tc_outputBuffer = new_buffer\<rparr>"

definition example_net :: "(nat \<Rightarrow> answer) \<Rightarrow> net" where
  "example_net f = \<lparr>os = f, calls = [], cur_thread = 0,
     chans = (\<lambda>c. Channel_ctor 0 (int c + 8)), loops = idle_loop, t_loop = Map.empty,
     conns = (\<lambda>_. example_conn)\<rparr>"

lemmas example_net_simps = example_net_def example_conn_def idle_loop_def Poller_ctor_def Channel_ctor_def

lemma example_net_reactor: "reactor_inv (example_net f)"
  by (simp add: reactor_inv_def example_net_def idle_loop_def Poller_ctor_inv) (simp add: Poller_ctor_def)

lemma example_net_inv: "conn_inv 0 (example_net f)"
  using example_net_reactor [of f]
  by (simp add: conn_inv_def may_update_def isInLoopThread_def own_poller_def joinable_def
      isWriting_def new_buffer_inv example_net_simps)

lemma example_net_connected: "connected 0 (example_net f)"
  by (simp add: connected_def example_net_simps)

lemma empty_output_ok: "append_ok m new_buffer"
  by (auto simp: append_ok_def new_buffer_def bufferSize_def writableBytes_def readableBytes_def initialSize_def)


definition writing_net :: "(nat \<Rightarrow> answer) \<Rightarrow> net" where
  "writing_net f = set_chan 1 (ch_events_update (\<lambda>_. 7)) (set_conn 0 (\<lambda>cn. cn\<lparr>tc_state := kDisconnecting,
     tc_outputBuffer := \<lparr>buf = ''hi      '', startIndex = 0, endIndex = 2, isFull = False\<rparr>\<rparr>) (example_net f))"

lemma writing_net_writes: "isWriting (chans (writing_net f) (tc_channel (conns (writing_net f) 0)))"
  by (simp add: writing_net_def example_net_simps isWriting_def kWriteEvent_def POLLOUT_def)

lemma writing_net_inv: "conn_inv 0 (writing_net f)"
proof -
  have "reactor_inv (writing_net f)"
    unfolding writing_net_def using example_net_reactor [of f] by (intro reactor_inv_set_chan) simp_all
  moreover have "buffer_inv (tc_outputBuffer (conns (writing_net f) 0))"
    by (simp add: writing_net_def buffer_inv_def bufferSize_def)
  moreover have "contents (tc_outputBuffer (conns (writing_net f) 0)) \<noteq> []"
    by (simp add: writing_net_def contents_def readableBytes_def)
  ultimately show ?thesis using writing_net_writes [of f]
    by (simp add: conn_inv_def may_update_def isInLoopThread_def own_poller_def joinable_def)
      (simp add: writing_net_def example_net_simps new_buffer_inv)
qed


theorem shutdown_waits_for_output_witness:
  "\<exists>w'. TcpConnection_shutdown 0 (example_net (\<lambda>n. returns 0)) = Inr w' \<and> shuts 9 (calls w')"
proof -
  have "0 \<le> ret (os (example_net (\<lambda>n. returns 0)) n)" for n by (simp add: example_net_simps returns_def)
  from shutdown_waits_for_output [OF example_net_inv example_net_connected this] show ?thesis
    by (auto simp: example_net_simps)
qed

theorem failed_write_fails_assertion_witness:
  "handleWrite 0 (writing_net (\<lambda>n. returns (- 1))) = Inl (AssertFail ''len <= readableBytes()'')"
  by (rule failed_write_fails_assertion [OF writing_net_inv writing_net_writes])
    (simp_all add: writing_net_def example_net_simps returns_def readableBytes_def)

theorem slow_reader_aborts_witness:
  "run_all (perform (TcpConnection_send 0) (handleWrite 0))
     [Send (replicate 11 (CHR ''a'')), Flush, Send ''b''] (example_net (\<lambda>n. returns (int n)))
     = Inl (AssertFail ''readable == readableBytes()'')"
  by (rule slow_reader_aborts [OF example_net_inv example_net_connected, where k = 0 and r = 1])
    (simp_all add: example_net_simps returns_def new_buffer_def bufferSize_def initialSize_def
      contents_def readableBytes_def)

definition quiet_hooks :: "net hooks" where
  "quiet_hooks = \<lparr>onConnection = (\<lambda>k i w. Inr w), onMessage = (\<lambda>k i t w. Inr w), onClose = (\<lambda>k i w. Inr w)\<rparr>"

theorem handleRead_branches_witness:
  "\<exists>w'. handleRead quiet_hooks 0 Timestamp_default (example_net (\<lambda>n. (returns 2)\<lparr>payload := ''yo''\<rparr>)) = Inr w'
     \<and> contents (tc_inputBuffer (conns w' 0)) = ''yo''"
proof -
  let ?a = "(returns 2)\<lparr>payload := ''yo''\<rparr>" let ?w = "example_net (\<lambda>n. ?a)"
  have a: "?a = os ?w (length (calls ?w))" by (simp add: example_net_def)
  have ok: "answer_ok (SysRead (tc_conn (conns ?w 0)) 65535, ?a)" by (simp add: returns_def)
  have room: "append_ok (payload ?a) (tc_inputBuffer (conns ?w 0))"
    by (simp add: example_net_simps empty_output_ok)
  from handleRead_branches [OF example_net_inv a ok room, of quiet_hooks Timestamp_default] show ?thesis
    by (auto simp: returns_def invoke_def quiet_hooks_def example_net_simps)
qed

theorem new_connection_established_witness:
  "\<exists>w1 w2. TcpConnection_ctor 1 5 0 ''n'' 20 zero_addr zero_addr (example_net (\<lambda>n. returns 0)) = Inr w1
     \<and> connectEstablished quiet_hooks 1 w1 = invoke (tc_connCB (conns w1 1)) (\<lambda>k. onConnection quiet_hooks k 1) w2
     \<and> connected 1 w2"
proof -
  have "fresh_conn 0 5 20 (example_net (\<lambda>n. returns 0))"
    by (simp add: fresh_conn_def fresh_channel_def isInLoopThread_def example_net_simps)
  from new_connection_established [OF example_net_reactor this, of 1 "''n''" zero_addr zero_addr quiet_hooks]
  show ?thesis by blast
qed

theorem connectDestroyed_unregisters_witness:
  "\<exists>w w'. connectDestroyed quiet_hooks 0 w = Inr w' \<and> tc_state (conns w' 0) = kDisconnected
     \<and> channelMap (loop_poller (loops w' 0)) 9 = None"
proof -
  let ?w0 = "set_conn 0 (tc_state_update (\<lambda>_. kConnecting)) (example_net (\<lambda>n. returns 0))"
  have inv: "conn_inv 0 ?w0" using example_net_inv by (simp add: conn_inv_def)
  have "tc_state (conns ?w0 0) = kConnecting" by simp
  from connectEstablished_runs [OF inv this, of quiet_hooks] obtain w :: net where
    w: "conn_inv 0 w" "connected 0 w"
    "enrolled (tc_channel (conns ?w0 0)) (own_poller (tc_channel (conns ?w0 0)) w)"
    "conns w = (conns ?w0)(0 := (conns ?w0 0)\<lparr>tc_state := kConnected\<rparr>)"
    by blast
  have st: "tc_channel (conns w 0) = 1" "tc_connCB (conns w 0) = Some 0" "tc_loop (conns w 0) = 0" "tc_conn (conns w 0) = 9"
    and ch0: "tc_channel (conns ?w0 0) = 1"
    using w(4) by (simp_all add: example_net_simps)
  have "enrolled (tc_channel (conns w 0)) (own_poller (tc_channel (conns w 0)) w)"
    using w(3) st(1) ch0 by simp
  note en = this
  have "keeps_registration (onConnection quiet_hooks 0 0)" by (simp add: keeps_registration_def quiet_hooks_def)
  from connectDestroyed_unregisters [OF w(1) disjI1 en st(2) this] w(2) st show ?thesis
    by (fastforce simp: connected_def)
qed

end
