(* ===== verification/ThreadPool.thy ===== *)
theory ThreadPool
  imports LoopProtocol
begin

text \<open>
  \<open>base/Thread.h\<close>, \<open>base/Thread.cpp\<close>, \<open>net/EventLoopThread.cpp\<close> and
  \<open>net/EventLoopThreadPool.cpp\<close>: a thread object, a thread that runs an event loop, and the pool of
  such threads from which a server takes loops in turn. What a new thread does before its
  creator can go on (the construction of its loop, for which \<open>EventLoopThread::startLoop\<close> waits
  on a condition variable) is part of the creator's operation; the loop it then runs is the
  subject of \<open>LoopProtocol.thy\<close>.
\<close>

section \<open>Thread\<close>

text \<open>\<open>th_joinable\<close> is the state of the member \<open>std::thread\<close>: it stands for a thread of execution.\<close>

record thread_obj =
  th_started :: bool
  th_joined :: bool
  th_joinable :: bool
  th_name :: string

text \<open>The constructor also counts the objects (\<open>_numCreated\<close>).\<close>

definition Thread_ctor :: "string \<Rightarrow> int \<Rightarrow> thread_obj \<times> int" where
  "Thread_ctor name numCreated =
     (\<lparr>th_started = False, th_joined = False, th_joinable = False, th_name = name\<rparr>, numCreated + 1)"

definition Thread_start :: "thread_obj \<Rightarrow> thread_obj result" where
  "Thread_start th =
     assert_that ''!_started'' (\<not> th_started th) (Inr (th\<lparr>th_started := True, th_joinable := True\<rparr>))"

text \<open>\<open>join\<close> waits for the end of the thread: \<open>ended\<close> says whether it ends, and None that the
  call does not return.\<close>

definition Thread_join :: "bool \<Rightarrow> thread_obj \<Rightarrow> thread_obj result option" where
  "Thread_join ended th =
     (if \<not> th_started th then Some (Inl (AssertFail ''_started''))
      else if \<not> th_joinable th then Some (Inl (AssertFail ''_thread.joinable()''))
      else if ended then Some (Inr (th\<lparr>th_joined := True, th_joinable := False\<rparr>))
      else None)"

text \<open>The destructor and that of the member: \<open>detach()\<close> throws when there is no thread of execution,
  and destroying a \<open>std::thread\<close> that is joinable terminates the process.\<close>

definition Thread_dtor :: "thread_obj \<Rightarrow> unit result" where
  "Thread_dtor th =
     bindE (if th_started th \<and> \<not> th_joined th
            then (if th_joinable th then Inr (th\<lparr>th_joinable := False\<rparr>) else Inl Abort)
            else Inr th)
       (\<lambda>th. if th_joinable th then Inl Abort else Inr ())"

section \<open>EventLoopThread\<close>

record loop_thread =
  lt_loop :: "nat option"
  lt_exiting :: bool
  lt_thread :: thread_obj

definition EventLoopThread_ctor :: "int \<Rightarrow> loop_thread \<times> int" where
  "EventLoopThread_ctor numCreated =
     (let (th, numCreated) = Thread_ctor '''' numCreated
      in (\<lparr>lt_loop = None, lt_exiting = False, lt_thread = th\<rparr>, numCreated))"

text \<open>\<open>startLoop\<close>, with the numbers of the new thread, of its loop and of the loop's wake-up channel.
  The new thread runs \<open>threadFunc\<close> up to the notification.\<close>

definition EventLoopThread_startLoop ::
  "nat \<times> nat \<times> nat \<Rightarrow> loop_thread \<Rightarrow> 'a reactor_scheme
    \<Rightarrow> (nat \<times> loop_thread \<times> 'a reactor_scheme) result" where
  "EventLoopThread_startLoop new lt w =
     (let (t, l, c) = new in
      assert_that ''!_thread.started()'' (\<not> th_started (lt_thread lt))
       (bindE (Thread_start (lt_thread lt)) (\<lambda>th.
         bindE (EventLoop_ctor l c (w\<lparr>cur_thread := t\<rparr>)) (\<lambda>w'.
           Inr (l, lt\<lparr>lt_loop := Some l, lt_thread := th\<rparr>, w'\<lparr>cur_thread := cur_thread w\<rparr>)))))"

text \<open>The rest of \<open>threadFunc\<close>, on the new thread: the loop, and the destruction of the
  \<open>EventLoop\<close> on its stack when \<open>startLoop\<close> has returned.\<close>

definition threadFunc_loop ::
  "(callback \<Rightarrow> timestamp \<Rightarrow> 'a reactor_scheme \<Rightarrow> 'a reactor_scheme result)
    \<Rightarrow> (task \<Rightarrow> 'a reactor_scheme \<Rightarrow> 'a reactor_scheme result)
    \<Rightarrow> nat \<Rightarrow> 'a reactor_scheme \<Rightarrow> 'a reactor_scheme result option" where
  "threadFunc_loop call exec l w =
     (case startLoop call exec l w of
        None \<Rightarrow> None
      | Some r \<Rightarrow> Some (bindE r (EventLoop_dtor l)))"

text \<open>The destructor, that of the member \<open>_thread\<close> included.\<close>

definition EventLoopThread_dtor :: "bool \<Rightarrow> loop_thread \<Rightarrow> unit result option" where
  "EventLoopThread_dtor ended lt =
     (let lt = lt\<lparr>lt_exiting := True\<rparr>
      in case Thread_join ended (lt_thread lt) of
           None \<Rightarrow> None
         | Some r \<Rightarrow> Some (bindE r Thread_dtor))"

section \<open>EventLoopThreadPool\<close>

record thread_pool =
  baseLoop :: nat
  pool_started :: bool
  numThreads :: int
  next_loop :: nat
  pool_threads :: "loop_thread list"
  pool_loops :: "nat list"

definition EventLoopThreadPool_ctor :: "nat \<Rightarrow> thread_pool" where
  "EventLoopThreadPool_ctor base =
     \<lparr>baseLoop = base, pool_started = False, numThreads = 0, next_loop = 0, pool_threads = [],
      pool_loops = []\<rparr>"

definition pool_setThreadNum :: "int \<Rightarrow> thread_pool \<Rightarrow> thread_pool" where
  "pool_setThreadNum n p = p\<lparr>numThreads := n\<rparr>"

text \<open>The loop of \<open>start\<close>; \<open>fresh i\<close> gives the numbers of the new objects of its turn \<open>i\<close>.\<close>

fun start_threads ::
  "(nat \<Rightarrow> nat \<times> nat \<times> nat) \<Rightarrow> nat list \<Rightarrow> thread_pool \<times> int \<Rightarrow> 'a reactor_scheme
    \<Rightarrow> ((thread_pool \<times> int) \<times> 'a reactor_scheme) result" where
  "start_threads fresh [] s w = Inr (s, w)"
| "start_threads fresh (i # is) (p, numCreated) w =
     (let (lt, numCreated) = EventLoopThread_ctor numCreated in
      bindE (EventLoopThread_startLoop (fresh i) lt w) (\<lambda>(l, lt, w).
        start_threads fresh is
          (p\<lparr>pool_threads := pool_threads p @ [lt], pool_loops := pool_loops p @ [l]\<rparr>, numCreated) w))"

definition EventLoopThreadPool_start ::
  "(nat \<Rightarrow> nat \<times> nat \<times> nat) \<Rightarrow> thread_pool \<times> int \<Rightarrow> 'a reactor_scheme
    \<Rightarrow> ((thread_pool \<times> int) \<times> 'a reactor_scheme) result" where
  "EventLoopThreadPool_start fresh s w =
     (let (p, numCreated) = s in
      assert_that ''!_started'' (\<not> pool_started p)
       (assert_that ''_baseLoop->isInLoopThread()'' (isInLoopThread (baseLoop p) w)
         (start_threads fresh [0..<nat (numThreads p)] (p\<lparr>pool_started := True\<rparr>, numCreated) w)))"

definition getNextLoop :: "thread_pool \<Rightarrow> 'a reactor_scheme \<Rightarrow> (nat \<times> thread_pool) result" where
  "getNextLoop p w =
     assert_that ''_baseLoop->isInLoopThread()'' (isInLoopThread (baseLoop p) w)
      (if pool_loops p \<noteq> [] then
         if next_loop p < length (pool_loops p) then
           let loop = pool_loops p ! next_loop p; n = next_loop p + 1
           in Inr (loop, p\<lparr>next_loop := if length (pool_loops p) \<le> n then 0 else n\<rparr>)
         else Inl OutOfBounds
       else Inr (baseLoop p, p))"

section \<open>Threads are joined or detached\<close>

datatype thread_op = ThStart | ThJoin bool

text \<open>A \<open>join\<close> that does not return changes nothing.\<close>

fun thread_perform :: "thread_op \<Rightarrow> thread_obj \<Rightarrow> thread_obj result" where
  "thread_perform ThStart th = Thread_start th"
| "thread_perform (ThJoin ended) th =
     (case Thread_join ended th of None \<Rightarrow> Inr th | Some r \<Rightarrow> r)"

definition thread_inv :: "thread_obj \<Rightarrow> bool" where
  "thread_inv th \<longleftrightarrow> (th_joinable th \<longleftrightarrow> th_started th \<and> \<not> th_joined th) \<and> (th_joined th \<longrightarrow> th_started th)"

lemma thread_perform_inv: "thread_inv th \<Longrightarrow> thread_perform op th = Inr th' \<Longrightarrow> thread_inv th'"
  by (cases op) (auto simp: thread_inv_def Thread_start_def Thread_join_def result_simps split: if_splits)

lemma Thread_ctor_inv: "thread_inv (fst (Thread_ctor name n))"
  by (simp add: thread_inv_def Thread_ctor_def)

lemma thread_dtor_returns: "thread_inv th \<Longrightarrow> Thread_dtor th = Inr ()"
  by (auto simp: thread_inv_def Thread_dtor_def)

section \<open>Round robin\<close>

definition pool_inv :: "thread_pool \<Rightarrow> bool" where
  "pool_inv p \<longleftrightarrow> next_loop p < length (pool_loops p) \<or> pool_loops p = [] \<and> next_loop p = 0"

primrec take_loops :: "nat \<Rightarrow> thread_pool \<Rightarrow> 'a reactor_scheme \<Rightarrow> (nat list \<times> thread_pool) result" where
  "take_loops 0 p w = Inr ([], p)"
| "take_loops (Suc n) p w =
     bindE (getNextLoop p w) (\<lambda>(l, p). bindE (take_loops n p w) (\<lambda>(ls, p). Inr (l # ls, p)))"

lemma getNextLoop_returns:
  assumes "pool_inv p" "pool_loops p \<noteq> []" "isInLoopThread (baseLoop p) w"
  shows "getNextLoop p w = Inr (pool_loops p ! next_loop p,
     p\<lparr>next_loop := (next_loop p + 1) mod length (pool_loops p)\<rparr>)"
  using assms by (auto simp: getNextLoop_def pool_inv_def Let_def mod_if)

lemma take_loops_returns:
  assumes "pool_inv p" "pool_loops p \<noteq> []" "isInLoopThread (baseLoop p) w"
  shows "take_loops n p w = Inr
     (map (\<lambda>i. pool_loops p ! ((next_loop p + i) mod length (pool_loops p))) [0..<n],
      p\<lparr>next_loop := (next_loop p + n) mod length (pool_loops p)\<rparr>)"
  using assms
proof (induction n arbitrary: p)
  case 0
  then show ?case by (auto simp: pool_inv_def)
next
  case (Suc n)
  let ?m = "length (pool_loops p)"
  let ?p = "p\<lparr>next_loop := (next_loop p + 1) mod ?m\<rparr>"
  have lt: "next_loop p < ?m" using Suc.prems by (auto simp: pool_inv_def)
  have "pool_inv ?p" using Suc.prems by (simp add: pool_inv_def)
  from Suc.IH [of ?p] this Suc.prems have "take_loops n ?p w = Inr
     (map (\<lambda>i. pool_loops p ! (((next_loop p + 1) mod ?m + i) mod ?m)) [0..<n],
      p\<lparr>next_loop := ((next_loop p + 1) mod ?m + n) mod ?m\<rparr>)" by simp
  then show ?case using getNextLoop_returns [OF Suc.prems] lt
    by (simp add: upt_conv_Cons map_Suc_upt [symmetric] mod_add_left_eq del: upt_Suc) 
qed

section \<open>Starting a pool\<close>

text \<open>The numbers a pool needs for its new objects: threads without a loop, channels without an
  entry, all of them different; and a kernel that grants eventfds.\<close>

abbreviation new_thread :: "nat \<times> nat \<times> nat \<Rightarrow> nat" where "new_thread \<equiv> fst"
abbreviation new_loop :: "nat \<times> nat \<times> nat \<Rightarrow> nat" where "new_loop n \<equiv> fst (snd n)"
abbreviation new_channel :: "nat \<times> nat \<times> nat \<Rightarrow> nat" where "new_channel n \<equiv> snd (snd n)"

definition pool_free :: "(nat \<times> nat \<times> nat) list \<Rightarrow> 'a reactor_scheme \<Rightarrow> bool" where
  "pool_free ns w \<longleftrightarrow> distinct (map new_thread ns) \<and> distinct (map new_loop ns)
     \<and> distinct (map new_channel ns) \<and> (\<forall>k. 0 \<le> ret (os w k))
     \<and> (\<forall>n \<in> set ns. t_loop w (new_thread n) = None \<and> fresh_channel (new_channel n) w)"

text \<open>The loop and the thread of a new object have found each other.\<close>

definition settled :: "nat \<times> nat \<times> nat \<Rightarrow> 'a reactor_scheme \<Rightarrow> bool" where
  "settled n w \<longleftrightarrow> threadId (loops w (new_loop n)) = new_thread n
     \<and> t_loop w (new_thread n) = Some (new_loop n)"

lemma startLoop_returns:
  assumes inv: "reactor_inv w" and free: "pool_free (n # ns) w" and lt: "\<not> th_started (lt_thread lt)"
  shows "\<exists>lt' w'. EventLoopThread_startLoop n lt w = Inr (new_loop n, lt', w') \<and> reactor_inv w'
     \<and> pool_free ns w' \<and> settled n w' \<and> cur_thread w' = cur_thread w
     \<and> (\<forall>k. k \<noteq> new_loop n \<longrightarrow> loops w' k = loops w k)
     \<and> (\<forall>t. t \<noteq> new_thread n \<longrightarrow> t_loop w' t = t_loop w t)"
proof -
  obtain t l c where n: "n = (t, l, c)" by (cases n) auto
  let ?w = "w\<lparr>cur_thread := t\<rparr>"
  have ok: "0 \<le> ret (os ?w (length (calls ?w)))" "t_loop ?w (cur_thread ?w) = None"
    using free n by (auto simp: pool_free_def)
  have "ctor_ok l c ?w" using free n by (auto simp: pool_free_def ctor_ok_def fresh_channel_def)
  moreover have "reactor_inv ?w" using inv by (simp add: reactor_inv_def)
  ultimately obtain v where v: "EventLoop_ctor l c ?w = Inr v" "reactor_inv v"
    using EventLoop_ctor_returns by blast
  note frame = EventLoop_ctor_frame [OF ok v(1)]
  let ?v = "v\<lparr>cur_thread := cur_thread w\<rparr>"
  have fresh: "fresh_channel d ?v" if d: "d \<noteq> c" "fresh_channel d w" for d
    unfolding fresh_channel_def
  proof (intro allI)
    fix k fd
    show "channelMap (loop_poller (loops ?v k)) fd \<noteq> Some d"
      using d frame(4,6) by (cases "k = l") (auto simp: fresh_channel_def)
  qed
  have "fresh_channel (new_channel m) ?v \<and> t_loop ?v (new_thread m) = None" if m: "m \<in> set ns" for m
  proof -
    have "new_channel m \<noteq> c" "new_thread m \<noteq> t" using free n m by (force simp: pool_free_def)+
    with fresh frame(3) free m show ?thesis by (simp add: pool_free_def)
  qed
  then have "pool_free ns ?v" using free frame(1) by (simp add: pool_free_def)
  moreover have "reactor_inv ?v" using v(2) by (simp add: reactor_inv_def)
  moreover have "settled n ?v" using frame(3,5) n by (simp add: settled_def)
  ultimately show ?thesis using v(1) lt n frame(3,6)
    by (simp add: EventLoopThread_startLoop_def Thread_start_def)
qed

lemma start_threads_returns:
  assumes "reactor_inv w" "pool_free (map fresh is) w"
  shows "\<exists>ts w'. start_threads fresh is (p, c) w
       = Inr ((p\<lparr>pool_threads := pool_threads p @ ts, pool_loops := pool_loops p @ map (new_loop \<circ> fresh) is\<rparr>,
               c + int (length is)), w')
     \<and> length ts = length is \<and> reactor_inv w' \<and> cur_thread w' = cur_thread w
     \<and> (\<forall>k. k \<notin> new_loop ` fresh ` set is \<longrightarrow> loops w' k = loops w k)
     \<and> (\<forall>t. t \<notin> new_thread ` fresh ` set is \<longrightarrow> t_loop w' t = t_loop w t)
     \<and> (\<forall>i \<in> set is. settled (fresh i) w')"
  using assms
proof (induction "is" arbitrary: p c w)
  case Nil
  then show ?case by (auto intro: exI [of _ "[]"])
next
  case (Cons i "is")
  let ?lt = "fst (EventLoopThread_ctor c)"
  have "\<not> th_started (lt_thread ?lt)" by (simp add: EventLoopThread_ctor_def Thread_ctor_def)
  from startLoop_returns [OF Cons.prems(1) _ this, of "fresh i" "map fresh is"] Cons.prems(2)
  obtain lt v where v: "EventLoopThread_startLoop (fresh i) ?lt w = Inr (new_loop (fresh i), lt, v)"
    "reactor_inv v" "pool_free (map fresh is) v" "settled (fresh i) v" "cur_thread v = cur_thread w"
    "\<And>k. k \<noteq> new_loop (fresh i) \<Longrightarrow> loops v k = loops w k"
    "\<And>t. t \<noteq> new_thread (fresh i) \<Longrightarrow> t_loop v t = t_loop w t" by auto
  let ?p = "p\<lparr>pool_threads := pool_threads p @ [lt], pool_loops := pool_loops p @ [new_loop (fresh i)]\<rparr>"
  from Cons.IH [OF v(2,3), of ?p "c + 1"] obtain ts w' where
    w': "start_threads fresh is (?p, c + 1) v
       = Inr ((?p\<lparr>pool_threads := pool_threads ?p @ ts, pool_loops := pool_loops ?p @ map (new_loop \<circ> fresh) is\<rparr>,
               c + 1 + int (length is)), w')" "length ts = length is" "reactor_inv w'"
    "cur_thread w' = cur_thread v" "\<And>k. k \<notin> new_loop ` fresh ` set is \<Longrightarrow> loops w' k = loops v k"
    "\<And>t. t \<notin> new_thread ` fresh ` set is \<Longrightarrow> t_loop w' t = t_loop v t"
    "\<And>j. j \<in> set is \<Longrightarrow> settled (fresh j) w'" by blast
  have "start_threads fresh (i # is) (p, c) w = start_threads fresh is (?p, c + 1) v"
    using v(1) by (simp add: EventLoopThread_ctor_def Thread_ctor_def)
  moreover have "settled (fresh i) w'"
    using v(4) w'(5,6) Cons.prems(2) by (auto simp: settled_def pool_free_def image_image)
  ultimately show ?case using w' v(5-7)
    by (intro exI [of _ "lt # ts"] exI [of _ w']) auto
qed

text \<open>A pool of \<open>n\<close> threads, set up and started.\<close>

lemma pool_starts:
  assumes "reactor_inv w" "pool_free (map fresh [0..<nat n]) w" "isInLoopThread base w" "0 \<le> n"
    and "base \<notin> new_loop ` fresh ` {..<nat n}"
  shows "\<exists>p w'. EventLoopThreadPool_start fresh (pool_setThreadNum n (EventLoopThreadPool_ctor base), c) w
       = Inr ((p, c + n), w')
     \<and> reactor_inv w' \<and> isInLoopThread base w' \<and> pool_loops p = map (new_loop \<circ> fresh) [0..<nat n]
     \<and> baseLoop p = base \<and> next_loop p = 0 \<and> length (pool_threads p) = nat n
     \<and> (\<forall>i<nat n. settled (fresh i) w')"
proof -
  let ?p = "(EventLoopThreadPool_ctor base)\<lparr>numThreads := n, pool_started := True\<rparr>"
  from start_threads_returns [OF assms(1,2), of ?p c] obtain ts w' where
    w': "start_threads fresh [0..<nat n] (?p, c) w = Inr ((?p\<lparr>pool_threads := pool_threads ?p @ ts,
       pool_loops := pool_loops ?p @ map (new_loop \<circ> fresh) [0..<nat n]\<rparr>, c + n), w')"
    "length ts = nat n" "reactor_inv w'" "cur_thread w' = cur_thread w"
    "\<And>k. k \<notin> new_loop ` fresh ` set [0..<nat n] \<Longrightarrow> loops w' k = loops w k"
    "\<And>i. i \<in> set [0..<nat n] \<Longrightarrow> settled (fresh i) w'" using assms(4) by auto
  have "isInLoopThread base w'" using assms(3,5) w'(4,5) by (simp add: isInLoopThread_def atLeast0LessThan)
  then show ?thesis using w' assms(3)
    by (simp add: EventLoopThreadPool_start_def pool_setThreadNum_def EventLoopThreadPool_ctor_def)
qed

section \<open>A loop nobody quits\<close>

text \<open>The protocol without the steps that set \<open>_quit\<close>.\<close>

definition unquit_step :: "protocol \<Rightarrow> protocol \<Rightarrow> bool" where
  "unquit_step s t \<longleftrightarrow> protocol_step s t \<and> \<not> quitting t"

definition keeps_looping :: "protocol \<Rightarrow> bool" where
  "keeps_looping s \<longleftrightarrow> \<not> quitting s \<and> pc s \<noteq> Exited"

lemma turn_step_exits: "turn_step s t \<Longrightarrow> pc t = Exited \<Longrightarrow> quitting s"
  by (erule turn_stepE) auto

lemma other_step_pc: "other_step s t \<Longrightarrow> pc t = pc s"
  by (erule other_stepE) auto

lemma own_step_pc: "own_step s t \<Longrightarrow> pc t = pc s"
  by (erule own_stepE) auto

lemma unquit_keeps_looping: "keeps_looping s \<Longrightarrow> unquit_step s t \<Longrightarrow> keeps_looping t"
  unfolding keeps_looping_def unquit_step_def
  by (auto elim!: protocol_stepE dest: turn_step_exits other_step_pc own_step_pc)

interpretation unquit: invariant_system protocol_start unquit_step keeps_looping
  by unfold_locales
    (simp add: protocol_start_def keeps_looping_def, fact unquit_keeps_looping)

section \<open>Properties\<close>

text \<open>
  C35. A pool of \<open>n > 0\<close> threads starts, one new loop per thread: every assertion passes, the agreement
  of all pollers holds afterwards, and each new loop belongs to its own thread, which has no other
  loop. Then \<open>k\<close> calls of \<open>getNextLoop\<close> return these loops in the cyclic order of their
  creation, every access to the vector within its bounds.
\<close>

theorem loops_in_turn:
  assumes "reactor_inv w" and "pool_free (map fresh [0..<nat n]) w" and "isInLoopThread base w"
    and "base \<notin> new_loop ` fresh ` {..<nat n}" and "0 < n"
  shows "\<exists>p w'. EventLoopThreadPool_start fresh (pool_setThreadNum n (EventLoopThreadPool_ctor base), c) w
       = Inr ((p, c + n), w') \<and> reactor_inv w' \<and> (\<forall>i<nat n. settled (fresh i) w')
     \<and> take_loops k p w' = Inr (map (\<lambda>i. new_loop (fresh (i mod nat n))) [0..<k],
         p\<lparr>next_loop := k mod nat n\<rparr>)"
proof -
  from pool_starts [OF assms(1-3) _ assms(4), of c] assms(5) obtain p w' where
    p: "EventLoopThreadPool_start fresh (pool_setThreadNum n (EventLoopThreadPool_ctor base), c) w
       = Inr ((p, c + n), w')" "reactor_inv w'" "isInLoopThread base w'"
    "pool_loops p = map (new_loop \<circ> fresh) [0..<nat n]" "baseLoop p = base" "next_loop p = 0"
    "\<forall>i<nat n. settled (fresh i) w'" by auto
  have "pool_inv p" "pool_loops p \<noteq> []" using p(4,6) assms(5) by (auto simp: pool_inv_def)
  from take_loops_returns [OF this, of w' k] p assms(5) show ?thesis
    by (intro exI [of _ p] exI [of _ w']) simp
qed

text \<open>
  C36. The destructor of a started \<open>EventLoopThread\<close> waits for somebody else's \<open>quitLoop\<close>: as long as
  nobody sets \<open>_quit\<close>, the loop's thread has not ended at any point the loop can reach, and the
  destructor does not return; once the thread has ended, it does.
\<close>

theorem destructor_needs_quit:
  assumes "reach protocol_start unquit_step s"
    and "th_started (lt_thread lt)" and "th_joinable (lt_thread lt)"
  shows "EventLoopThread_dtor (pc s = Exited) lt = None \<and> EventLoopThread_dtor True lt = Some (Inr ())"
  using unquit.reach_inv [OF assms(1)] assms(2,3)
  by (simp add: keeps_looping_def EventLoopThread_dtor_def Thread_join_def Thread_dtor_def)

text \<open>
  Whatever calls of \<open>start\<close> and \<open>join\<close> a thread object has seen, its destructor neither detaches a
  thread that is not there nor destroys a \<open>std::thread\<close> that is still joinable.
\<close>

theorem thread_destructor_safe:
  assumes "run_all thread_perform ops (fst (Thread_ctor name numCreated)) = Inr th"
  shows "Thread_dtor th = Inr ()"
proof (rule thread_dtor_returns)
  show "thread_inv th"
    using run_all_inv [where I = thread_inv, OF _ Thread_ctor_inv assms] thread_perform_inv by blast
qed

section \<open>Examples\<close>

definition example_fresh :: "nat \<Rightarrow> nat \<times> nat \<times> nat" where
  "example_fresh i = (i + 1, i + 1, i + 10)"

lemma example_pool_free: "pool_free (map example_fresh [0..<nat 2]) first_state"
  by (simp add: pool_free_def example_fresh_def upt_rec first_state_def idle_loop_def returns_def
      fresh_channel_def Poller_ctor_def)

theorem loops_in_turn_witness:
  "\<exists>p w'. EventLoopThreadPool_start example_fresh (pool_setThreadNum 2 (EventLoopThreadPool_ctor 0), 0)
     first_state = Inr ((p, 2), w') \<and> threadId (loops w' 2) = 2
     \<and> take_loops 3 p w' = Inr ([1, 2, 1], p\<lparr>next_loop := 1\<rparr>)"
proof -
  have base: "isInLoopThread 0 first_state" "0 \<notin> new_loop ` example_fresh ` {..<nat 2}"
    by (auto simp: isInLoopThread_def first_state_def idle_loop_def example_fresh_def)
  from loops_in_turn [OF first_state_inv example_pool_free base, of 0 3] obtain p w' where
    p: "EventLoopThreadPool_start example_fresh (pool_setThreadNum 2 (EventLoopThreadPool_ctor 0), 0)
       first_state = Inr ((p, 2), w')" "settled (example_fresh 1) w'"
    "take_loops 3 p w' = Inr (map (\<lambda>i. new_loop (example_fresh (i mod nat 2))) [0..<3],
         p\<lparr>next_loop := 3 mod nat 2\<rparr>)" by auto
  then show ?thesis by (simp add: upt_rec example_fresh_def settled_def flip: numeral_2_eq_2)
qed

theorem destructor_needs_quit_witness:
  "\<exists>(s :: protocol) lt. pc s = AtPoll \<and> lt_loop lt = Some 1 \<and> EventLoopThread_dtor (pc s = Exited) lt = None"
proof -
  let ?s0 = "\<lparr>pc = BeforeStart, calling = False, quitting = False, pending = [],
     counter = 0, self_owes = False, owes = 0, pushed = [], executed = [], early = False\<rparr>"
  let ?s1 = "?s0\<lparr>pc := AtTest\<rparr>" and ?s2 = "?s0\<lparr>pc := AtPoll\<rparr>"
  let ?lt = "\<lparr>lt_loop = Some 1, lt_exiting = False, lt_thread = \<lparr>th_started = True,
     th_joined = False, th_joinable = True, th_name = ''''\<rparr>\<rparr>"
  have "reach protocol_start unquit_step ?s0" by (rule reach_start) (simp add: protocol_start_def)
  moreover have "unquit_step ?s0 ?s1"
    using by_turn [OF enter [of ?s0]] by (simp add: unquit_step_def)
  moreover have "unquit_step ?s1 ?s2"
    using by_turn [OF go_on [of ?s1]] by (simp add: unquit_step_def)
  ultimately have "reach protocol_start unquit_step ?s2" by (blast intro: reach_step)
  then have "EventLoopThread_dtor (pc ?s2 = Exited) ?lt = None"
    using destructor_needs_quit [of ?s2 ?lt] by simp
  then show ?thesis by (intro exI [of _ ?s2] exI [of _ ?lt]) simp
qed

theorem thread_destructor_safe_witness:
  "\<exists>th. run_all thread_perform [ThStart] (fst (Thread_ctor ''t'' 0)) = Inr th \<and> Thread_dtor th = Inr ()"
proof -
  obtain th where "run_all thread_perform [ThStart] (fst (Thread_ctor ''t'' 0)) = Inr th"
    by (simp add: Thread_start_def Thread_ctor_def)
  with thread_destructor_safe [OF this] show ?thesis by blast
qed

end
