(* ===== verification/TcpServer.thy ===== *)
theory TcpServer
  imports TcpConnection ThreadPool
begin

text \<open>
  \<open>net/Acceptor.h\<close>, \<open>net/Acceptor.cpp\<close>, \<open>net/TcpServer.h\<close> and \<open>net/TcpServer.cpp\<close>: the
  listening socket, and the server that makes a connection of every accepted socket and forgets it when it
  is closed. This is also where names get their meaning: \<open>server_call\<close> interprets the callbacks
  bound to channels, \<open>server_exec\<close> the queued functors; with them, \<open>startLoop\<close> of
  \<open>EventLoop.thy\<close> is the server program. The user's callbacks are the parameter \<open>A\<close>.
\<close>

section \<open>The classes\<close>

record acceptor =
  acc_loop :: nat
  acc_socket :: int
  acc_channel :: nat
  acc_newConnCB :: "nat option"
  acc_listenning :: bool

record tcp_server =
  srv_loop :: nat
  srv_name :: string
  srv_acceptor :: nat
  srv_pool :: thread_pool
  srv_connCB :: "nat option"
  srv_msgCB :: "nat option"
  srv_writeCompleteCb :: "nat option"
  srv_started :: bool
  srv_nextConnId :: int
  srv_connMap :: "string \<rightharpoonup> nat"

text \<open>\<open>next_object\<close> is the number of the next connection object, and of its channel.\<close>

record world = net +
  acceptors :: "nat \<Rightarrow> acceptor"
  servers :: "nat \<Rightarrow> tcp_server"
  next_object :: nat

definition set_acceptor :: "nat \<Rightarrow> (acceptor \<Rightarrow> acceptor) \<Rightarrow> 'a world_scheme \<Rightarrow> 'a world_scheme" where
  "set_acceptor a f w = w\<lparr>acceptors := (acceptors w)(a := f (acceptors w a))\<rparr>"

definition set_server :: "nat \<Rightarrow> (tcp_server \<Rightarrow> tcp_server) \<Rightarrow> 'a world_scheme \<Rightarrow> 'a world_scheme" where
  "set_server s f w = w\<lparr>servers := (servers w)(s := f (servers w s))\<rparr>"

text \<open>The user's callbacks: on connection, on message, on completion of a write, the functors and the
  channel callbacks of the user's own.\<close>

record 'w app =
  app_connection :: "nat \<Rightarrow> nat \<Rightarrow> 'w \<Rightarrow> 'w result"
  app_message :: "nat \<Rightarrow> nat \<Rightarrow> timestamp \<Rightarrow> 'w \<Rightarrow> 'w result"
  app_writeComplete :: "nat \<Rightarrow> nat \<Rightarrow> 'w \<Rightarrow> 'w result"
  app_functor :: "task \<Rightarrow> 'w \<Rightarrow> 'w result"
  app_callback :: "callback \<Rightarrow> timestamp \<Rightarrow> 'w \<Rightarrow> 'w result"

section \<open>Closing a connection\<close>

definition removeConnectionInLoop :: "nat \<Rightarrow> nat \<Rightarrow> 'a world_scheme \<Rightarrow> 'a world_scheme result" where
  "removeConnectionInLoop s i w =
     assert_that ''_loop->isInLoopThread()'' (isInLoopThread (srv_loop (servers w s)) w)
      (let name = tc_name (conns w i); m = srv_connMap (servers w s);
           w = set_server s (srv_connMap_update (\<lambda>m. m(name := None))) w
       in assert_that ''n == 1'' (m name \<noteq> None)
           (queueInLoop (tc_loop (conns w i)) (ConnectDestroyed i) w))"

definition removeConnection :: "nat \<Rightarrow> nat \<Rightarrow> 'a world_scheme \<Rightarrow> 'a world_scheme result" where
  "removeConnection s i w =
     runInLoop (srv_loop (servers w s)) (RemoveConnectionInLoop s i) (removeConnectionInLoop s i) w"

text \<open>The callbacks of the connections of a server: the user's, and \<open>removeConnection\<close>.\<close>

definition server_hooks :: "'a world_scheme app \<Rightarrow> 'a world_scheme hooks" where
  "server_hooks A = \<lparr>onConnection = app_connection A, onMessage = app_message A,
                     onClose = removeConnection\<rparr>"

section \<open>Accepting a connection\<close>

definition newConnection ::
  "'a world_scheme app \<Rightarrow> nat \<Rightarrow> int \<Rightarrow> sockaddr_in \<Rightarrow> 'a world_scheme \<Rightarrow> 'a world_scheme result" where
  "newConnection A s connfd peerAddr w =
     assert_that ''_loop->isInLoopThread()'' (isInLoopThread (srv_loop (servers w s)) w)
      (if srv_nextConnId (servers w s) = 2 ^ 31 - 1 then Inl SignedOverflow
       else let buf = snprintf 32 (''#'' @ show_int (srv_nextConnId (servers w s)));
           w = set_server s (srv_nextConnId_update (\<lambda>n. n + 1)) w;
           connName = srv_name (servers w s) @ buf in
       bindE (Socket_getLocalAddr connfd w) (\<lambda>(localAddr, w).
         bindE (getNextLoop (srv_pool (servers w s)) w) (\<lambda>(ioLoop, pool).
           let w = set_server s (srv_pool_update (\<lambda>_. pool)) w; i = next_object w in
           bindE (TcpConnection_ctor i i ioLoop connName connfd (CapsuledAddr_of localAddr) peerAddr
                    (w\<lparr>next_object := i + 1\<rparr>)) (\<lambda>w.
             let w = set_server s (srv_connMap_update (\<lambda>m. m(connName \<mapsto> i))) w;
                 srv = servers w s;
                 w = set_conn i (\<lambda>cn. TcpConnection_setCloseCallback (Some s)
                       (TcpConnection_setWriteCompleteCallback (srv_writeCompleteCb srv)
                         (TcpConnection_setMessageCallback (srv_msgCB srv)
                           (TcpConnection_setConnectionCallback (srv_connCB srv) cn)))) w
             in runInLoop ioLoop (ConnectEstablished i) (connectEstablished (server_hooks A) i) w))))"

text \<open>\<open>Acceptor\<close>: the callback it is given is the \<open>newConnection\<close> of the server it names.\<close>

definition Acceptor_ctor :: "nat \<Rightarrow> nat \<Rightarrow> nat \<Rightarrow> sockaddr_in \<Rightarrow> 'a world_scheme \<Rightarrow> 'a world_scheme result" where
  "Acceptor_ctor a c loop listenAddr w =
     bindE (Socket_createNonblockingOrDie w) (\<lambda>(fd, w).
       let w = w\<lparr>acceptors := (acceptors w)(a := \<lparr>acc_loop = loop, acc_socket = fd, acc_channel = c,
                    acc_newConnCB = None, acc_listenning = False\<rparr>),
                 chans := (chans w)(c := Channel_ctor loop fd)\<rparr>;
           w = Socket_setReuseAddr fd True w
       in bindE (Socket_bindAddress fd listenAddr w) (\<lambda>w.
            Inr (set_chan c (Channel_setReadCallback (AcceptorHandleNewConnection a)) w)))"

definition Acceptor_setNewConnectionCallback :: "nat \<Rightarrow> nat \<Rightarrow> 'a world_scheme \<Rightarrow> 'a world_scheme" where
  "Acceptor_setNewConnectionCallback a s w = set_acceptor a (acc_newConnCB_update (\<lambda>_. Some s)) w"

definition Acceptor_listen :: "nat \<Rightarrow> 'a world_scheme \<Rightarrow> 'a world_scheme result" where
  "Acceptor_listen a w =
     assert_that ''_loop->isInLoopThread()'' (isInLoopThread (acc_loop (acceptors w a)) w)
      (let w = set_acceptor a (acc_listenning_update (\<lambda>_. True)) w
       in bindE (Socket_listen (acc_socket (acceptors w a)) w)
            (Channel_enableReading (acc_channel (acceptors w a))))"

definition Acceptor_handleNewConnection ::
  "bool \<Rightarrow> 'a world_scheme app \<Rightarrow> nat \<Rightarrow> 'a world_scheme \<Rightarrow> 'a world_scheme result" where
  "Acceptor_handleNewConnection big_endian A a w =
     assert_that ''_loop->isInLoopThread()'' (isInLoopThread (acc_loop (acceptors w a)) w)
      (let (connfd, peerAddr, w) =
             Socket_accept (acc_socket (acceptors w a)) (CapsuledAddr_port big_endian 0) w
       in if connfd \<ge> 0 then
            (case acc_newConnCB (acceptors w a) of
               Some s \<Rightarrow> newConnection A s connfd peerAddr w
             | None \<Rightarrow> FileDescriptor_close connfd w)
          else Inr w)"

section \<open>The server\<close>

definition TcpServer_ctor ::
  "bool \<Rightarrow> nat \<Rightarrow> nat \<Rightarrow> nat \<Rightarrow> nat \<Rightarrow> sockaddr_in \<Rightarrow> 'a world_scheme \<Rightarrow> 'a world_scheme result" where
  "TcpServer_ctor big_endian s a c loop listenAddr w =
     bindE (Acceptor_ctor a c loop listenAddr w) (\<lambda>w.
       let w = w\<lparr>servers := (servers w)(s := \<lparr>srv_loop = loop, srv_name = addr_toString big_endian listenAddr,
                   srv_acceptor = a, srv_pool = EventLoopThreadPool_ctor loop, srv_connCB = None,
                   srv_msgCB = None, srv_writeCompleteCb = None, srv_started = False,
                   srv_nextConnId = 1, srv_connMap = Map.empty\<rparr>)\<rparr>
       in Inr (Acceptor_setNewConnectionCallback a s w))"

text \<open>The setters of the user's callbacks.\<close>

definition TcpServer_setConnectionCallback :: "nat \<Rightarrow> nat \<Rightarrow> 'a world_scheme \<Rightarrow> 'a world_scheme" where
  "TcpServer_setConnectionCallback s cb w = set_server s (srv_connCB_update (\<lambda>_. Some cb)) w"

definition TcpServer_setMessageCallback :: "nat \<Rightarrow> nat \<Rightarrow> 'a world_scheme \<Rightarrow> 'a world_scheme" where
  "TcpServer_setMessageCallback s cb w = set_server s (srv_msgCB_update (\<lambda>_. Some cb)) w"

definition TcpServer_setWriteCompleteCallback :: "nat \<Rightarrow> nat \<Rightarrow> 'a world_scheme \<Rightarrow> 'a world_scheme" where
  "TcpServer_setWriteCompleteCallback s cb w = set_server s (srv_writeCompleteCb_update (\<lambda>_. Some cb)) w"

definition TcpServer_setThreadNum :: "nat \<Rightarrow> int \<Rightarrow> 'a world_scheme \<Rightarrow> 'a world_scheme result" where
  "TcpServer_setThreadNum s n w =
     assert_that ''numThreads >= 0'' (n \<ge> 0)
       (Inr (set_server s (srv_pool_update (pool_setThreadNum n)) w))"

definition TcpServer_start :: "nat \<Rightarrow> 'a world_scheme \<Rightarrow> 'a world_scheme result" where
  "TcpServer_start s w =
     (let w = (if \<not> srv_started (servers w s) then set_server s (srv_started_update (\<lambda>_. True)) w else w);
          a = srv_acceptor (servers w s)
      in if \<not> acc_listenning (acceptors w a)
         then runInLoop (srv_loop (servers w s)) (AcceptorListen a) (Acceptor_listen a) w
         else Inr w)"

section \<open>The meaning of names\<close>

fun server_call ::
  "bool \<Rightarrow> 'a world_scheme app \<Rightarrow> callback \<Rightarrow> timestamp \<Rightarrow> 'a world_scheme \<Rightarrow> 'a world_scheme result" where
  "server_call be A (LoopHandleRead l) t = EventLoop_handleRead l"
| "server_call be A (AcceptorHandleNewConnection a) t = Acceptor_handleNewConnection be A a"
| "server_call be A (ConnHandleRead i) t = handleRead (server_hooks A) i t"
| "server_call be A (ConnHandleWrite i) t = handleWrite i"
| "server_call be A (ConnHandleClose i) t = handleClose (server_hooks A) i"
| "server_call be A (ConnHandleError i) t = handleError i"
| "server_call be A cb t = app_callback A cb t"

fun server_exec :: "'a world_scheme app \<Rightarrow> task \<Rightarrow> 'a world_scheme \<Rightarrow> 'a world_scheme result" where
  "server_exec A (AcceptorListen a) = Acceptor_listen a"
| "server_exec A (ConnectEstablished i) = connectEstablished (server_hooks A) i"
| "server_exec A (ConnectDestroyed i) = connectDestroyed (server_hooks A) i"
| "server_exec A (SendInLoop i m) = sendInLoop i m"
| "server_exec A (ShutDownInLoop i) = shutDownInLoop i"
| "server_exec A (WriteCompleteCB k i) = app_writeComplete A k i"
| "server_exec A (RemoveConnectionInLoop s i) = removeConnectionInLoop s i"
| "server_exec A f = app_functor A f"

end
