(* ===== verification/LoopClient.thy ===== *)
theory LoopClient
  imports EventLoop
begin

text \<open>
  The contract between an event loop and the program that runs on it. The program gives the
  meaning of the bound callbacks (\<open>call\<close>) and of the queued functors (\<open>exec\<close>), and a predicate \<open>I\<close> on
  the functors that are still to be run and the state. When every callback and functor that
  returns keeps the predicate, so does the loop, for as long as it runs. The first part
  describes what a poller or loop operation that returned has changed, whatever its arguments were.
\<close>

section \<open>Operations that returned\<close>

definition registered :: "nat \<Rightarrow> 'a reactor_scheme \<Rightarrow> bool" where
  "registered c w \<longleftrightarrow> (\<exists>l fd. channelMap (loop_poller (loops w l)) fd = Some c)"

text \<open>A channel that was registered and removed: it cannot be registered again.\<close>

definition retired :: "nat \<Rightarrow> 'a reactor_scheme \<Rightarrow> bool" where
  "retired c w \<longleftrightarrow> \<not> registered c w \<and> 0 \<le> ch_index (chans w c)"

lemma Poller_update_returned:
  assumes "Poller_updateChannel b c (p, chs) = Inr (p', chs')"
  shows "b" "\<exists>k. chs' = chs(c := (chs c)\<lparr>ch_index := k\<rparr>)" "channelMap p' fd = Some d \<Longrightarrow> d = c \<or> channelMap p fd = Some d"
    "0 \<le> ch_fd (chs c) \<Longrightarrow> joinable c (p, chs) \<or> enrolled c (p, chs)"
proof -
  have *: "b \<and> (\<exists>k. chs' = chs(c := (chs c)\<lparr>ch_index := k\<rparr>))
      \<and> (channelMap p' fd = Some d \<longrightarrow> d = c \<or> channelMap p fd = Some d)
      \<and> (0 \<le> ch_fd (chs c) \<longrightarrow> joinable c (p, chs) \<or> enrolled c (p, chs))"
  proof (cases "ch_index (chs c) < 0")
    case True
    with assms show ?thesis
      by (auto simp: Poller_updateChannel_def Let_def result_simps joinable_def split: if_splits)
  next
    case False
    have "\<exists>k. X = X(c := (X c)\<lparr>ch_index := k\<rparr>)" for X :: channel_store
      by (rule exI [of _ "ch_index (X c)"]) simp
    with False assms show ?thesis
      by (auto simp: Poller_updateChannel_def Let_def result_simps enrolled_def)
  qed
  then show "b" "\<exists>k. chs' = chs(c := (chs c)\<lparr>ch_index := k\<rparr>)"
    "channelMap p' fd = Some d \<Longrightarrow> d = c \<or> channelMap p fd = Some d"
    "0 \<le> ch_fd (chs c) \<Longrightarrow> joinable c (p, chs) \<or> enrolled c (p, chs)" by blast+
qed

lemma Channel_update_returned:
  assumes inv: "reactor_inv w" and fd: "0 \<le> ch_fd (chans w c)" and run: "Channel_update c w = Inr w'"
  shows "\<exists>p k. w' = entered c p k w \<and> reactor_inv w'
     \<and> (\<forall>l fd d. channelMap (loop_poller (loops w' l)) fd = Some d \<longrightarrow>
          d = c \<or> channelMap (loop_poller (loops w l)) fd = Some d)"
proof -
  let ?l = "ch_loop (chans w c)"
  have own: "isInLoopThread ?l w" and
    up: "with_poller ?l (Poller_updateChannel (isInLoopThread (ownerLoop (loop_poller (loops w ?l))) w) c) w = Inr w'"
    using run by (auto simp: Channel_update_def EventLoop_updateChannel_def result_simps)
  from up obtain p chs where
    p: "Poller_updateChannel (isInLoopThread (ownerLoop (loop_poller (loops w ?l))) w) c
      (loop_poller (loops w ?l), chans w) = Inr (p, chs)"
    "w' = (set_loop ?l (loop_poller_update (\<lambda>_. p)) w)\<lparr>chans := chs\<rparr>"
    by (auto simp: with_poller_def result_simps)
  note R = Poller_update_returned [OF p(1)]
  have "may_update c w" using own R(4) fd by (simp add: may_update_def own_poller_def)
  from Channel_update_entered [OF inv this] run obtain p' k where
    "w' = entered c p' k w" "reactor_inv w'" by auto
  moreover have "\<forall>l fd d. channelMap (loop_poller (loops w' l)) fd = Some d \<longrightarrow>
      d = c \<or> channelMap (loop_poller (loops w l)) fd = Some d"
    using R(3) p(2) by auto
  ultimately show ?thesis by blast
qed

lemma sint_zero_iff: "sint (x :: 'a::len word) = 0 \<longleftrightarrow> x = 0"
  by (metis scast_eq scast_id signed_0)

lemma Poller_remove_returned:
  assumes "Poller_removeChannel b c (p, chs) = Inr (p', chs')"
  shows "b" "retirable c (p, chs)" "channelMap p' fd = Some d \<Longrightarrow> channelMap p fd = Some d"
    "0 \<le> ch_index (chs d) \<Longrightarrow> 0 \<le> ch_index (chs' d)"
  using assms
  by (auto simp: Poller_removeChannel_def Let_def result_simps retirable_def enrolled_def entry_of_def
      isNoneEvent_def kNoneEvent_def sint_zero_iff split: if_splits option.splits)

lemma removeChannel_returned:
  assumes inv: "reactor_inv w" and run: "EventLoop_removeChannel l c w = Inr w'"
  shows "\<exists>p chs. w' = (set_loop l (loop_poller_update (\<lambda>_. p)) w)\<lparr>chans := chs\<rparr> \<and> reactor_inv w'
     \<and> (\<forall>d. \<exists>k. chs d = (chans w d)\<lparr>ch_index := k\<rparr>) \<and> retired c w'
     \<and> (\<forall>d. registered d w' \<longrightarrow> registered d w) \<and> (\<forall>d. retired d w \<longrightarrow> retired d w')"
proof -
  have l: "l = ch_loop (chans w c)" and own: "isInLoopThread l w" and
    rm: "with_poller l (Poller_removeChannel (isInLoopThread (ownerLoop (loop_poller (loops w l))) w) c) w = Inr w'"
    using run by (auto simp: EventLoop_removeChannel_def result_simps)
  from rm obtain p chs where
    p: "Poller_removeChannel (isInLoopThread (ownerLoop (loop_poller (loops w l))) w) c
      (loop_poller (loops w l), chans w) = Inr (p, chs)"
    "w' = (set_loop l (loop_poller_update (\<lambda>_. p)) w)\<lparr>chans := chs\<rparr>"
    by (auto simp: with_poller_def result_simps)
  note R = Poller_remove_returned [OF p(1)]
  have "may_remove c w" using own R(2) l by (simp add: may_remove_def own_poller_def)
  from removeChannel_reactor [OF inv this] run l have
    w': "reactor_inv w'" "\<forall>d. \<exists>k. chans w' d = (chans w d)\<lparr>ch_index := k\<rparr>"
      "channelMap (loop_poller (loops w' l)) (ch_fd (chans w c)) = None" by auto
  have chs: "chans w' = chs" using p(2) by simp
  have sub: "channelMap (loop_poller (loops w k)) fd = Some d"
    if "channelMap (loop_poller (loops w' k)) fd = Some d" for k fd d
    using R(3) [of fd d] p(2) that by (cases "k = l") auto
  then have reg: "registered d w'  \<Longrightarrow> registered d w" for d unfolding registered_def by blast
  have ix: "0 \<le> ch_index (chans w d) \<Longrightarrow> 0 \<le> ch_index (chans w' d)" for d using R(4) chs by simp
  have "\<not> registered c w'"
  proof
    assume "registered c w'"
    then obtain k fd where m: "channelMap (loop_poller (loops w' k)) fd = Some c" unfolding registered_def by blast
    from w'(2) obtain i where "chans w' c = (chans w c)\<lparr>ch_index := i\<rparr>" by blast
    then have same: "ch_loop (chans w' c) = l" "ch_fd (chans w' c) = ch_fd (chans w c)" by (simp_all add: l)
    with reactor_invD(3) [OF w'(1) m] have "k = l" by simp
    moreover have "fd = ch_fd (chans w c)" using poller_invD [OF reactor_invD(1) [OF w'(1)] m] same by simp
    ultimately show False using m w'(3) by simp
  qed
  moreover have "0 \<le> ch_index (chans w c)"
  proof (rule poller_invD(3) [OF reactor_invD(1) [OF inv, of l]])
    show "channelMap (loop_poller (loops w l)) (ch_fd (chans w c)) = Some c"
      using R(2) by (simp add: retirable_def enrolled_def)
  qed
  ultimately have "retired c w'" using ix by (simp add: retired_def)
  moreover have "retired d w \<longrightarrow> retired d w'" for d using reg ix unfolding retired_def by blast
  moreover have "\<forall>d. \<exists>k. chs d = (chans w d)\<lparr>ch_index := k\<rparr>" using w'(2) by (simp add: chs)
  ultimately show ?thesis using p(2) w'(1) reg by blast
qed

lemma fillActiveChannels_returned:
  "fillActiveChannels m fds n active chs = Inr (active', chs') \<Longrightarrow>
     \<forall>c. \<exists>r. chs' c = (chs c)\<lparr>ch_revents := r\<rparr>"
proof (induction fds arbitrary: n active chs)
  case Nil
  then show ?case using channel_own_revents by auto
next
  case (Cons pfd fds)
  show ?case
  proof (cases "n > 0 \<and> sint (pfd_revents pfd) > 0")
    case True
    with Cons.prems obtain c where
      run: "fillActiveChannels m fds (n - 1) (active @ [c]) (chs(c := set_revents (pfd_revents pfd) (chs c))) = Inr (active', chs')"
      by (auto simp: result_simps split: option.splits)
    show ?thesis
    proof
      fix d
      from Cons.IH [OF run] obtain r where
        "chs' d = ((chs(c := set_revents (pfd_revents pfd) (chs c))) d)\<lparr>ch_revents := r\<rparr>" by blast
      then show "\<exists>r. chs' d = (chs d)\<lparr>ch_revents := r\<rparr>" by (auto simp: set_revents_def split: if_splits)
    qed
  next
    case False
    with Cons show ?thesis using channel_own_revents by (auto split: if_splits)
  qed
qed

lemma store_revents_always:
  "length (store_revents rs fds) = length fds"
  "i < length fds \<Longrightarrow> pfd_fd (store_revents rs fds ! i) = pfd_fd (fds ! i)"
  by (simp_all add: store_revents_def)

lemma loop_poll_frame:
  assumes run: "loop_poll l w = Inr w'"
  shows "\<exists>t act p chs log. w' = (set_loop l (\<lambda>el. el\<lparr>pollReturnTime := t,
       activeChannels := act, loop_poller := p\<rparr>) w)\<lparr>calls := log, chans := chs\<rparr>
     \<and> p = loop_poller (loops w l)\<lparr>pollfds :=
         store_revents (ready (os w (length (calls w)))) (pollfds (loop_poller (loops w l)))\<rparr>
     \<and> (\<forall>c. \<exists>r. chs c = (chans w c)\<lparr>ch_revents := r\<rparr>)"
proof -
  let ?p = "loop_poller (loops w l)"
  let ?fds = "store_revents (ready (os w (length (calls w)))) (pollfds ?p)"
  let ?w = "set_loop l (activeChannels_update (\<lambda>_. [])) w"
  from run obtain t act p chs v where
    poll: "Poller_poll kPollTimeMs [] (?p, chans w) ?w = Inr (t, act, (p, chs), v)"
    and w': "w' = (set_loop l (\<lambda>el. el\<lparr>pollReturnTime := t, activeChannels := act, loop_poller := p\<rparr>) v)\<lparr>chans := chs\<rparr>"
    by (auto simp: loop_poll_def result_simps)
  have "p = ?p\<lparr>pollfds := ?fds\<rparr> \<and> (\<exists>log. v = ?w\<lparr>calls := log\<rparr>) \<and> (\<forall>c. \<exists>r. chs c = (chans w c)\<lparr>ch_revents := r\<rparr>)"
    using poll channel_own_revents
    by (auto simp: Poller_poll_def do_call_def Let_def result_simps split: if_splits
        dest!: fillActiveChannels_returned)
  then obtain log where p: "p = ?p\<lparr>pollfds := ?fds\<rparr>" and v: "v = ?w\<lparr>calls := log\<rparr>"
    and fr: "\<forall>c. \<exists>r. chs c = (chans w c)\<lparr>ch_revents := r\<rparr>" by blast
  have "w' = (set_loop l (\<lambda>el. el\<lparr>pollReturnTime := t,
       activeChannels := act, loop_poller := p\<rparr>) w)\<lparr>calls := log, chans := chs\<rparr>"
    by (simp add: w' v set_loop_def)
  with p fr show ?thesis by blast
qed

lemma loop_poll_returned:
  assumes inv: "reactor_inv w" and run: "loop_poll l w = Inr w'"
  shows "reactor_inv w' \<and> (\<exists>t act p chs log. w' = (set_loop l (\<lambda>el. el\<lparr>pollReturnTime := t,
       activeChannels := act, loop_poller := p\<rparr>) w)\<lparr>calls := log, chans := chs\<rparr>
     \<and> channelMap p = channelMap (loop_poller (loops w l))
     \<and> (\<forall>c. \<exists>r. chs c = (chans w c)\<lparr>ch_revents := r\<rparr>))"
proof -
  let ?p = "loop_poller (loops w l)"
  from loop_poll_frame [OF run] obtain t act p chs log where
    w': "w' = (set_loop l (\<lambda>el. el\<lparr>pollReturnTime := t,
       activeChannels := act, loop_poller := p\<rparr>) w)\<lparr>calls := log, chans := chs\<rparr>"
    and p: "p = ?p\<lparr>pollfds := store_revents (ready (os w (length (calls w)))) (pollfds ?p)\<rparr>"
    and fr: "\<forall>c. \<exists>r. chs c = (chans w c)\<lparr>ch_revents := r\<rparr>" by blast
  have same: "ch_fd (chs d) = ch_fd (chans w d)" "ch_index (chs d) = ch_index (chans w d)"
    "ch_loop (chs d) = ch_loop (chans w d)" for d
    using fr [rule_format, of d] by auto
  have pinv: "poller_inv (p, chs)"
    using reactor_invD(1) [OF inv, of l] unfolding poller_inv_def p
    by (auto simp: same store_revents_always nat_less_iff)
  have "reactor_inv w'"
  proof (rule reactor_inv_step [OF inv pinv, of l])
    show "ownerLoop p = l" using reactor_invD(2) [OF inv] by (simp add: p)
    show "ch_loop (chs c) = l" if "channelMap p fd = Some c" for fd c
      using that same reactor_invD(3) [OF inv, of l fd c] by (simp add: p)
  qed (simp_all add: same w')
  moreover have "channelMap p = channelMap ?p" by (simp add: p)
  ultimately show ?thesis using w' fr by blast
qed

lemma startLoop_leaves:
  assumes "startLoop call exec l w = Some (Inr w')"
  shows "\<exists>n v. leaves_after call exec l n (set_loop l (\<lambda>el. el\<lparr>looping := True, quit := False\<rparr>) w) v
     \<and> w' = set_loop l (looping_update (\<lambda>_. False)) v"
proof -
  have "\<not> looping (loops w l)" "isInLoopThread l w"
    using assms by (auto simp: startLoop_def split: if_splits)
  with assms obtain v where v: "loop_while call exec l (set_loop l (\<lambda>el. el\<lparr>looping := True, quit := False\<rparr>) w) = Some (Inr v)"
    "w' = set_loop l (looping_update (\<lambda>_. False)) v"
    by (auto simp: startLoop_def result_simps bindE_def split: option.splits sum.splits)
  from loop_while_only [OF v(1)] v(2) show ?thesis by blast
qed

section \<open>The contract\<close>

definition bound_callbacks :: "channel \<Rightarrow> callback set" where
  "bound_callbacks ch = {cb. ch_readCallback ch = Some cb \<or> ch_writeCallback ch = Some cb
     \<or> ch_errorCallback ch = Some cb \<or> ch_closeCallback ch = Some cb}"

locale loop_client =
  fixes L :: nat
    and call :: "callback \<Rightarrow> timestamp \<Rightarrow> 'a reactor_scheme \<Rightarrow> 'a reactor_scheme result"
    and exec :: "task \<Rightarrow> 'a reactor_scheme \<Rightarrow> 'a reactor_scheme result"
    and I :: "task list \<Rightarrow> 'a reactor_scheme \<Rightarrow> bool"
  assumes poll_law: "I [] w \<Longrightarrow> loop_poll L w = Inr w' \<Longrightarrow> I [] w'"
    and handling_law: "I [] w \<Longrightarrow> I [] (set_chan c (ch_eventHandling_update (\<lambda>_. b)) w)"
    and call_law: "I [] w \<Longrightarrow> cb \<in> bound_callbacks (chans w c) \<Longrightarrow> call cb t w = Inr w' \<Longrightarrow> I [] w'"
    and calling_law: "I [] w \<Longrightarrow> I [] (set_loop L (callingPendingFunctors_update (\<lambda>_. b)) w)"
    and swap_law: "I [] w \<Longrightarrow> I (pendingFunctors (loops w L)) (set_loop L (pendingFunctors_update (\<lambda>_. [])) w)"
    and exec_law: "I (f # fs) w \<Longrightarrow> exec f w = Inr w' \<Longrightarrow> I fs w'"
    and flags_law: "I [] w \<Longrightarrow> I [] (set_loop L (\<lambda>el. el\<lparr>looping := b, quit := q\<rparr>) w)"
begin

lemma call_if_keeps:
  assumes "I [] w" "call_if call c due cb_of t w = Inr w'"
    and "\<And>cb. cb_of (chans w c) = Some cb \<Longrightarrow> cb \<in> bound_callbacks (chans w c)"
  shows "I [] w'"
  using assms call_law by (auto simp: call_if_def split: if_splits option.splits)

lemma handleEvent_keeps:
  assumes "I [] w" "Channel_handleEvent call t c w = Inr w'"
  shows "I [] w'"
proof -
  let ?w0 = "set_chan c (ch_eventHandling_update (\<lambda>_. True)) w"
  from assms(2) obtain w1 w2 w3 w4 where
    r: "call_if call c is_closing ch_closeCallback t ?w0 = Inr w1"
    "call_if call c is_error ch_errorCallback t w1 = Inr w2"
    "call_if call c is_readable ch_readCallback t w2 = Inr w3"
    "call_if call c is_writable ch_writeCallback t w3 = Inr w4"
    "w' = set_chan c (ch_eventHandling_update (\<lambda>_. False)) w4"
    by (auto simp: Channel_handleEvent_def result_simps)
  have "I [] ?w0" using assms(1) by (rule handling_law)
  from call_if_keeps [OF this r(1)] have "I [] w1" by (simp add: bound_callbacks_def)
  from call_if_keeps [OF this r(2)] have "I [] w2" by (simp add: bound_callbacks_def)
  from call_if_keeps [OF this r(3)] have "I [] w3" by (simp add: bound_callbacks_def)
  from call_if_keeps [OF this r(4)] have "I [] w4" by (simp add: bound_callbacks_def)
  then show ?thesis unfolding r(5) by (rule handling_law)
qed

lemma run_functors_keeps: "I fs w \<Longrightarrow> run_all exec fs w = Inr w' \<Longrightarrow> I [] w'"
proof (induction fs arbitrary: w)
  case (Cons f fs)
  from Cons.prems(2) obtain v where "exec f w = Inr v" "run_all exec fs v = Inr w'"
    by (auto simp: result_simps)
  with Cons.IH exec_law [OF Cons.prems(1)] show ?case by blast
qed simp

lemma pending_keeps:
  assumes "I [] w" "doPendingFunctors exec L w = Inr w'"
  shows "I [] w'"
proof -
  let ?w = "set_loop L (callingPendingFunctors_update (\<lambda>_. True)) w"
  have "I (pendingFunctors (loops ?w L)) (set_loop L (pendingFunctors_update (\<lambda>_. [])) ?w)"
    by (intro swap_law calling_law assms(1))
  moreover obtain v where
    "run_all exec (pendingFunctors (loops ?w L)) (set_loop L (pendingFunctors_update (\<lambda>_. [])) ?w) = Inr v"
    "w' = set_loop L (callingPendingFunctors_update (\<lambda>_. False)) v"
    using assms(2) by (auto simp: doPendingFunctors_def Let_def result_simps)
  ultimately show ?thesis using run_functors_keeps calling_law by blast
qed

text \<open>A turn is the work on the events, which keeps the predicate, and then the functors.\<close>

lemma turn_phases:
  assumes "I [] w" "loop_turn call exec L w = Inr w'"
  shows "\<exists>v. I [] v \<and> doPendingFunctors exec L v = Inr w'"
proof -
  from assms(2) obtain w1 w2 where
    r: "loop_poll L w = Inr w1"
    "run_all (Channel_handleEvent call (pollReturnTime (loops w1 L))) (activeChannels (loops w1 L)) w1 = Inr w2"
    "doPendingFunctors exec L w2 = Inr w'"
    by (auto simp: loop_turn_def result_simps)
  from poll_law [OF assms(1) r(1)] have "I [] w1" .
  from run_all_inv [where I = "I []", OF _ this r(2)] handleEvent_keeps have "I [] w2" by blast
  with r(3) show ?thesis by blast
qed

lemma turn_keeps: "I [] w \<Longrightarrow> loop_turn call exec L w = Inr w' \<Longrightarrow> I [] w'"
  using turn_phases pending_keeps by blast

end

sublocale loop_client \<subseteq> turn: invariant_system "I []" "\<lambda>w w'. loop_turn call exec L w = Inr w'" "I []"
  by unfold_locales (auto intro: turn_keeps)

context loop_client begin

lemma turns_keep: "I [] w \<Longrightarrow> turns call exec L n w = Inr w' \<Longrightarrow> I [] w'"
  by (induction n arbitrary: w) (auto simp: result_simps intro: turn_keeps)

lemma startLoop_keeps:
  assumes "I [] w" "startLoop call exec L w = Some (Inr w')"
  shows "I [] w'"
proof -
  let ?w = "set_loop L (\<lambda>el. el\<lparr>looping := True, quit := False\<rparr>) w"
  from startLoop_leaves [OF assms(2)] obtain n v where n: "leaves_after call exec L n ?w v"
    and v: "w' = set_loop L (looping_update (\<lambda>_. False)) v" by blast
  have "I [] v" using turns_keep [OF flags_law [OF assms(1)]] n by (auto simp: leaves_after_def)
  moreover have "w' = set_loop L (\<lambda>el. el\<lparr>looping := False, quit := quit (loops v L)\<rparr>) v"
    by (simp add: v set_loop_def)
  ultimately show ?thesis using flags_law by simp
qed

end

section \<open>Channels at rest\<close>

text \<open>No channel starts to handle events.\<close>

definition calm :: "'a reactor_scheme \<Rightarrow> 'a reactor_scheme \<Rightarrow> bool" where
  "calm w w' \<longleftrightarrow> (\<forall>c. ch_eventHandling (chans w' c) \<longrightarrow> ch_eventHandling (chans w c))"

lemma calm_refl [simp]: "calm w w"
  by (simp add: calm_def)

lemma calm_trans: "calm w w1 \<Longrightarrow> calm w1 w2 \<Longrightarrow> calm w w2"
  by (simp add: calm_def)

definition at_rest :: "'a reactor_scheme \<Rightarrow> bool" where
  "at_rest w \<longleftrightarrow> (\<forall>c. \<not> ch_eventHandling (chans w c))"

lemma calm_at_rest: "calm w w' \<Longrightarrow> at_rest w \<Longrightarrow> at_rest w'"
  by (auto simp: calm_def at_rest_def)

text \<open>A program none of whose callbacks and functors calls \<open>handleEvent\<close>.\<close>

lemma loop_poll_rests:
  assumes "loop_poll l w = Inr w'" "at_rest w"
  shows "at_rest w'"
proof -
  from loop_poll_frame [OF assms(1)] obtain chs where
    w': "chans w' = chs" and fr: "\<And>c. \<exists>r. chs c = (chans w c)\<lparr>ch_revents := r\<rparr>" by fastforce
  have "ch_eventHandling (chs c) = ch_eventHandling (chans w c)" for c using fr [of c] by auto
  with assms(2) w' show ?thesis by (simp add: at_rest_def)
qed

locale calm_client = loop_client +
  assumes call_calm: "I [] w \<Longrightarrow> cb \<in> bound_callbacks (chans w c) \<Longrightarrow> call cb t w = Inr w' \<Longrightarrow> calm w w'"
    and exec_calm: "I (f # fs) w \<Longrightarrow> exec f w = Inr w' \<Longrightarrow> calm w w'"
begin

lemma call_if_calm:
  assumes "I [] w" "call_if call c due cb_of t w = Inr w'"
    and "\<And>cb. cb_of (chans w c) = Some cb \<Longrightarrow> cb \<in> bound_callbacks (chans w c)"
  shows "calm w w'"
  using assms call_calm by (auto simp: call_if_def split: if_splits option.splits)

lemma handleEvent_rests:
  assumes inv: "I [] w" and rest: "at_rest w" and run: "Channel_handleEvent call t c w = Inr w'"
  shows "at_rest w'"
proof -
  let ?w0 = "set_chan c (ch_eventHandling_update (\<lambda>_. True)) w"
  from run obtain w1 w2 w3 w4 where
    r: "call_if call c is_closing ch_closeCallback t ?w0 = Inr w1"
    "call_if call c is_error ch_errorCallback t w1 = Inr w2"
    "call_if call c is_readable ch_readCallback t w2 = Inr w3"
    "call_if call c is_writable ch_writeCallback t w3 = Inr w4"
    "w' = set_chan c (ch_eventHandling_update (\<lambda>_. False)) w4"
    by (auto simp: Channel_handleEvent_def result_simps)
  have i0: "I [] ?w0" using inv by (rule handling_law)
  have i1: "I [] w1" using call_if_keeps [OF i0 r(1)] by (simp add: bound_callbacks_def)
  have i2: "I [] w2" using call_if_keeps [OF i1 r(2)] by (simp add: bound_callbacks_def)
  have i3: "I [] w3" using call_if_keeps [OF i2 r(3)] by (simp add: bound_callbacks_def)
  have "calm ?w0 w1" "calm w1 w2" "calm w2 w3" "calm w3 w4"
    using call_if_calm [OF i0 r(1)] call_if_calm [OF i1 r(2)] call_if_calm [OF i2 r(3)] call_if_calm [OF i3 r(4)]
    by (simp_all add: bound_callbacks_def)
  then have "calm ?w0 w4" by (blast intro: calm_trans)
  then show ?thesis using rest by (auto simp: r(5) calm_def at_rest_def)
qed

lemma run_functors_calm: "I fs w \<Longrightarrow> run_all exec fs w = Inr w' \<Longrightarrow> calm w w'"
proof (induction fs arbitrary: w)
  case (Cons f fs)
  from Cons.prems(2) obtain v where v: "exec f w = Inr v" "run_all exec fs v = Inr w'"
    by (auto simp: result_simps)
  from Cons.IH [OF exec_law [OF Cons.prems(1) v(1)] v(2)] exec_calm [OF Cons.prems(1) v(1)]
  show ?case by (blast intro: calm_trans)
qed simp

text \<open>Between turns no channel handles events.\<close>

lemma turn_rests:
  assumes inv: "I [] w" and rest: "at_rest w" and run: "loop_turn call exec L w = Inr w'"
  shows "at_rest w'"
proof -
  from run obtain w1 w2 where
    r: "loop_poll L w = Inr w1"
    "run_all (Channel_handleEvent call (pollReturnTime (loops w1 L))) (activeChannels (loops w1 L)) w1 = Inr w2"
    "doPendingFunctors exec L w2 = Inr w'"
    by (auto simp: loop_turn_def result_simps)
  have "at_rest w1" using rest loop_poll_rests r(1) by blast
  then have "I [] w1 \<and> at_rest w1" using poll_law [OF inv r(1)] by simp
  from run_all_inv [where I = "\<lambda>w. I [] w \<and> at_rest w", OF _ this r(2)] handleEvent_keeps handleEvent_rests
  have w2: "I [] w2" "at_rest w2" by blast+
  let ?v = "set_loop L (callingPendingFunctors_update (\<lambda>_. True)) w2"
  obtain u where u: "run_all exec (pendingFunctors (loops ?v L)) (set_loop L (pendingFunctors_update (\<lambda>_. [])) ?v) = Inr u"
    "w' = set_loop L (callingPendingFunctors_update (\<lambda>_. False)) u"
    using r(3) by (auto simp: doPendingFunctors_def Let_def result_simps)
  from run_functors_calm [OF swap_law [OF calling_law [OF w2(1)]] u(1)] w2(2) show ?thesis
    by (simp add: u(2) calm_def at_rest_def)
qed

lemma turns_rest: "I [] w \<Longrightarrow> at_rest w \<Longrightarrow> turns call exec L n w = Inr w' \<Longrightarrow> at_rest w'"
proof (induction n arbitrary: w)
  case (Suc n)
  then obtain v where "loop_turn call exec L w = Inr v" "turns call exec L n v = Inr w'"
    by (auto simp: result_simps)
  with Suc show ?case by (blast intro: turn_rests turn_keeps)
qed simp

end

end
