(* ===== verification/ServerLife.thy ===== *)
theory ServerLife
  imports TcpServer LoopClient
begin

text \<open>
  Programs of the user on a server. The user's callbacks are programs over the public operations
  (\<open>user_op\<close>); which operations a callback performs may depend on the whole state. The second part
  gives the relation \<open>quiet\<close> between two states: nothing that decides where a connection is in its life was
  changed, apart from the moves of its state machine that a client can cause. Every operation
  of a connection but its close and its destruction is shown to be such a step.
\<close>

section \<open>Programs of the user\<close>

datatype user_op =
    UserSend nat string
  | UserShutdown nat
  | UserNoDelay nat bool
  | UserRetrieve nat nat
  | UserTakeAll nat
  | UserQueue nat
  | UserQuit

datatype user_event =
    OnConnection nat nat
  | OnMessage nat nat timestamp
  | OnWriteComplete nat nat
  | OnFunctor task
  | OnCallback callback timestamp

text \<open>The connections the server has made: the only ones the user can hold.\<close>

definition is_conn :: "nat \<Rightarrow> 'a world_scheme \<Rightarrow> bool" where
  "is_conn i w \<longleftrightarrow> i < next_object w \<and> tc_closeCB (conns w i) \<noteq> None"

fun user_conn :: "user_op \<Rightarrow> nat option" where
  "user_conn (UserSend i m) = Some i"
| "user_conn (UserShutdown i) = Some i"
| "user_conn (UserNoDelay i on) = Some i"
| "user_conn (UserRetrieve i n) = Some i"
| "user_conn (UserTakeAll i) = Some i"
| "user_conn _ = None"

fun user_act :: "nat \<Rightarrow> user_op \<Rightarrow> 'a world_scheme \<Rightarrow> 'a world_scheme result" where
  "user_act L (UserSend i m) w = TcpConnection_send i m w"
| "user_act L (UserShutdown i) w = TcpConnection_shutdown i w"
| "user_act L (UserNoDelay i on) w = Inr (setTcpNoDelay i on w)"
| "user_act L (UserRetrieve i n) w =
     bindE (retrieve n (tc_inputBuffer (conns w i))) (\<lambda>b. Inr (set_conn i (tc_inputBuffer_update (\<lambda>_. b)) w))"
| "user_act L (UserTakeAll i) w =
     bindE (retrieveAsString (tc_inputBuffer (conns w i)))
       (\<lambda>(msg, b). Inr (set_conn i (tc_inputBuffer_update (\<lambda>_. b)) w))"
| "user_act L (UserQueue k) w = queueInLoop L (UserFunctor k) w"
| "user_act L UserQuit w = quitLoop L w"

definition user_perform :: "nat \<Rightarrow> user_op \<Rightarrow> 'a world_scheme \<Rightarrow> 'a world_scheme result" where
  "user_perform L op w =
     (case user_conn op of None \<Rightarrow> user_act L op w
      | Some i \<Rightarrow> if is_conn i w then user_act L op w else Inr w)"

definition react ::
  "nat \<Rightarrow> (user_event \<Rightarrow> 'a world_scheme \<Rightarrow> user_op list) \<Rightarrow> user_event
    \<Rightarrow> 'a world_scheme \<Rightarrow> 'a world_scheme result" where
  "react L P e w = run_all (user_perform L) (P e w) w"

definition program_app :: "nat \<Rightarrow> (user_event \<Rightarrow> 'a world_scheme \<Rightarrow> user_op list) \<Rightarrow> 'a world_scheme app" where
  "program_app L P =
     \<lparr>app_connection = (\<lambda>k i. react L P (OnConnection k i)),
      app_message = (\<lambda>k i t. react L P (OnMessage k i t)),
      app_writeComplete = (\<lambda>k i. react L P (OnWriteComplete k i)),
      app_functor = (\<lambda>f. react L P (OnFunctor f)),
      app_callback = (\<lambda>cb t. react L P (OnCallback cb t))\<rparr>"

section \<open>Steps that do not touch the life of a connection\<close>

definition conn_key :: "tcp_conn \<Rightarrow> nat \<times> nat \<times> string \<times> nat option" where
  "conn_key cn = (tc_loop cn, tc_channel cn, tc_name cn, tc_closeCB cn)"

definition chan_links :: "channel \<Rightarrow> nat \<times> int \<times> callback set" where
  "chan_links ch = (ch_loop ch, ch_fd ch, bound_callbacks ch)"

definition state_moves :: "conn_state \<Rightarrow> conn_state \<Rightarrow> bool" where
  "state_moves s s' \<longleftrightarrow> s' = s \<or> s = kConnecting \<and> (s' = kConnected \<or> s' = kDisconnecting)
     \<or> s = kConnected \<and> s' = kDisconnecting"

fun harmless :: "task \<Rightarrow> bool" where
  "harmless (ConnectEstablished i) = False"
| "harmless (ConnectDestroyed i) = False"
| "harmless (SendInLoop i m) = False"
| "harmless (ShutDownInLoop i) = False"
| "harmless (RemoveConnectionInLoop s i) = False"
| "harmless _ = True"

text \<open>Channels are registered under numbers that were given out.\<close>

definition link_ok :: "'a world_scheme \<Rightarrow> bool" where
  "link_ok w \<longleftrightarrow> reactor_inv w \<and> (\<forall>c. 0 \<le> ch_fd (chans w c)) \<and> (\<forall>c. registered c w \<longrightarrow> c < next_object w)"

definition quiet :: "nat \<Rightarrow> 'a world_scheme \<Rightarrow> 'a world_scheme \<Rightarrow> bool" where
  "quiet L w w' \<longleftrightarrow> link_ok w' \<and> cur_thread w' = cur_thread w
     \<and> (\<forall>l. threadId (loops w' l) = threadId (loops w l)) \<and> servers w' = servers w
     \<and> (\<forall>a. acc_channel (acceptors w' a) = acc_channel (acceptors w a)) \<and> next_object w' = next_object w
     \<and> (\<forall>i. conn_key (conns w' i) = conn_key (conns w i) \<and> state_moves (tc_state (conns w i)) (tc_state (conns w' i)))
     \<and> (\<forall>c. chan_links (chans w' c) = chan_links (chans w c)) \<and> (\<forall>c. retired c w \<longrightarrow> retired c w')
     \<and> calm w w'
     \<and> (\<exists>fs. pendingFunctors (loops w' L) = pendingFunctors (loops w L) @ fs \<and> list_all harmless fs)"

lemma state_moves_refl [simp]: "state_moves s s"
  by (simp add: state_moves_def)

lemma state_moves_trans: "state_moves s t \<Longrightarrow> state_moves t u \<Longrightarrow> state_moves s u"
  by (auto simp: state_moves_def)

lemma quiet_calm: "quiet L w w' \<Longrightarrow> calm w w'"
  by (simp add: quiet_def)

lemma quiet_refl: "link_ok w \<Longrightarrow> quiet L w w"
  by (simp add: quiet_def)

lemma quiet_link: "quiet L w w' \<Longrightarrow> link_ok w'"
  by (simp add: quiet_def)

lemma quiet_trans:
  assumes "quiet L w w1" "quiet L w1 w2"
  shows "quiet L w w2"
proof -
  obtain fs1 fs2 where fs: "pendingFunctors (loops w1 L) = pendingFunctors (loops w L) @ fs1" "list_all harmless fs1"
    "pendingFunctors (loops w2 L) = pendingFunctors (loops w1 L) @ fs2" "list_all harmless fs2"
    using assms unfolding quiet_def by blast
  then have "pendingFunctors (loops w2 L) = pendingFunctors (loops w L) @ (fs1 @ fs2)" "list_all harmless (fs1 @ fs2)"
    by simp_all
  moreover have "calm w w2" using assms by (blast intro: calm_trans quiet_calm)
  ultimately show ?thesis using assms unfolding quiet_def using state_moves_trans by simp blast
qed

lemma quiet_run:
  assumes "\<And>x s s'. x \<in> set xs \<Longrightarrow> quiet L w s \<Longrightarrow> f x s = Inr s' \<Longrightarrow> quiet L s s'"
    and "link_ok w" "run_all f xs w = Inr w'"
  shows "quiet L w w'"
  using run_all_inv [where I = "quiet L w", OF _ quiet_refl [OF assms(2)] assms(3)] assms(1) quiet_trans by blast

lemma world_frame [simp]:
  "servers (set_loop l f w) = servers w" "servers (set_chan c g w) = servers w"
  "servers (entered c p k w) = servers w" "servers (set_conn i h w) = servers w"
  "acceptors (set_loop l f w) = acceptors w" "acceptors (set_chan c g w) = acceptors w"
  "acceptors (entered c p k w) = acceptors w" "acceptors (set_conn i h w) = acceptors w"
  "next_object (set_loop l f w) = next_object w" "next_object (set_chan c g w) = next_object w"
  "next_object (entered c p k w) = next_object w" "next_object (set_conn i h w) = next_object w"
  by (simp_all add: set_loop_def set_chan_def entered_def set_conn_def)

text \<open>What leaves the pollers, the links of the channels, the connections and the servers alone.\<close>

lemma link_ok_same:
  assumes "link_ok w" "\<And>l. loop_poller (loops w' l) = loop_poller (loops w l)"
    "\<And>c. ch_fd (chans w' c) = ch_fd (chans w c)" "\<And>c. ch_index (chans w' c) = ch_index (chans w c)"
    "\<And>c. ch_loop (chans w' c) = ch_loop (chans w c)" "next_object w' = next_object w"
  shows "link_ok w'" "retired c w' = retired c w"
  using assms reactor_inv_same [of w w'] by (simp_all add: link_ok_def registered_def retired_def)

lemma quiet_plain:
  assumes "link_ok w" "\<And>l. loop_poller (loops w' l) = loop_poller (loops w l)"
    "\<And>c. ch_index (chans w' c) = ch_index (chans w c)" "\<And>c. chan_links (chans w' c) = chan_links (chans w c)"
    "cur_thread w' = cur_thread w" "\<And>l. threadId (loops w' l) = threadId (loops w l)"
    "servers w' = servers w" "\<And>a. acc_channel (acceptors w' a) = acc_channel (acceptors w a)" "next_object w' = next_object w"
    "\<And>i. conn_key (conns w' i) = conn_key (conns w i)" "\<And>i. state_moves (tc_state (conns w i)) (tc_state (conns w' i))"
    "pendingFunctors (loops w' L) = pendingFunctors (loops w L) @ fs" "list_all harmless fs"
    "\<And>c. ch_eventHandling (chans w' c) = ch_eventHandling (chans w c)"
  shows "quiet L w w'"
proof -
  have "ch_fd (chans w' c) = ch_fd (chans w c)" "ch_loop (chans w' c) = ch_loop (chans w c)" for c
    using assms(4) [of c] by (simp_all add: chan_links_def)
  from link_ok_same [OF assms(1,2) this(1) assms(3) this(2) assms(9)] show ?thesis
    using assms by (simp add: quiet_def calm_def)
qed

lemma quiet_calls: "link_ok w \<Longrightarrow> quiet L w (w\<lparr>calls := log\<rparr>)"
  by (rule quiet_plain [where fs = "[]"]) simp_all

lemma quiet_call: "link_ok w \<Longrightarrow> do_call c w = (a, w') \<Longrightarrow> quiet L w w'"
  by (auto simp: do_call_def Let_def intro: quiet_calls)

lemma quiet_set_conn:
  "link_ok w \<Longrightarrow> conn_key (f (conns w i)) = conn_key (conns w i) \<Longrightarrow>
     state_moves (tc_state (conns w i)) (tc_state (f (conns w i))) \<Longrightarrow> quiet L w (set_conn i f w)"
  by (rule quiet_plain [where fs = "[]"]) simp_all

lemma quiet_queue:
  assumes "link_ok w" "harmless f" "queueInLoop l f w = Inr w'"
  shows "quiet L w w'"
proof -
  let ?w = "set_loop l (pendingFunctors_update (\<lambda>fs. fs @ [f])) w"
  have "\<exists>log. w' = ?w\<lparr>calls := log\<rparr>"
  proof (cases "\<not> isInLoopThread l w \<or> callingPendingFunctors (loops w l)")
    case True
    then show ?thesis using assms(3)
      by (auto simp: queueInLoop_def wakeup_def do_call_def Let_def result_simps)
  next
    case False
    have "?w = ?w\<lparr>calls := calls w\<rparr>" by (simp add: set_loop_def)
    moreover have "w' = ?w" using False assms(3) by (simp add: queueInLoop_def)
    ultimately show ?thesis by blast
  qed
  then obtain log where w': "w' = ?w\<lparr>calls := log\<rparr>" by blast
  show ?thesis unfolding w'
    by (rule quiet_plain [where fs = "if l = L then [f] else []"]) (use assms in simp_all)
qed

lemma quiet_quit:
  assumes "link_ok w" "quitLoop l w = Inr w'"
  shows "quiet L w w'"
proof -
  let ?w = "set_loop l (quit_update (\<lambda>_. True)) w"
  have q: "quiet L w ?w" by (rule quiet_plain [where fs = "[]"]) (use assms in simp_all)
  then show ?thesis using assms(2)
    by (auto simp: quitLoop_def wakeup_def do_call_def Let_def result_simps split: if_splits
        intro: quiet_trans quiet_calls quiet_link)
qed

lemma quiet_update:
  assumes link: "link_ok w" and c: "c < next_object w" and run: "Channel_update c w = Inr w'"
  shows "quiet L w w'"
proof -
  have inv: "reactor_inv w" "0 \<le> ch_fd (chans w c)" using link by (simp_all add: link_ok_def)
  from Channel_update_returned [OF inv run] obtain p k where
    w': "w' = entered c p k w" "reactor_inv w'"
    and reg: "\<forall>l fd d. channelMap (loop_poller (loops w' l)) fd = Some d \<longrightarrow>
          d = c \<or> channelMap (loop_poller (loops w l)) fd = Some d" by blast
  have sub: "registered d w' \<Longrightarrow> d = c \<or> registered d w" for d
    unfolding registered_def using reg by blast
  have "link_ok w'" using link w' sub c by (auto simp: link_ok_def)
  moreover have "retired d w'" if r: "retired d w" for d
  proof (cases "d = c")
    case True
    let ?s = "(loop_poller (loops w (ch_loop (chans w c))), chans w)"
    from run have "\<exists>b p chs. Poller_updateChannel b c ?s = Inr (p, chs)"
      by (auto simp: Channel_update_def EventLoop_updateChannel_def with_poller_def result_simps)
    then have "joinable c ?s \<or> enrolled c ?s" using Poller_update_returned(4) inv(2) by blast
    with r True show ?thesis by (auto simp: retired_def registered_def joinable_def enrolled_def)
  next
    case False
    with sub r show ?thesis by (auto simp: retired_def w'(1))
  qed
  moreover have "threadId (loops w' l) = threadId (loops w l)" "pendingFunctors (loops w' l) = pendingFunctors (loops w l)" for l
    by (simp_all add: w'(1))
  ultimately show ?thesis unfolding quiet_def by (simp add: w'(1) chan_links_def bound_callbacks_def calm_def)
qed

lemma quiet_mask:
  assumes link: "link_ok w" and c: "c < next_object w"
    and run: "Channel_update c (set_chan c (apply_mask m) w) = Inr w'"
  shows "quiet L w w'"
proof -
  have "bound_callbacks (apply_mask m ch) = bound_callbacks ch" "ch_eventHandling (apply_mask m ch) = ch_eventHandling ch" for ch
    by (cases m; simp add: bound_callbacks_def mask_defs)+
  then have q: "quiet L w (set_chan c (apply_mask m) w)"
    by (intro quiet_plain [where fs = "[]"] link) (simp_all add: chan_links_def)
  from quiet_update [OF quiet_link [OF q] _ run] c have "quiet L (set_chan c (apply_mask m) w) w'" by simp
  with q show ?thesis by (rule quiet_trans)
qed

lemma quiet_ops:
  "link_ok w \<Longrightarrow> c < next_object w \<Longrightarrow> Channel_enableReading c w = Inr w' \<Longrightarrow> quiet L w w'"
  "link_ok w \<Longrightarrow> c < next_object w \<Longrightarrow> Channel_enableWriting c w = Inr w' \<Longrightarrow> quiet L w w'"
  "link_ok w \<Longrightarrow> c < next_object w \<Longrightarrow> Channel_disableWriting c w = Inr w' \<Longrightarrow> quiet L w w'"
  "link_ok w \<Longrightarrow> c < next_object w \<Longrightarrow> Channel_disableAll c w = Inr w' \<Longrightarrow> quiet L w w'"
  unfolding channel_ops_mask by (blast intro: quiet_mask)+

lemma quiet_same_key:
  "quiet L w w' \<Longrightarrow> conn_key (conns w' i) = conn_key (conns w i)"
  "quiet L w w' \<Longrightarrow> next_object w' = next_object w"
  by (simp_all add: quiet_def)

lemma quiet_conn:
  "quiet L w w' \<Longrightarrow> tc_channel (conns w' i) = tc_channel (conns w i)"
  "quiet L w w' \<Longrightarrow> tc_loop (conns w' i) = tc_loop (conns w i)"
  "quiet L w w' \<Longrightarrow> tc_closeCB (conns w' i) = tc_closeCB (conns w i)"
  "quiet L w w' \<Longrightarrow> tc_name (conns w' i) = tc_name (conns w i)"
  "quiet L w w' \<Longrightarrow> is_conn i w' = is_conn i w"
  using quiet_same_key(1) [of L w w' i] quiet_same_key(2) [of L w w'] by (auto simp: conn_key_def is_conn_def)

section \<open>The operations of a connection\<close>

lemma quiet_write_complete:
  "link_ok w \<Longrightarrow> queue_write_complete i w = Inr w' \<Longrightarrow> quiet L w w'"
  using quiet_queue [where f = "WriteCompleteCB k i" for k]
  by (auto simp: queue_write_complete_def intro: quiet_refl split: option.splits)

lemma quiet_try_write:
  assumes "link_ok w" "try_write i m w = Inr (n, w')"
  shows "quiet L w w'"
proof (cases "\<not> isWriting (chans w (tc_channel (conns w i))) \<and> readableBytes (tc_outputBuffer (conns w i)) = 0")
  case True
  obtain a v where v: "do_call (SysWrite (ch_fd (chans w (tc_channel (conns w i)))) m) w = (a, v)" by fastforce
  note q = quiet_call [OF assms(1) v, of L]
  with assms(2) True v show ?thesis
    by (auto simp: try_write_def Let_def result_simps split: if_splits
        intro: quiet_trans quiet_write_complete quiet_link)
next
  case False
  then have "w' = w" using assms(2) by (auto simp: try_write_def Let_def)
  then show ?thesis using quiet_refl assms(1) by simp
qed

lemma quiet_send_in_loop:
  assumes link: "link_ok w" and c: "tc_channel (conns w i) < next_object w" and run: "sendInLoop i m w = Inr w'"
  shows "quiet L w w'"
proof -
  from run obtain n v where v: "try_write i m w = Inr (n, v)"
    and rest: "(if nat n < length m then
            bindE (append (drop (nat n) m) (tc_outputBuffer (conns v i))) (\<lambda>b.
              let w = set_conn i (tc_outputBuffer_update (\<lambda>_. b)) v; c = tc_channel (conns w i)
              in if \<not> isWriting (chans w c) then Channel_enableWriting c w else Inr w)
          else Inr v) = Inr w'"
    by (auto simp: sendInLoop_def result_simps split: prod.splits)
  have q: "quiet L w v" by (rule quiet_try_write [OF link v])
  have qb: "quiet L v (set_conn i (tc_outputBuffer_update (\<lambda>_. b)) v)" for b
    by (rule quiet_set_conn [OF quiet_link [OF q]]) (simp_all add: conn_key_def)
  have cb: "tc_channel (conns v i) < next_object v" using c quiet_conn(1) [OF q] quiet_same_key(2) [OF q] by simp
  have "quiet L v w'"
    using rest qb quiet_link [OF q] cb
    by (auto simp: Let_def result_simps split: if_splits
        intro: quiet_refl quiet_trans [OF qb] intro!: quiet_ops(2) [OF quiet_link [OF qb]])
  with q show ?thesis by (rule quiet_trans)
qed

lemma quiet_shut_down:
  assumes "link_ok w" "shutDownInLoop i w = Inr w'"
  shows "quiet L w w'"
  using assms
  by (auto simp: shutDownInLoop_def do_call_def Let_def result_simps split: if_splits
      intro: quiet_refl quiet_calls)

lemma quiet_write:
  assumes link: "link_ok w" and c: "tc_channel (conns w i) < next_object w" and run: "handleWrite i w = Inr w'"
  shows "quiet L w w'"
proof (cases "isWriting (chans w (tc_channel (conns w i)))")
  case False
  then show ?thesis using run quiet_refl [OF link] by (auto simp: handleWrite_def Let_def result_simps)
next
  case True
  let ?c = "tc_channel (conns w i)"
  let ?rest = "\<lambda>v b. let u = set_conn i (tc_outputBuffer_update (\<lambda>_. b)) v in
               if readableBytes b = 0 then bindE (Channel_disableWriting ?c u) (after_flush i) else Inr u"
  have "isInLoopThread (tc_loop (conns w i)) w" using run by (simp add: handleWrite_def result_simps)
  with True have "handleWrite i w = bindE (writeFd (ch_fd (chans w ?c)) (tc_outputBuffer (conns w i)) w)
      (\<lambda>(n, v). if n > 0 then bindE (retrieve n (tc_outputBuffer (conns v i))) (?rest v) else Inl Abort)"
    unfolding after_flush_def [abs_def] by (simp add: handleWrite_def Let_def)
  with run obtain n v where wr: "writeFd (ch_fd (chans w ?c)) (tc_outputBuffer (conns w i)) w = Inr (n, v)"
    and "(if n > 0 then bindE (retrieve n (tc_outputBuffer (conns v i))) (?rest v) else Inl Abort) = Inr w'"
    by (auto simp: bindE_eq_Inr simp del: Let_def)
  then obtain b where rest: "?rest v b = Inr w'"
    by (auto simp: bindE_eq_Inr split: if_splits)
  have q1: "quiet L w v" using wr link
    by (auto simp: writeFd_def do_call_def Let_def result_simps intro: quiet_calls)
  let ?u = "set_conn i (tc_outputBuffer_update (\<lambda>_. b)) v"
  have q2: "quiet L v ?u" by (rule quiet_set_conn [OF quiet_link [OF q1]]) (simp_all add: conn_key_def)
  have q: "quiet L w ?u" by (rule quiet_trans [OF q1 q2])
  have cu: "?c < next_object ?u" using c quiet_same_key(2) [OF q] by simp
  have "quiet L ?u w'"
  proof (cases "readableBytes b = 0")
    case True
    with rest obtain v1 v2 where v1: "Channel_disableWriting ?c ?u = Inr v1" "queue_write_complete i v1 = Inr v2"
      "(if tc_state (conns v2 i) = kDisconnecting then shutDownInLoop i v2 else Inr v2) = Inr w'"
      by (auto simp: result_simps after_flush_def)
    note a = quiet_ops(3) [OF quiet_link [OF q2] cu v1(1), of L]
    note b = quiet_write_complete [OF quiet_link [OF a] v1(2), of L]
    have "quiet L v2 w'" using v1(3) quiet_shut_down [OF quiet_link [OF b]] quiet_refl [OF quiet_link [OF b]]
      by (auto split: if_splits)
    with a b show ?thesis by (blast intro: quiet_trans)
  next
    case False
    then show ?thesis using rest quiet_refl [OF quiet_link [OF q2]] by simp
  qed
  with q show ?thesis by (rule quiet_trans)
qed

end
