(* ===== verification/ServerInv.thy ===== *)
theory ServerInv
  imports ServerLife
begin

text \<open>
  The life of a server's connections. The invariant \<open>server_inv\<close> accounts for every connection: it is in
  its server's map, or its \<open>connectDestroyed\<close> is queued exactly once, or it is disconnected and out
  of the poller for good; and it never goes back. Every callback and functor of the server keeps the invariant, whatever the
  user's callbacks do; the contract of \<open>LoopClient.thy\<close> is interpreted with the server, so that the loop keeps it.
\<close>

section \<open>The invariant\<close>

definition conn_name :: "string \<Rightarrow> int \<Rightarrow> string" where
  "conn_name name k = name @ snprintf 32 (''#'' @ show_int k)"

lemma conn_name_inject:
  assumes "0 \<le> k" "k < 2 ^ 31" "0 \<le> k'" "k' < 2 ^ 31"
  shows "conn_name name k = conn_name name k' \<longleftrightarrow> k = k'"
proof -
  have len: "length (show_int j) < 31" if "0 \<le> j" "j < 2 ^ 31" for j
  proof -
    have "nat j < 10 ^ Suc 9" using that by simp
    from show_nat_length [OF this] that show ?thesis by (simp add: show_int_def)
  qed
  show ?thesis using len [OF assms(1,2)] len [OF assms(3,4)] by (simp add: conn_name_def)
qed

text \<open>Every server runs on loop \<open>L\<close>: \<open>start\<close> never starts the thread pool.\<close>

definition servers_ok :: "nat \<Rightarrow> 'a world_scheme \<Rightarrow> bool" where
  "servers_ok L w \<longleftrightarrow> (\<forall>s. srv_loop (servers w s) = L \<and> baseLoop (srv_pool (servers w s)) = L
     \<and> pool_loops (srv_pool (servers w s)) = [] \<and> pool_threads (srv_pool (servers w s)) = []
     \<and> 1 \<le> srv_nextConnId (servers w s)
     \<and> srv_nextConnId (servers w s) < 2 ^ 31)"

definition conns_ok :: "nat \<Rightarrow> 'a world_scheme \<Rightarrow> bool" where
  "conns_ok L w \<longleftrightarrow> (\<forall>i. is_conn i w \<longrightarrow> tc_loop (conns w i) = L \<and> tc_channel (conns w i) = i)
     \<and> (\<forall>i s. is_conn i w \<longrightarrow> tc_closeCB (conns w i) = Some s \<longrightarrow>
          (\<exists>k. 1 \<le> k \<and> k < srv_nextConnId (servers w s) \<and> tc_name (conns w i) = conn_name (srv_name (servers w s)) k))
     \<and> (\<forall>i j. is_conn i w \<longrightarrow> is_conn j w \<longrightarrow> tc_closeCB (conns w i) = tc_closeCB (conns w j) \<longrightarrow>
          tc_name (conns w i) = tc_name (conns w j) \<longrightarrow> i = j)"

definition mapped :: "nat \<Rightarrow> 'a world_scheme \<Rightarrow> bool" where
  "mapped i w \<longleftrightarrow> (case tc_closeCB (conns w i) of None \<Rightarrow> False
     | Some s \<Rightarrow> srv_connMap (servers w s) (tc_name (conns w i)) = Some i)"

definition map_ok :: "'a world_scheme \<Rightarrow> bool" where
  "map_ok w \<longleftrightarrow> (\<forall>s name i. srv_connMap (servers w s) name = Some i \<longrightarrow> is_conn i w
     \<and> tc_closeCB (conns w i) = Some s \<and> tc_name (conns w i) = name \<and> tc_state (conns w i) \<noteq> kDisconnected)"

text \<open>The connections whose destruction is queued.\<close>

fun doomed :: "task list \<Rightarrow> nat list" where
  "doomed [] = []"
| "doomed (ConnectDestroyed i # fs) = i # doomed fs"
| "doomed (_ # fs) = doomed fs"

definition open_state :: "conn_state \<Rightarrow> bool" where
  "open_state s \<longleftrightarrow> s = kConnected \<or> s = kDisconnecting"

definition tasks_ok :: "task list \<Rightarrow> 'a world_scheme \<Rightarrow> bool" where
  "tasks_ok fs w \<longleftrightarrow> distinct (doomed fs)
     \<and> (\<forall>i \<in> set (doomed fs). is_conn i w \<and> \<not> mapped i w \<and> open_state (tc_state (conns w i)))
     \<and> (\<forall>f \<in> set fs. harmless f \<or> (\<exists>i. f = ConnectDestroyed i))"

text \<open>Every connection is in one place; \<open>X\<close> are the ones being destroyed right now.\<close>

definition accounted :: "nat set \<Rightarrow> task list \<Rightarrow> 'a world_scheme \<Rightarrow> bool" where
  "accounted X fs w \<longleftrightarrow> (\<forall>i. is_conn i w \<longrightarrow> mapped i w \<or> i \<in> set (doomed fs)
     \<or> tc_state (conns w i) = kDisconnected \<and> (i \<in> X \<or> retired i w))"

text \<open>A callback that is bound to a connection sits in that connection's own channel.\<close>

fun callback_ok :: "'a world_scheme \<Rightarrow> nat \<Rightarrow> callback \<Rightarrow> bool" where
  "callback_ok w c (ConnHandleRead i) = (is_conn i w \<and> i = c)"
| "callback_ok w c (ConnHandleWrite i) = (is_conn i w \<and> i = c)"
| "callback_ok w c (ConnHandleClose i) = (is_conn i w \<and> i = c)"
| "callback_ok w c (ConnHandleError i) = (is_conn i w \<and> i = c)"
| "callback_ok w c _ = True"

definition callbacks_ok :: "'a world_scheme \<Rightarrow> bool" where
  "callbacks_ok w \<longleftrightarrow> (\<forall>c. \<forall>cb \<in> bound_callbacks (chans w c). callback_ok w c cb)"

text \<open>What never goes back: a connection keeps its key, it does not return to the map, and a disconnected
  one stays disconnected.\<close>

definition ages :: "'a world_scheme \<Rightarrow> 'a world_scheme \<Rightarrow> bool" where
  "ages w w' \<longleftrightarrow> next_object w \<le> next_object w' \<and> (\<forall>i. is_conn i w \<longrightarrow> conn_key (conns w' i) = conn_key (conns w i)
     \<and> (mapped i w' \<longrightarrow> mapped i w) \<and> (tc_state (conns w i) = kDisconnected \<longrightarrow> tc_state (conns w' i) = kDisconnected))"

lemma ages_refl [simp]: "ages w w"
  by (simp add: ages_def)

lemma ages_conn: "ages w w' \<Longrightarrow> is_conn i w \<Longrightarrow> is_conn i w'"
  unfolding ages_def is_conn_def conn_key_def by fastforce

lemma ages_trans: "ages w w1 \<Longrightarrow> ages w1 w2 \<Longrightarrow> ages w w2"
  using ages_conn [of w w1] unfolding ages_def by (metis order.trans)

definition server_inv :: "nat \<Rightarrow> 'a world_scheme \<Rightarrow> nat set \<Rightarrow> task list \<Rightarrow> 'a world_scheme \<Rightarrow> bool" where
  "server_inv L w0 X ts w \<longleftrightarrow> link_ok w \<and> isInLoopThread L w \<and> servers_ok L w
     \<and> (\<forall>a. acc_channel (acceptors w a) < next_object w) \<and> conns_ok L w \<and> map_ok w
     \<and> tasks_ok (ts @ pendingFunctors (loops w L)) w \<and> accounted X (ts @ pendingFunctors (loops w L)) w
     \<and> callbacks_ok w \<and> ages w0 w"

lemma server_invD:
  assumes "server_inv L w0 X ts w"
  shows "link_ok w" "isInLoopThread L w" "servers_ok L w" "acc_channel (acceptors w a) < next_object w"
    "conns_ok L w" "map_ok w" "tasks_ok (ts @ pendingFunctors (loops w L)) w"
    "accounted X (ts @ pendingFunctors (loops w L)) w" "callbacks_ok w" "ages w0 w"
  using assms by (simp_all add: server_inv_def)

lemma server_inv_here: "server_inv L w0 X ts w \<Longrightarrow> server_inv L w X ts w"
  by (simp add: server_inv_def)

lemma doomed_append [simp]: "doomed (fs @ gs) = doomed fs @ doomed gs"
  by (induction fs rule: doomed.induct) simp_all

lemma doomed_harmless: "list_all harmless fs \<Longrightarrow> doomed fs = []"
  by (induction fs rule: doomed.induct) simp_all

lemma quiet_doomed: "quiet L w w' \<Longrightarrow> doomed (pendingFunctors (loops w' L)) = doomed (pendingFunctors (loops w L))"
  by (auto simp: quiet_def doomed_harmless)

lemma open_state_moves: "state_moves s s' \<Longrightarrow> open_state s \<Longrightarrow> open_state s'"
  "state_moves s s' \<Longrightarrow> s' = kDisconnected \<longleftrightarrow> s = kDisconnected"
  by (auto simp: state_moves_def open_state_def)

lemma quiet_mapped: "quiet L w w' \<Longrightarrow> mapped i w' = mapped i w"
  using quiet_conn [of L w w' i] by (cases "tc_closeCB (conns w i)") (simp_all add: mapped_def quiet_def)

lemma quiet_callback_ok: "quiet L w w' \<Longrightarrow> callback_ok w' c cb = callback_ok w c cb"
  by (cases cb) (simp_all add: quiet_conn(5))

lemma quiet_server_inv:
  assumes inv: "server_inv L w0 X ts w" and q: "quiet L w w'"
  shows "server_inv L w0 X ts w'"
proof -
  note D = server_invD [OF inv]
  obtain fs where fs: "pendingFunctors (loops w' L) = pendingFunctors (loops w L) @ fs" "list_all harmless fs"
    using q unfolding quiet_def by blast
  have st: "state_moves (tc_state (conns w i)) (tc_state (conns w' i))" for i using q by (simp add: quiet_def)
  have sv: "servers w' = servers w" and lk: "link_ok w'" and th: "isInLoopThread L w' = isInLoopThread L w"
    and ac: "acc_channel (acceptors w' a) = acc_channel (acceptors w a)" and nx: "next_object w' = next_object w"
    and re: "retired c w \<Longrightarrow> retired c w'" for a c
    using q by (simp_all add: quiet_def isInLoopThread_def)
  have cb: "bound_callbacks (chans w' c) = bound_callbacks (chans w c)" for c
    using q by (simp add: quiet_def chan_links_def)
  have dm: "doomed (ts @ pendingFunctors (loops w' L)) = doomed (ts @ pendingFunctors (loops w L))"
    using fs by (simp add: doomed_harmless)
  note K = quiet_conn [OF q] quiet_mapped [OF q]
  have "conns_ok L w'" using D(5) unfolding conns_ok_def sv by (simp add: K)
  moreover have "map_ok w'" using D(6) unfolding map_ok_def sv by (simp add: K open_state_moves(2) [OF st])
  moreover have "tasks_ok (ts @ pendingFunctors (loops w' L)) w'"
    using D(7) open_state_moves(1) [OF st] fs unfolding tasks_ok_def dm by (auto simp: K list_all_iff)
  moreover have "accounted X (ts @ pendingFunctors (loops w' L)) w'"
    using D(8) re unfolding accounted_def dm by (auto simp: K open_state_moves(2) [OF st])
  moreover have "callbacks_ok w'" using D(9) by (simp add: callbacks_ok_def cb quiet_callback_ok [OF q])
  moreover have "ages w0 w'" by (rule ages_trans [OF D(10)]) (simp add: ages_def quiet_same_key(1) [OF q] K nx open_state_moves(2) [OF st])
  ultimately show ?thesis
    using D(2,3,4) lk by (simp add: server_inv_def th servers_ok_def sv ac nx)
qed

text \<open>A step that keeps the invariant and starts no handling of events.\<close>

definition kept :: "nat \<Rightarrow> 'a world_scheme \<Rightarrow> nat set \<Rightarrow> task list \<Rightarrow> 'a world_scheme \<Rightarrow> 'a world_scheme \<Rightarrow> bool" where
  "kept L w0 X ts w w' \<longleftrightarrow> server_inv L w0 X ts w' \<and> calm w w'"

lemma keptD: "kept L w0 X ts w w' \<Longrightarrow> server_inv L w0 X ts w'" "kept L w0 X ts w w' \<Longrightarrow> calm w w'"
  by (simp_all add: kept_def)

lemma quiet_kept: "server_inv L w0 X ts w \<Longrightarrow> quiet L w w' \<Longrightarrow> kept L w0 X ts w w'"
  by (simp add: kept_def quiet_server_inv quiet_calm)

lemma kept_after_quiet: "quiet L w v \<Longrightarrow> kept L w0 X ts v w' \<Longrightarrow> kept L w0 X ts w w'"
  by (auto simp: kept_def intro: calm_trans quiet_calm)

lemma kept_refl: "server_inv L w0 X ts w \<Longrightarrow> kept L w0 X ts w w"
  by (simp add: kept_def)

section \<open>The user's operations\<close>

text \<open>What the user's operations rely on.\<close>

definition base_ok :: "'a world_scheme \<Rightarrow> bool" where
  "base_ok w \<longleftrightarrow> link_ok w \<and> (\<forall>i. is_conn i w \<longrightarrow> tc_channel (conns w i) < next_object w)"

lemma server_inv_base: "server_inv L w0 X ts w \<Longrightarrow> base_ok w"
  by (auto simp: server_inv_def base_ok_def conns_ok_def is_conn_def)

lemma quiet_base: "base_ok w \<Longrightarrow> quiet L w w' \<Longrightarrow> base_ok w'"
  using quiet_conn(1,5) quiet_same_key(2) quiet_link by (fastforce simp: base_ok_def)

lemma setState_moves:
  "link_ok w \<Longrightarrow> state_moves (tc_state (conns w i)) s \<Longrightarrow> quiet L w (setState i s w)"
  unfolding setState_def by (rule quiet_set_conn) (simp_all add: conn_key_def)

lemma quiet_user_send:
  assumes base: "base_ok w" and i: "is_conn i w" and own: "isInLoopThread (tc_loop (conns w i)) w"
    and run: "TcpConnection_send i m w = Inr w'"
  shows "quiet L w w'"
proof -
  have "link_ok w" "tc_channel (conns w i) < next_object w" using base i by (simp_all add: base_ok_def)
  with run own show ?thesis
    by (auto simp: TcpConnection_send_def intro: quiet_refl quiet_send_in_loop split: if_splits)
qed

lemma quiet_user_shutdown:
  assumes link: "link_ok w" and own: "isInLoopThread (tc_loop (conns w i)) w"
    and run: "TcpConnection_shutdown i w = Inr w'"
  shows "quiet L w w'"
proof (cases "tc_state (conns w i) = kConnected")
  case True
  let ?w = "setState i kDisconnecting w"
  have q: "quiet L w ?w" by (rule setState_moves [OF link]) (simp add: True state_moves_def)
  have "shutDownInLoop i ?w = Inr w'"
    using run True own by (simp add: TcpConnection_shutdown_def runInLoop_def setState_def Let_def)
  from quiet_shut_down [OF quiet_link [OF q] this] q show ?thesis by (blast intro: quiet_trans)
next
  case False
  then show ?thesis using run quiet_refl [OF link] by (simp add: TcpConnection_shutdown_def)
qed

lemma quiet_user_act:
  assumes base: "base_ok w" and own: "\<And>i. is_conn i w \<Longrightarrow> isInLoopThread (tc_loop (conns w i)) w"
    and run: "user_perform L op w = Inr w'"
  shows "quiet L w w'"
proof -
  have link: "link_ok w" using base by (simp add: base_ok_def)
  have input: "quiet L w (set_conn i (tc_inputBuffer_update (\<lambda>_. b)) w)" for i b
    by (rule quiet_set_conn [OF link]) (simp_all add: conn_key_def)
  show ?thesis
  proof (cases op)
    case (UserSend i m)
    then show ?thesis using run quiet_user_send [OF base] own quiet_refl [OF link]
      by (auto simp: user_perform_def split: if_splits)
  next
    case (UserShutdown i)
    then show ?thesis using run quiet_user_shutdown [OF link] own quiet_refl [OF link]
      by (auto simp: user_perform_def split: if_splits)
  next
    case (UserNoDelay i on)
    then show ?thesis using run quiet_refl [OF link] quiet_calls [OF link]
      by (auto simp: user_perform_def setTcpNoDelay_def split: if_splits)
  next
    case (UserRetrieve i n)
    then show ?thesis using run quiet_refl [OF link] input
      by (auto simp: user_perform_def result_simps split: if_splits)
  next
    case (UserTakeAll i)
    then show ?thesis using run quiet_refl [OF link] input
      by (auto simp: user_perform_def result_simps split: if_splits)
  next
    case (UserQueue k)
    then show ?thesis using run quiet_queue [OF link, of "UserFunctor k"] by (simp add: user_perform_def)
  next
    case UserQuit
    then show ?thesis using run quiet_quit [OF link] by (simp add: user_perform_def)
  qed
qed

lemma quiet_react:
  assumes inv: "server_inv L w0 X ts w" and run: "react L P e w = Inr w'"
  shows "quiet L w w'"
proof (rule quiet_run [OF _ server_invD(1) [OF inv]])
  show "run_all (user_perform L) (P e w) w = Inr w'" using run by (simp add: react_def)
  fix op s s' assume q: "quiet L w s" and op: "user_perform L op s = Inr s'"
  note inv' = quiet_server_inv [OF inv q]
  have "isInLoopThread (tc_loop (conns s i)) s" if "is_conn i s" for i
    using server_invD(2,5) [OF inv'] that by (simp add: conns_ok_def)
  then show "quiet L s s'" using quiet_user_act [OF server_inv_base [OF inv'] _ op] by blast
qed

lemma react_kept: "server_inv L w0 X ts w \<Longrightarrow> react L P e w = Inr w' \<Longrightarrow> kept L w0 X ts w w'"
  by (blast intro: quiet_kept quiet_react)

section \<open>Closing\<close>

lemma mapped_name:
  assumes "map_ok w" "conns_ok L w" "is_conn i w" "tc_closeCB (conns w i) = Some s"
  shows "srv_connMap (servers w s) (tc_name (conns w i)) = None \<or> srv_connMap (servers w s) (tc_name (conns w i)) = Some i"
proof (cases "srv_connMap (servers w s) (tc_name (conns w i))")
  case (Some j)
  with assms(1) have "is_conn j w" "tc_closeCB (conns w j) = Some s" "tc_name (conns w j) = tc_name (conns w i)"
    unfolding map_ok_def by blast+
  with assms(2,3,4) have "i = j" unfolding conns_ok_def by metis
  with Some show ?thesis by simp
qed simp

text \<open>Another name of another server's connection stays where it is.\<close>

lemma mapped_erase:
  assumes D: "map_ok w" "conns_ok L w" "is_conn i w" "tc_closeCB (conns w i) = Some s" "is_conn j w"
    and w': "conns w' = conns w" "servers w' = (servers w)(s := (servers w s)\<lparr>srv_connMap :=
      (srv_connMap (servers w s))(tc_name (conns w i) := None)\<rparr>)"
  shows "mapped j w' \<longleftrightarrow> j \<noteq> i \<and> mapped j w"
proof (cases "tc_closeCB (conns w j)")
  case None
  then show ?thesis by (simp add: mapped_def w')
next
  case (Some t)
  show ?thesis
  proof (cases "t = s \<and> tc_name (conns w j) = tc_name (conns w i)")
    case True
    with D(2,3,4,5) Some have "j = i" unfolding conns_ok_def by metis
    with D(4) show ?thesis by (simp add: mapped_def w')
  next
    case False
    then have "j \<noteq> i" using D(4) Some by auto
    with False Some show ?thesis by (auto simp: mapped_def w')
  qed
qed

lemma erase_inv:
  assumes inv: "server_inv L w0 X ts w" and i: "is_conn i w" "tc_closeCB (conns w i) = Some s" "mapped i w"
    and st: "open_state (tc_state (conns w i))"
    and w': "conns w' = conns w" "chans w' = chans w" "acceptors w' = acceptors w" "next_object w' = next_object w"
      "cur_thread w' = cur_thread w" "servers w' = (servers w)(s := (servers w s)\<lparr>srv_connMap :=
        (srv_connMap (servers w s))(tc_name (conns w i) := None)\<rparr>)"
      "\<And>l. loop_poller (loops w' l) = loop_poller (loops w l)" "\<And>l. threadId (loops w' l) = threadId (loops w l)"
      "pendingFunctors (loops w' L) = pendingFunctors (loops w L) @ [ConnectDestroyed i]"
  shows "server_inv L w0 X ts w'"
proof -
  note D = server_invD [OF inv]
  have ic: "is_conn j w' = is_conn j w" for j by (simp add: is_conn_def w')
  note M = mapped_erase [OF D(6,5) i(1,2) _ w'(1,6)]
  have lk: "link_ok w'" and re: "retired c w' = retired c w" for c
    using link_ok_same [OF D(1), of w'] w' by simp_all
  have inew: "i \<notin> set (doomed (ts @ pendingFunctors (loops w L)))"
    using D(7) i(3) by (auto simp: tasks_ok_def)
  have fs: "ts @ pendingFunctors (loops w' L) = (ts @ pendingFunctors (loops w L)) @ [ConnectDestroyed i]"
    by (simp add: w')
  have dm: "doomed (ts @ pendingFunctors (loops w' L)) = doomed (ts @ pendingFunctors (loops w L)) @ [i]"
    unfolding fs doomed_append by simp
  have "isInLoopThread L w'" using D(2) by (simp add: isInLoopThread_def w')
  moreover have "servers_ok L w'" using D(3) by (simp add: servers_ok_def w')
  moreover have "conns_ok L w'" using D(5) by (simp add: conns_ok_def ic w')
  moreover have "map_ok w'" using D(6) by (simp add: map_ok_def ic w')
  moreover have "tasks_ok (ts @ pendingFunctors (loops w' L)) w'"
    unfolding tasks_ok_def dm ic using D(7) i inew M st unfolding fs by (auto simp: tasks_ok_def w'(1))
  moreover have "accounted X (ts @ pendingFunctors (loops w' L)) w'"
    unfolding accounted_def dm ic re using D(8) M by (auto simp: accounted_def w'(1))
  moreover have "callback_ok w' c cb = callback_ok w c cb" for c cb by (cases cb) (simp_all add: ic)
  then have "callbacks_ok w'" using D(9) by (simp add: callbacks_ok_def w')
  moreover have "ages w0 w'" by (rule ages_trans [OF D(10)]) (simp add: ages_def M w')
  ultimately show ?thesis using lk D(4) by (simp add: server_inv_def w')
qed

lemma queue_shape:
  assumes "queueInLoop l f w = Inr w'"
  shows "\<exists>log. w' = (set_loop l (pendingFunctors_update (\<lambda>fs. fs @ [f])) w)\<lparr>calls := log\<rparr>"
proof (cases "\<not> isInLoopThread l w \<or> callingPendingFunctors (loops w l)")
  case True
  then show ?thesis using assms
    by (auto simp: queueInLoop_def wakeup_def do_call_def Let_def result_simps)
next
  case False
  let ?w = "set_loop l (pendingFunctors_update (\<lambda>fs. fs @ [f])) w"
  have "?w = ?w\<lparr>calls := calls w\<rparr>" by (simp add: set_loop_def)
  with False assms show ?thesis by (intro exI [of _ "calls w"]) (simp add: queueInLoop_def)
qed

lemma set_server_simps [simp]:
  "conns (set_server s f w) = conns w" "chans (set_server s f w) = chans w" "loops (set_server s f w) = loops w"
  "acceptors (set_server s f w) = acceptors w" "next_object (set_server s f w) = next_object w"
  "cur_thread (set_server s f w) = cur_thread w" "calls (set_server s f w) = calls w"
  "servers (set_server s f w) = (servers w)(s := f (servers w s))"
  "isInLoopThread l (set_server s f w) = isInLoopThread l w"
  by (simp_all add: set_server_def isInLoopThread_def)

lemma removal_kept:
  assumes inv: "server_inv L w0 X ts w" and i: "is_conn i w" "tc_closeCB (conns w i) = Some s"
    and st: "open_state (tc_state (conns w i))" and run: "removeConnection s i w = Inr w'"
  shows "kept L w0 X ts w w'"
proof -
  note D = server_invD [OF inv]
  let ?w = "set_server s (srv_connMap_update (\<lambda>m. m(tc_name (conns w i) := None))) w"
  have l: "tc_loop (conns w i) = L" using D(5) i(1) by (simp add: conns_ok_def)
  have n: "srv_connMap (servers w s) (tc_name (conns w i)) \<noteq> None" and q: "queueInLoop L (ConnectDestroyed i) ?w = Inr w'"
    using run D(2,3) l
    by (auto simp: removeConnection_def runInLoop_def removeConnectionInLoop_def Let_def result_simps servers_ok_def)
  have "mapped i w" using mapped_name [OF D(6,5) i] n i(2) by (simp add: mapped_def)
  from queue_shape [OF q] obtain log where
    w': "w' = (set_loop L (pendingFunctors_update (\<lambda>fs. fs @ [ConnectDestroyed i])) ?w)\<lparr>calls := log\<rparr>" by blast
  have "server_inv L w0 X ts w'" unfolding w'
    by (rule erase_inv [OF inv i \<open>mapped i w\<close> st], simp_all) (cases "servers w s", simp)
  then show ?thesis by (simp add: kept_def w' calm_def)
qed

lemma close_kept:
  assumes inv: "server_inv L w0 X ts w" and i: "is_conn i w" and run: "handleClose (server_hooks A) i w = Inr w'"
  shows "kept L w0 X ts w w'"
proof -
  note D = server_invD [OF inv]
  from i obtain s where s: "tc_closeCB (conns w i) = Some s" by (auto simp: is_conn_def)
  from run obtain v where v: "Channel_disableAll (tc_channel (conns w i)) w = Inr v"
    "invoke (tc_closeCB (conns v i)) (\<lambda>k. onClose (server_hooks A) k i) v = Inr w'"
    and st: "open_state (tc_state (conns w i))"
    by (auto simp: handleClose_def result_simps open_state_def)
  have c: "tc_channel (conns w i) < next_object w" using D(5) i by (auto simp: conns_ok_def is_conn_def)
  note q = quiet_ops(4) [OF D(1) c v(1), of L]
  have "open_state (tc_state (conns v i))" using q st open_state_moves(1) unfolding quiet_def by blast
  moreover have "removeConnection s i v = Inr w'"
    using v(2) s quiet_conn(3) [OF q] by (simp add: invoke_def server_hooks_def)
  ultimately have "kept L w0 X ts v w'"
    using removal_kept [OF quiet_server_inv [OF inv q]] i s quiet_conn(3,5) [OF q] by simp
  with q show ?thesis by (rule kept_after_quiet)
qed

section \<open>The other handlers\<close>

lemma handleRead_kept:
  assumes inv: "server_inv L w0 X ts w" and i: "is_conn i w"
    and run: "handleRead (server_hooks (program_app L P)) i t w = Inr w'"
  shows "kept L w0 X ts w w'"
proof -
  from run obtain r e b v where rd: "readFd (ch_fd (chans w (tc_channel (conns w i)))) (tc_inputBuffer (conns w i)) w = Inr (r, e, b, v)"
    and rest: "(let v = set_conn i (tc_inputBuffer_update (\<lambda>_. b)) v; n = ssize_t_of r in
        if n > 0 then invoke (tc_msgCB (conns v i)) (\<lambda>k. onMessage (server_hooks (program_app L P)) k i t) v
        else if n = 0 then handleClose (server_hooks (program_app L P)) i v
        else handleError i v) = Inr w'"
    by (auto simp: handleRead_def bindE_eq_Inr simp del: Let_def)
  have "\<exists>log. v = w\<lparr>calls := log\<rparr>"
    using rd by (auto simp: readFd_def do_call_def Let_def result_simps split: if_splits)
  then have q1: "quiet L w v" using quiet_calls server_invD(1) [OF inv] by blast
  let ?v = "set_conn i (tc_inputBuffer_update (\<lambda>_. b)) v"
  have q2: "quiet L v ?v" by (rule quiet_set_conn [OF quiet_link [OF q1]]) (simp_all add: conn_key_def)
  note q = quiet_trans [OF q1 q2]
  note inv' = quiet_server_inv [OF inv q]
  have i': "is_conn i ?v" using i quiet_conn(5) [OF quiet_trans [OF q1 q2]] by simp
  consider k where "react L P (OnMessage k i t) ?v = Inr w'"
    | "handleClose (server_hooks (program_app L P)) i ?v = Inr w'"
    using rest by (auto simp: Let_def invoke_def handleError_def server_hooks_def program_app_def
        simp del: set_conn_simps split: if_splits option.splits)
  then have "kept L w0 X ts ?v w'" using close_kept [OF inv' i'] react_kept [OF inv'] by cases
  with q show ?thesis by (rule kept_after_quiet)
qed

lemma established_kept:
  assumes inv: "server_inv L w0 X ts w" and i: "is_conn i w"
    and run: "connectEstablished (server_hooks (program_app L P)) i w = Inr w'"
  shows "kept L w0 X ts w w'"
proof -
  note D = server_invD [OF inv]
  from run obtain v where v: "Channel_enableReading (tc_channel (conns w i)) (setState i kConnected w) = Inr v"
    "invoke (tc_connCB (conns v i)) (\<lambda>k. onConnection (server_hooks (program_app L P)) k i) v = Inr w'"
    and st: "tc_state (conns w i) = kConnecting"
    by (auto simp: connectEstablished_def result_simps)
  have q1: "quiet L w (setState i kConnected w)" by (rule setState_moves [OF D(1)]) (simp add: st state_moves_def)
  have "tc_channel (conns w i) < next_object w" using D(5) i by (auto simp: conns_ok_def is_conn_def)
  then have q2: "quiet L (setState i kConnected w) v"
    by (intro quiet_ops(1) [OF quiet_link [OF q1] _ v(1)]) (simp add: setState_def)
  note q = quiet_trans [OF q1 q2]
  from v(2) react_kept [OF quiet_server_inv [OF inv q]] have "kept L w0 X ts v w'"
    by (auto simp: invoke_def server_hooks_def program_app_def split: option.splits)
  with q show ?thesis by (rule kept_after_quiet)
qed

lemma handleWrite_kept:
  assumes inv: "server_inv L w0 X ts w" and i: "is_conn i w" and run: "handleWrite i w = Inr w'"
  shows "kept L w0 X ts w w'"
proof (rule quiet_kept [OF inv quiet_write [OF _ _ run]])
  show "link_ok w" "tc_channel (conns w i) < next_object w"
    using server_invD(1,5) [OF inv] i by (auto simp: conns_ok_def is_conn_def)
qed

section \<open>A new connection\<close>

text \<open>An update of a server's fields that keeps its loop, its name and its connections, and does not give a
  connection number out again.\<close>

lemma server_field_inv:
  assumes inv: "server_inv L w0 X ts w"
    and f: "srv_loop (f (servers w s)) = L" "baseLoop (srv_pool (f (servers w s))) = L"
      "pool_loops (srv_pool (f (servers w s))) = []" "pool_threads (srv_pool (f (servers w s))) = []" "srv_name (f (servers w s)) = srv_name (servers w s)"
      "srv_connMap (f (servers w s)) = srv_connMap (servers w s)"
      "srv_nextConnId (servers w s) \<le> srv_nextConnId (f (servers w s))" "srv_nextConnId (f (servers w s)) < 2 ^ 31"
  shows "server_inv L w0 X ts (set_server s f w)"
proof -
  let ?w = "set_server s f w"
  note D = server_invD [OF inv]
  have ic: "is_conn j ?w = is_conn j w" for j by (simp add: is_conn_def)
  have m: "srv_connMap (servers ?w t) = srv_connMap (servers w t)" "srv_name (servers ?w t) = srv_name (servers w t)"
    "srv_nextConnId (servers w t) \<le> srv_nextConnId (servers ?w t)" for t using f by simp_all
  have ma: "mapped j ?w = mapped j w" for j by (simp add: mapped_def f split: option.split)
  have cb: "callback_ok ?w c cb = callback_ok w c cb" for c cb by (cases cb) (simp_all add: ic)
  have "link_ok ?w" and re: "retired c ?w = retired c w" for c
    using link_ok_same [OF D(1), of ?w] by simp_all
  moreover have "1 \<le> srv_nextConnId (servers w s)" using D(3) by (simp add: servers_ok_def)
  then have "1 \<le> srv_nextConnId (f (servers w s))" using f(7) by linarith
  with D(3) f have "servers_ok L ?w" by (simp add: servers_ok_def)
  moreover have "conns_ok L ?w"
    using D(5) order.strict_trans2 [OF _ m(3)] unfolding conns_ok_def ic m(2) set_server_simps(1) by blast
  moreover have "map_ok ?w" using D(6) unfolding map_ok_def ic m set_server_simps(1) .
  moreover have "tasks_ok (ts @ pendingFunctors (loops ?w L)) ?w" using D(7) by (simp add: tasks_ok_def ic ma)
  moreover have "accounted X (ts @ pendingFunctors (loops ?w L)) ?w" using D(8) by (simp add: accounted_def ic ma re)
  moreover have "callbacks_ok ?w" using D(9) by (simp add: callbacks_ok_def cb)
  moreover have "ages w0 ?w" by (rule ages_trans [OF D(10)]) (simp add: ages_def ma)
  ultimately show ?thesis using D(2,4) by (simp add: server_inv_def)
qed

lemma servers_okD:
  assumes "servers_ok L w"
  shows "srv_loop (servers w s) = L" "baseLoop (srv_pool (servers w s)) = L" "pool_loops (srv_pool (servers w s)) = []"
    "1 \<le> srv_nextConnId (servers w s)" "srv_nextConnId (servers w s) < 2 ^ 31"
    "pool_threads (srv_pool (servers w s)) = []"
  using assms by (simp_all add: servers_ok_def)

lemma next_id_inv:
  assumes "server_inv L w0 X ts w" "srv_nextConnId (servers w s) + 1 < 2 ^ 31"
  shows "server_inv L w0 X ts (set_server s (srv_nextConnId_update (\<lambda>n. n + 1)) w)"
  using assms servers_okD [OF server_invD(3) [OF assms(1)], of s] by (intro server_field_inv) simp_all

text \<open>A connection is entered under a name no connection of the server has, with a channel of its own.\<close>

definition enter_conn :: "nat \<Rightarrow> string \<Rightarrow> tcp_conn \<Rightarrow> channel \<Rightarrow> 'a world_scheme \<Rightarrow> 'a world_scheme" where
  "enter_conn s name cn ch w =
     (let i = next_object w in
      set_server s (srv_connMap_update (\<lambda>m. m(name \<mapsto> i)))
        (w\<lparr>conns := (conns w)(i := cn), chans := (chans w)(i := ch), next_object := i + 1\<rparr>))"

lemma enter_conn_simps [simp]:
  "conns (enter_conn s name cn ch w) = (conns w)(next_object w := cn)"
  "chans (enter_conn s name cn ch w) = (chans w)(next_object w := ch)"
  "loops (enter_conn s name cn ch w) = loops w" "acceptors (enter_conn s name cn ch w) = acceptors w"
  "cur_thread (enter_conn s name cn ch w) = cur_thread w"
  "next_object (enter_conn s name cn ch w) = next_object w + 1"
  "servers (enter_conn s name cn ch w) =
     (servers w)(s := srv_connMap_update (\<lambda>m. m(name \<mapsto> next_object w)) (servers w s))"
  by (simp_all add: enter_conn_def Let_def set_server_def)

lemma enter_inv:
  assumes inv: "server_inv L w0 X ts w"
    and k: "1 \<le> k" "k < srv_nextConnId (servers w s)" "name = conn_name (srv_name (servers w s)) k"
    and fresh: "\<And>j. is_conn j w \<Longrightarrow> tc_closeCB (conns w j) = Some s \<Longrightarrow> tc_name (conns w j) \<noteq> name"
    and cn: "tc_loop cn = L" "tc_channel cn = next_object w" "tc_name cn = name" "tc_closeCB cn = Some s"
      "tc_state cn = kConnecting"
    and ch: "0 \<le> ch_fd ch" "bound_callbacks ch \<subseteq> {ConnHandleRead (next_object w), ConnHandleWrite (next_object w),
       ConnHandleClose (next_object w), ConnHandleError (next_object w)}"
  shows "server_inv L w0 X ts (enter_conn s name cn ch w)"
proof -
  let ?w = "enter_conn s name cn ch w" and ?i = "next_object w"
  note D = server_invD [OF inv]
  have old: "\<not> is_conn ?i w" by (simp add: is_conn_def)
  have ic: "is_conn j ?w \<longleftrightarrow> j = ?i \<or> is_conn j w" for j by (auto simp: is_conn_def cn)
  have same: "conns ?w j = conns w j" if "is_conn j w" for j using that old by auto
  have ma: "mapped j ?w = mapped j w" if "is_conn j w" for j
    using fresh [OF that] same [OF that] by (auto simp: mapped_def split: option.split)
  have mi: "mapped ?i ?w" by (simp add: mapped_def cn)
  have rg: "registered c ?w = registered c w" for c by (simp add: registered_def)
  have nr: "\<not> registered ?i w" using D(1) by (auto simp: link_ok_def)
  then have "reactor_inv ?w"
    using reactor_inv_new_channel [of w ?i ?w ch] D(1) by (simp add: link_ok_def fresh_channel_def registered_def)
  then have "link_ok ?w" using D(1) ch(1) less_SucI by (auto simp: link_ok_def rg)
  moreover have "servers_ok L ?w" using D(3) by (simp add: servers_ok_def)
  moreover have "conns_ok L ?w"
  proof -
    have n: "srv_nextConnId (servers ?w t) = srv_nextConnId (servers w t)" "srv_name (servers ?w t) = srv_name (servers w t)"
      for t by simp_all
    have "tc_loop (conns ?w j) = L \<and> tc_channel (conns ?w j) = j" if "is_conn j ?w" for j
      using that D(5) same cn by (auto simp: ic conns_ok_def)
    moreover have "\<exists>k. 1 \<le> k \<and> k < srv_nextConnId (servers w t) \<and> tc_name (conns ?w j) = conn_name (srv_name (servers w t)) k"
      if "is_conn j ?w" "tc_closeCB (conns ?w j) = Some t" for j t
    proof (cases "j = ?i")
      case True
      then have "t = s" "tc_name (conns ?w j) = name" using that(2) cn by simp_all
      with k show ?thesis by auto
    next
      case False
      then have "is_conn j w" "conns ?w j = conns w j" using that(1) ic by simp_all
      then show ?thesis using D(5) that(2) by (simp add: conns_ok_def)
    qed
    moreover have "j = j'" if "is_conn j ?w" "is_conn j' ?w" "tc_closeCB (conns ?w j) = tc_closeCB (conns ?w j')"
      "tc_name (conns ?w j) = tc_name (conns ?w j')" for j j'
      using that fresh cn D(5) unfolding ic conns_ok_def by (cases "j = ?i"; cases "j' = ?i") auto
    ultimately show ?thesis unfolding conns_ok_def n by blast
  qed
  moreover have "map_ok ?w" using D(6) same cn by (auto simp: map_ok_def ic)
  moreover have "tasks_ok (ts @ pendingFunctors (loops ?w L)) ?w"
    using D(7) same ma by (auto simp: tasks_ok_def ic)
  moreover have "accounted X (ts @ pendingFunctors (loops ?w L)) ?w"
    using D(8) same ma mi old by (auto simp: accounted_def ic retired_def rg)
  moreover have "callback_ok ?w c cb" if "callback_ok w c cb" for c cb using that by (cases cb) (simp_all add: ic)
  then have "callbacks_ok ?w" using D(9) ch(2) by (auto simp: callbacks_ok_def ic)
  moreover have "acc_channel (acceptors ?w a) < next_object ?w" for a using D(4) [of a] by simp
  moreover have "ages w0 ?w" by (rule ages_trans [OF D(10)]) (use same ma in \<open>auto simp: ages_def\<close>)
  ultimately show ?thesis using D(2) by (simp add: server_inv_def isInLoopThread_def)
qed

lemma same_pool: "pool = srv_pool (servers w s) \<Longrightarrow> set_server s (srv_pool_update (\<lambda>_. pool)) w = w"
proof -
  have "srv_pool_update (\<lambda>_. srv_pool r) r = r" for r :: tcp_server by (cases r) simp
  then show "pool = srv_pool (servers w s) \<Longrightarrow> set_server s (srv_pool_update (\<lambda>_. pool)) w = w"
    by (simp add: set_server_def)
qed

lemma enter_conn_steps:
  assumes "next_object w = i"
  shows "set_conn i f (set_server s (srv_connMap_update (\<lambda>m. m(name \<mapsto> i)))
      (w\<lparr>next_object := Suc i, conns := (conns w)(i := cn), chans := (chans w)(i := ch)\<rparr>)) = enter_conn s name (f cn) ch w"
  using assms by (simp add: enter_conn_def set_conn_def set_server_def)

lemma new_connection_shape:
  assumes run: "newConnection A s connfd pa w = Inr w'"
    and pool: "baseLoop (srv_pool (servers w s)) = L" "pool_loops (srv_pool (servers w s)) = []" and own: "isInLoopThread L w"
  shows "\<exists>log cn ch. connectEstablished (server_hooks A) (next_object w) (enter_conn s
       (srv_name (servers w s) @ snprintf 32 (''#'' @ show_int (srv_nextConnId (servers w s)))) cn ch
       ((set_server s (srv_nextConnId_update (\<lambda>n. n + 1)) w)\<lparr>calls := log\<rparr>)) = Inr w'
     \<and> (\<exists>a. log = calls w @ [(SysGetsockname connfd, a)]) \<and> tc_loop cn = L \<and> tc_channel cn = next_object w
     \<and> tc_name cn = srv_name (servers w s) @ snprintf 32 (''#'' @ show_int (srv_nextConnId (servers w s)))
     \<and> tc_closeCB cn = Some s \<and> tc_state cn = kConnecting \<and> ch_fd ch = connfd \<and> ch_loop ch = L \<and> \<not> ch_eventHandling ch
     \<and> bound_callbacks ch = {ConnHandleRead (next_object w), ConnHandleWrite (next_object w),
         ConnHandleClose (next_object w), ConnHandleError (next_object w)}"
proof -
  let ?w1 = "set_server s (srv_nextConnId_update (\<lambda>n. n + 1)) w" and ?i = "next_object w"
  let ?name = "srv_name (servers w s) @ snprintf 32 (''#'' @ show_int (srv_nextConnId (servers w s)))"
  let ?H = "server_hooks A"
  obtain a v where v: "do_call (SysGetsockname connfd) ?w1 = (a, v)" by fastforce
  then obtain log where v': "v = ?w1\<lparr>calls := log\<rparr>" and log: "log = calls w @ [(SysGetsockname connfd, a)]"
    by (auto simp: do_call_def Let_def)
  have guards: "isInLoopThread (srv_loop (servers w s)) w" "srv_nextConnId (servers w s) \<noteq> 2 ^ 31 - 1" "0 \<le> ret a"
    using run v by (simp_all add: newConnection_def Socket_getLocalAddr_def result_simps Let_def split: if_splits)
  have view: "next_object v = ?i" "srv_name (servers v s) = srv_name (servers w s)"
    "srv_connCB (servers v s) = srv_connCB (servers w s)" "srv_msgCB (servers v s) = srv_msgCB (servers w s)"
    "srv_writeCompleteCb (servers v s) = srv_writeCompleteCb (servers w s)" by (simp_all add: v')
  have next_loop: "getNextLoop (srv_pool (servers v s)) v = Inr (L, srv_pool (servers v s))"
    using pool own by (simp add: getNextLoop_def v' isInLoopThread_def)
  let ?cn = "\<lparr>tc_loop = L, tc_name = ?name, tc_state = kConnecting, tc_conn = connfd,
                   tc_channel = ?i, tc_localAddr = CapsuledAddr_of (peer a), tc_peerAddr = pa,
                   tc_connCB = srv_connCB (servers w s), tc_msgCB = srv_msgCB (servers w s),
                   tc_writeCompleteCB = srv_writeCompleteCb (servers w s),
                   tc_closeCB = Some s, tc_inputBuffer = new_buffer, tc_outputBuffer = new_buffer\<rparr>"
  let ?ch = "(Channel_ctor L connfd)\<lparr>ch_readCallback := Some (ConnHandleRead ?i),
     ch_writeCallback := Some (ConnHandleWrite ?i), ch_closeCallback := Some (ConnHandleClose ?i),
     ch_errorCallback := Some (ConnHandleError ?i)\<rparr>"
  have "newConnection A s connfd pa w = runInLoop L (ConnectEstablished ?i) (connectEstablished ?H ?i)
      (enter_conn s ?name ?cn ?ch v)"
    using guards next_loop view
    by (simp add: newConnection_def Socket_getLocalAddr_def v same_pool TcpConnection_ctor_def
      Buffer_ctor_returns Let_def enter_conn_steps)
  then have "connectEstablished ?H ?i (enter_conn s ?name ?cn ?ch v) = Inr w'"
    using run own by (simp add: runInLoop_def v' isInLoopThread_def)
  moreover have "bound_callbacks ?ch = {ConnHandleRead ?i, ConnHandleWrite ?i, ConnHandleClose ?i, ConnHandleError ?i}"
    by (auto simp: bound_callbacks_def)
  ultimately show ?thesis
    by (intro exI [of _ log] exI [of _ ?cn] exI [of _ ?ch]) (simp add: v' log Channel_ctor_def)
qed

text \<open>The connection is entered, and then established.\<close>

lemma new_connection_entered:
  assumes inv: "server_inv L w0 X ts w" and fd: "0 \<le> connfd"
    and run: "newConnection (program_app L P) s connfd pa w = Inr w'"
  obtains a name cn ch v where
    "v = enter_conn s name cn ch ((set_server s (srv_nextConnId_update (\<lambda>n. n + 1)) w)\<lparr>calls := calls w @ [(SysGetsockname connfd, a)]\<rparr>)"
    "connectEstablished (server_hooks (program_app L P)) (next_object w) v = Inr w'" "server_inv L w0 X ts v"
    "tc_channel cn = next_object w" "tc_closeCB cn = Some s" "ch_fd ch = connfd" "ch_loop ch = L" "\<not> ch_eventHandling ch"
    "bound_callbacks ch = {ConnHandleRead (next_object w), ConnHandleWrite (next_object w),
       ConnHandleClose (next_object w), ConnHandleError (next_object w)}"
proof -
  note D = server_invD [OF inv]
  let ?k = "srv_nextConnId (servers w s)" and ?w1 = "set_server s (srv_nextConnId_update (\<lambda>n. n + 1)) w"
  let ?name = "srv_name (servers w s) @ snprintf 32 (''#'' @ show_int ?k)" and ?i = "next_object w"
  have "?k \<noteq> 2 ^ 31 - 1" using run by (auto simp: newConnection_def result_simps simp del: Let_def)
  moreover have "?k < 2 ^ 31" using D(3) by (simp add: servers_ok_def)
  ultimately have small: "?k + 1 < 2 ^ 31" by linarith
  note inv1 = next_id_inv [OF inv small]
  from new_connection_shape [OF run servers_okD(2,3) [OF D(3)] D(2)] obtain log cn ch a where
    est: "connectEstablished (server_hooks (program_app L P)) ?i (enter_conn s ?name cn ch (?w1\<lparr>calls := log\<rparr>)) = Inr w'"
    and log: "log = calls w @ [(SysGetsockname connfd, a)]"
    and cn: "tc_loop cn = L" "tc_channel cn = ?i" "tc_name cn = ?name" "tc_closeCB cn = Some s" "tc_state cn = kConnecting"
    and ch: "ch_fd ch = connfd" "ch_loop ch = L" "\<not> ch_eventHandling ch" "bound_callbacks ch = {ConnHandleRead ?i, ConnHandleWrite ?i, ConnHandleClose ?i, ConnHandleError ?i}"
    by blast
  note inv2 = quiet_server_inv [OF inv1 quiet_calls [OF server_invD(1) [OF inv1], of L log]]
  have entered: "server_inv L w0 X ts (enter_conn s ?name cn ch (?w1\<lparr>calls := log\<rparr>))"
  proof (rule enter_inv [OF inv2])
    show "1 \<le> ?k" using D(3) by (simp add: servers_ok_def)
    show "?name = conn_name (srv_name (servers (?w1\<lparr>calls := log\<rparr>) s)) ?k" by (simp add: conn_name_def)
    fix j assume j: "is_conn j (?w1\<lparr>calls := log\<rparr>)" "tc_closeCB (conns (?w1\<lparr>calls := log\<rparr>) j) = Some s"
    then have "is_conn j w" "tc_closeCB (conns w j) = Some s" by (simp_all add: is_conn_def)
    with D(5) obtain k where k: "1 \<le> k" "k < ?k" "tc_name (conns w j) = conn_name (srv_name (servers w s)) k"
      unfolding conns_ok_def by blast
    with conn_name_inject [of k ?k] small show "tc_name (conns (?w1\<lparr>calls := log\<rparr>) j) \<noteq> ?name"
      unfolding conn_name_def [symmetric] by simp
  qed (use cn ch fd in simp_all)
  show thesis by (rule that [OF refl est [unfolded log] entered [unfolded log] cn(2,4) ch])
qed

lemma new_connection_kept:
  assumes inv: "server_inv L w0 X ts w" and fd: "0 \<le> connfd"
    and run: "newConnection (program_app L P) s connfd pa w = Inr w'"
  shows "kept L w0 X ts w w'"
proof (rule new_connection_entered [OF assms])
  fix a name cn ch v
  assume v: "v = enter_conn s name cn ch ((set_server s (srv_nextConnId_update (\<lambda>n. n + 1)) w)\<lparr>calls := calls w @ [(SysGetsockname connfd, a)]\<rparr>)"
    and est: "connectEstablished (server_hooks (program_app L P)) (next_object w) v = Inr w'" "server_inv L w0 X ts v"
    and cn: "tc_closeCB cn = Some s" and ch: "\<not> ch_eventHandling ch"
  have "kept L w0 X ts v w'" by (rule established_kept [OF est(2) _ est(1)]) (simp add: v is_conn_def cn)
  then show ?thesis using ch by (auto simp: v kept_def calm_def split: if_splits)
qed

section \<open>The acceptor\<close>

lemma acceptor_kept:
  assumes inv: "server_inv L w0 X ts w" and run: "Acceptor_handleNewConnection be (program_app L P) a w = Inr w'"
  shows "kept L w0 X ts w w'"
proof -
  obtain r v where v: "do_call (SysAccept4 (acc_socket (acceptors w a))) w = (r, v)" by fastforce
  note q = quiet_call [OF server_invD(1) [OF inv] v, of L]
  note inv' = quiet_server_inv [OF inv q]
  have "isInLoopThread (acc_loop (acceptors w a)) w" using run by (simp add: Acceptor_handleNewConnection_def result_simps)
  then have "Acceptor_handleNewConnection be (program_app L P) a w =
      (if 0 \<le> ret r then case acc_newConnCB (acceptors v a) of
         Some s \<Rightarrow> newConnection (program_app L P) s (ret r) (peer r) v | None \<Rightarrow> FileDescriptor_close (ret r) v
       else Inr v)"
    by (simp add: Acceptor_handleNewConnection_def Socket_accept_def v)
  note eq = trans [OF this [symmetric] run]
  consider s where "0 \<le> ret r" "newConnection (program_app L P) s (ret r) (peer r) v = Inr w'"
    | "FileDescriptor_close (ret r) v = Inr w'" | "w' = v"
  proof (cases "acc_newConnCB (acceptors v a)")
    case None
    show thesis
      by (cases "0 \<le> ret r") (rule that(2), use None eq in simp, rule that(3), use eq in simp)
  next
    case (Some s)
    show thesis
      by (cases "0 \<le> ret r") (rule that(1) [of s], use Some eq in simp_all, rule that(3), use eq in simp)
  qed
  then have "kept L w0 X ts v w'"
  proof cases
    case 1
    then show ?thesis by (rule new_connection_kept [OF inv'])
  next
    case 2
    then have "\<exists>log. w' = v\<lparr>calls := log\<rparr>"
      by (auto simp: FileDescriptor_close_def do_call_def Let_def result_simps)
    then show ?thesis using quiet_kept [OF inv' quiet_calls] server_invD(1) [OF inv'] by blast
  qed (use kept_refl [OF inv'] in simp)
  with q show ?thesis by (rule kept_after_quiet)
qed

lemma listen_quiet:
  assumes inv: "server_inv L w0 X ts w" and run: "Acceptor_listen a w = Inr w'"
  shows "quiet L w w'"
proof -
  note D = server_invD [OF inv]
  let ?w = "set_acceptor a (acc_listenning_update (\<lambda>_. True)) w" and ?c = "acc_channel (acceptors w a)"
  from run obtain log where on: "Channel_enableReading ?c (?w\<lparr>calls := log\<rparr>) = Inr w'"
    by (auto simp: Acceptor_listen_def Socket_listen_def do_call_def Let_def result_simps set_acceptor_def)
  have q: "quiet L w (?w\<lparr>calls := log\<rparr>)"
    by (rule quiet_plain [OF D(1), where fs = "[]"]) (simp_all add: set_acceptor_def)
  have "?c < next_object (?w\<lparr>calls := log\<rparr>)" using D(4) by (simp add: set_acceptor_def)
  from quiet_ops(1) [OF quiet_link [OF q] this on] show ?thesis using q by (blast intro: quiet_trans)
qed

lemma listen_kept: "server_inv L w0 X ts w \<Longrightarrow> Acceptor_listen a w = Inr w' \<Longrightarrow> kept L w0 X ts w w'"
  by (blast intro: quiet_kept listen_quiet)

section \<open>The functors\<close>

lemma harmless_head: "server_inv L w0 X (f # ts) w \<Longrightarrow> harmless f \<Longrightarrow> server_inv L w0 X ts w"
  by (cases f) (simp_all add: server_inv_def tasks_ok_def accounted_def)

lemma dying_inv:
  assumes inv: "server_inv L w0 {} (ConnectDestroyed i # ts) w"
  shows "server_inv L w0 {i} ts (setState i kDisconnected w)"
proof -
  let ?w = "setState i kDisconnected w"
  note D = server_invD [OF inv]
  have sv: "servers ?w = servers w" "acceptors ?w = acceptors w" "next_object ?w = next_object w"
    "loops ?w = loops w" "chans ?w = chans w" "isInLoopThread L ?w = isInLoopThread L w"
    by (simp_all add: setState_def)
  have key: "tc_closeCB (conns ?w j) = tc_closeCB (conns w j)" "tc_name (conns ?w j) = tc_name (conns w j)"
    "tc_loop (conns ?w j) = tc_loop (conns w j)" "tc_channel (conns ?w j) = tc_channel (conns w j)"
    "tc_state (conns ?w j) = (if j = i then kDisconnected else tc_state (conns w j))" for j
    by (simp_all add: setState_def)
  have ic: "is_conn j ?w = is_conn j w" and ma: "mapped j ?w = mapped j w" for j
    by (simp_all add: is_conn_def mapped_def sv key split: option.split)
  have i: "\<not> mapped i w" "i \<notin> set (doomed (ts @ pendingFunctors (loops w L)))"
    using D(7) by (simp_all add: tasks_ok_def)
  have lk: "link_ok ?w" and re: "retired c ?w = retired c w" for c
    using link_ok_same [OF D(1), of ?w] by (simp_all add: sv)
  have "conns_ok L ?w" using D(5) unfolding conns_ok_def ic key sv .
  moreover have "tc_state (conns ?w j) \<noteq> kDisconnected" if "srv_connMap (servers w s) name = Some j" for s name j
  proof -
    from D(6) that have j: "tc_closeCB (conns w j) = Some s" "tc_name (conns w j) = name" "tc_state (conns w j) \<noteq> kDisconnected"
      unfolding map_ok_def by blast+
    then have "mapped j w" using that by (simp add: mapped_def)
    with i(1) j(3) show ?thesis by (auto simp: key)
  qed
  then have "map_ok ?w" using D(6) unfolding map_ok_def ic sv key(1,2) by blast
  moreover have "tasks_ok (ts @ pendingFunctors (loops ?w L)) ?w"
    using D(7) i(2) by (auto simp: tasks_ok_def ic ma sv key)
  moreover have "accounted {i} (ts @ pendingFunctors (loops ?w L)) ?w"
    using D(8) by (auto simp: accounted_def ic ma sv key re)
  moreover have "callback_ok ?w c cb = callback_ok w c cb" for c cb by (cases cb) (simp_all add: ic)
  then have "callbacks_ok ?w" using D(9) by (simp add: callbacks_ok_def sv)
  moreover have "ages w0 ?w" by (rule ages_trans [OF D(10)]) (simp add: ages_def ma sv key conn_key_def)
  ultimately show ?thesis using lk D(2,3,4) by (simp add: server_inv_def servers_ok_def sv)
qed

lemma removed_kept:
  assumes inv: "server_inv L w0 {i} ts w" and i: "is_conn i w"
    and run: "EventLoop_removeChannel l i w = Inr w'"
  shows "kept L w0 {} ts w w'"
proof -
  note D = server_invD [OF inv]
  have "reactor_inv w" using D(1) by (simp add: link_ok_def)
  from removeChannel_returned [OF this run] obtain p chs where
    w': "w' = (set_loop l (loop_poller_update (\<lambda>_. p)) w)\<lparr>chans := chs\<rparr>" "reactor_inv w'"
    and fr: "\<forall>d. \<exists>k. chs d = (chans w d)\<lparr>ch_index := k\<rparr>"
    and re: "retired i w'" "\<forall>d. registered d w' \<longrightarrow> registered d w" "\<forall>d. retired d w \<longrightarrow> retired d w'" by blast
  have ch: "ch_fd (chs c) = ch_fd (chans w c)" "bound_callbacks (chs c) = bound_callbacks (chans w c)"
    "ch_eventHandling (chs c) = ch_eventHandling (chans w c)" for c
    using fr [rule_format, of c] by (auto simp: bound_callbacks_def)
  have sv: "servers w' = servers w" "acceptors w' = acceptors w" "next_object w' = next_object w"
    "conns w' = conns w" "pendingFunctors (loops w' L) = pendingFunctors (loops w L)"
    "isInLoopThread L w' = isInLoopThread L w" "chans w' = chs"
    by (simp_all add: w'(1) isInLoopThread_def)
  have ic: "is_conn j w' = is_conn j w" and ma: "mapped j w' = mapped j w" for j
    by (simp_all add: is_conn_def mapped_def sv split: option.split)
  have "link_ok w'" using D(1) w'(2) re(2) by (simp add: link_ok_def ch sv)
  moreover have "conns_ok L w'" using D(5) by (simp add: conns_ok_def ic sv)
  moreover have "map_ok w'" using D(6) by (simp add: map_ok_def ic sv)
  moreover have "tasks_ok (ts @ pendingFunctors (loops w' L)) w'" using D(7) by (simp add: tasks_ok_def ic ma sv)
  moreover have "accounted {} (ts @ pendingFunctors (loops w' L)) w'"
    using D(8) re(1,3) by (auto simp: accounted_def ic ma sv)
  moreover have "callback_ok w' c cb = callback_ok w c cb" for c cb by (cases cb) (simp_all add: ic)
  then have "callbacks_ok w'" using D(9) by (simp add: callbacks_ok_def sv ch)
  moreover have "ages w0 w'" by (rule ages_trans [OF D(10)]) (simp add: ages_def ma sv)
  ultimately have "server_inv L w0 {} ts w'" using D(2,3,4) by (simp add: server_inv_def servers_ok_def sv)
  then show ?thesis by (simp add: kept_def calm_def sv ch)
qed

lemma destroyed_kept:
  assumes dying: "server_inv L w0 {} (ConnectDestroyed i # ts) w"
    and run: "connectDestroyed (server_hooks (program_app L P)) i w = Inr w'"
  shows "kept L w0 {} ts w w'" "doomed (pendingFunctors (loops w' L)) = doomed (pendingFunctors (loops w L))"
proof -
  let ?w = "setState i kDisconnected w"
  note inv = dying_inv [OF dying]
  have i1: "is_conn i ?w" using server_invD(7) [OF dying] by (simp add: tasks_ok_def is_conn_def setState_def)
  from run obtain v u where v: "Channel_disableAll (tc_channel (conns w i)) ?w = Inr v"
    and u: "invoke (tc_connCB (conns v i)) (\<lambda>k. onConnection (server_hooks (program_app L P)) k i) v = Inr u"
    "EventLoop_removeChannel (tc_loop (conns u i)) (tc_channel (conns u i)) u = Inr w'"
    by (auto simp: connectDestroyed_def result_simps)
  have "tc_channel (conns ?w i) = i" using server_invD(5) [OF inv] i1 by (simp add: conns_ok_def)
  then have "tc_channel (conns w i) < next_object ?w" using i1 by (simp add: is_conn_def setState_def)
  note q1 = quiet_ops(4) [OF server_invD(1) [OF inv] this v]
  note inv2 = quiet_server_inv [OF inv q1]
  from u(1) have q2: "quiet L v u"
    by (auto simp: invoke_def server_hooks_def program_app_def split: option.splits intro: quiet_react [OF inv2])
  note inv3 = quiet_server_inv [OF inv2 q2]
  have i3: "is_conn i u" using i1 quiet_conn(5) [OF q1] quiet_conn(5) [OF q2] by simp
  then have "tc_channel (conns u i) = i" using server_invD(5) [OF inv3] by (simp add: conns_ok_def)
  with u(2) removed_kept [OF inv3 i3] have "kept L w0 {} ts u w'" by simp
  moreover have "calm w u" using quiet_calm [OF quiet_trans [OF q1 q2]] by (simp add: calm_def setState_def)
  ultimately show "kept L w0 {} ts w w'" by (auto simp: kept_def intro: calm_trans)
  have "pendingFunctors (loops w' L) = pendingFunctors (loops u L)"
    using u(2) by (auto simp: EventLoop_removeChannel_def with_poller_def result_simps)
  then show "doomed (pendingFunctors (loops w' L)) = doomed (pendingFunctors (loops w L))"
    by (simp add: quiet_doomed [OF q2] quiet_doomed [OF q1]) (simp add: setState_def)
qed

lemma program_functor_kept:
  "server_inv L w0 X ts w \<Longrightarrow> app_functor (program_app L P) f w = Inr w' \<Longrightarrow> kept L w0 X ts w w'"
  "server_inv L w0 X ts w \<Longrightarrow> app_callback (program_app L P) cb t w = Inr w' \<Longrightarrow> kept L w0 X ts w w'"
  "server_inv L w0 X ts w \<Longrightarrow> app_writeComplete (program_app L P) k i w = Inr w' \<Longrightarrow> kept L w0 X ts w w'"
  by (simp_all add: program_app_def react_kept)

lemma exec_kept:
  assumes inv: "server_inv L w0 {} (f # fs) w" and run: "server_exec (program_app L P) f w = Inr w'"
  shows "kept L w0 {} fs w w'"
proof (cases "harmless f")
  case True
  note inv' = harmless_head [OF inv True]
  show ?thesis using True run
    by (cases f) (auto intro: listen_kept [OF inv'] program_functor_kept [OF inv'])
next
  case False
  then obtain i where "f = ConnectDestroyed i" using server_invD(7) [OF inv] by (auto simp: tasks_ok_def)
  with inv run destroyed_kept(1) show ?thesis by simp
qed

text \<open>No functor queues the destruction of a connection: only the close of a connection does.\<close>

lemma exec_doomed:
  assumes inv: "server_inv L w0 {} (f # fs) w" and run: "server_exec (program_app L P) f w = Inr w'"
  shows "doomed (pendingFunctors (loops w' L)) = doomed (pendingFunctors (loops w L))"
proof (cases "harmless f")
  case True
  note inv' = harmless_head [OF inv True]
  have "quiet L w w'" using True run
    by (cases f) (auto simp: program_app_def intro: listen_quiet [OF inv'] quiet_react [OF inv'])
  then show ?thesis by (rule quiet_doomed)
next
  case False
  then obtain i where "f = ConnectDestroyed i" using server_invD(7) [OF inv] by (auto simp: tasks_ok_def)
  with inv run destroyed_kept(2) show ?thesis by simp
qed

lemma functors_doomed:
  "server_inv L w0 {} fs w \<Longrightarrow> run_all (server_exec (program_app L P)) fs w = Inr w' \<Longrightarrow>
     doomed (pendingFunctors (loops w' L)) = doomed (pendingFunctors (loops w L))"
proof (induction fs arbitrary: w)
  case (Cons f fs)
  from Cons.prems(2) obtain v where "server_exec (program_app L P) f w = Inr v"
    "run_all (server_exec (program_app L P)) fs v = Inr w'" by (auto simp: result_simps)
  with Cons.IH exec_kept [OF Cons.prems(1), THEN keptD(1)] exec_doomed [OF Cons.prems(1)] show ?case by fastforce
qed simp

lemma call_kept:
  assumes inv: "server_inv L w0 {} [] w" and cb: "cb \<in> bound_callbacks (chans w c)"
    and run: "server_call be (program_app L P) cb t w = Inr w'"
  shows "kept L w0 {} [] w w'"
proof -
  have ok: "callback_ok w c cb" using server_invD(9) [OF inv] cb by (auto simp: callbacks_ok_def)
  show ?thesis
  proof (cases cb)
    case (LoopHandleRead l)
    then have "\<exists>log. w' = w\<lparr>calls := log\<rparr>"
      using run by (auto simp: EventLoop_handleRead_def do_call_def Let_def result_simps)
    then show ?thesis using quiet_kept [OF inv quiet_calls] server_invD(1) [OF inv] by blast
  next
    case (ConnHandleError i)
    then show ?thesis using run by (simp add: handleError_def split: prod.splits)
  qed (use run ok in \<open>auto intro: acceptor_kept [OF inv] handleRead_kept [OF inv] handleWrite_kept [OF inv]
         close_kept [OF inv] program_functor_kept [OF inv]\<close>)
qed

section \<open>The server on its loop\<close>

lemma swap_inv:
  assumes inv: "server_inv L w0 X [] w"
  shows "server_inv L w0 X (pendingFunctors (loops w L)) (set_loop L (pendingFunctors_update (\<lambda>_. [])) w)"
proof -
  let ?w = "set_loop L (pendingFunctors_update (\<lambda>_. [])) w"
  note D = server_invD [OF inv]
  have lk: "link_ok ?w" and re: "retired c ?w = retired c w" for c
    using link_ok_same [OF D(1), of ?w] by simp_all
  have ic: "is_conn j ?w = is_conn j w" and ma: "mapped j ?w = mapped j w" for j
    by (simp_all add: is_conn_def mapped_def split: option.split)
  have "callback_ok ?w c cb = callback_ok w c cb" for c cb by (cases cb) (simp_all add: ic)
  moreover have "ages w0 ?w" by (rule ages_trans [OF D(10)]) (simp add: ages_def ma)
  ultimately show ?thesis using D(1-9) lk
    by (simp add: server_inv_def servers_ok_def conns_ok_def map_ok_def tasks_ok_def accounted_def callbacks_ok_def
        ic ma re)
qed

lemma poll_inv:
  assumes inv: "server_inv L w0 X ts w" and run: "loop_poll L w = Inr w'"
  shows "server_inv L w0 X ts w'"
proof -
  note D = server_invD [OF inv]
  have "reactor_inv w" using D(1) by (simp add: link_ok_def)
  from loop_poll_returned [OF this run] obtain t act p chs log where
    w': "reactor_inv w'" "w' = (set_loop L (\<lambda>el. el\<lparr>pollReturnTime := t, activeChannels := act, loop_poller := p\<rparr>) w)
       \<lparr>calls := log, chans := chs\<rparr>"
    and p: "channelMap p = channelMap (loop_poller (loops w L))"
    and fr: "\<forall>c. \<exists>r. chs c = (chans w c)\<lparr>ch_revents := r\<rparr>" by blast
  have ch: "chan_links (chs c) = chan_links (chans w c)" "ch_index (chs c) = ch_index (chans w c)"
    "ch_fd (chs c) = ch_fd (chans w c)" "ch_eventHandling (chs c) = ch_eventHandling (chans w c)" for c
    using fr [rule_format, of c] by (auto simp: chan_links_def bound_callbacks_def)
  have reg: "registered c w' = registered c w" for c
    unfolding registered_def by (intro iff_exI) (simp add: w'(2) p)
  have "quiet L w w'" unfolding quiet_def
    using D(1) w'(1) by (auto simp: link_ok_def retired_def reg) (simp_all add: w'(2) ch calm_def)
  then show ?thesis by (rule quiet_server_inv [OF inv])
qed

lemma loop_flags_inv:
  assumes inv: "server_inv L w0 X ts w" and f: "\<And>el. loop_poller (f el) = loop_poller el" "\<And>el. threadId (f el) = threadId el"
    "\<And>el. pendingFunctors (f el) = pendingFunctors el"
  shows "server_inv L w0 X ts (set_loop L f w)"
  by (rule quiet_server_inv [OF inv], rule quiet_plain [OF server_invD(1) [OF inv], where fs = "[]"]) (simp_all add: f)

lemma handling_inv:
  assumes inv: "server_inv L w0 X ts w"
  shows "server_inv L w0 X ts (set_chan c (ch_eventHandling_update (\<lambda>_. b)) w)"
proof -
  let ?w = "set_chan c (ch_eventHandling_update (\<lambda>_. b)) w"
  note D = server_invD [OF inv]
  have lk: "link_ok ?w" and re: "retired c ?w = retired c w" for c
    using link_ok_same [OF D(1), of ?w] by simp_all
  have ic: "is_conn j ?w = is_conn j w" and ma: "mapped j ?w = mapped j w" for j
    by (simp_all add: is_conn_def mapped_def split: option.split)
  have "callback_ok ?w d cb = callback_ok w d cb" "bound_callbacks (chans ?w d) = bound_callbacks (chans w d)" for d cb
    by (cases cb; simp add: ic) (simp add: bound_callbacks_def)
  moreover have "ages w0 ?w" by (rule ages_trans [OF D(10)]) (simp add: ages_def ma)
  ultimately show ?thesis using D(1-9) lk
    by (simp add: server_inv_def servers_ok_def conns_ok_def map_ok_def tasks_ok_def accounted_def callbacks_ok_def
        isInLoopThread_def ic ma re)
qed

interpretation server_loop: loop_client L "server_call be (program_app L P)" "server_exec (program_app L P)"
    "server_inv L w0 {}" for be L w0 P
proof unfold_locales
  fix w w' :: "'a world_scheme" and f fs cb c t b q
  show "server_inv L w0 {} [] w \<Longrightarrow> loop_poll L w = Inr w' \<Longrightarrow> server_inv L w0 {} [] w'" by (rule poll_inv)
  show "server_inv L w0 {} [] w \<Longrightarrow> server_inv L w0 {} [] (set_chan c (ch_eventHandling_update (\<lambda>_. b)) w)" by (rule handling_inv)
  show "server_inv L w0 {} [] w \<Longrightarrow> cb \<in> bound_callbacks (chans w c) \<Longrightarrow>
      server_call be (program_app L P) cb t w = Inr w' \<Longrightarrow> server_inv L w0 {} [] w'" by (rule keptD(1) [OF call_kept])
  show "server_inv L w0 {} [] w \<Longrightarrow> server_inv L w0 {} [] (set_loop L (callingPendingFunctors_update (\<lambda>_. b)) w)"
    by (rule loop_flags_inv) simp_all
  show "server_inv L w0 {} [] w \<Longrightarrow>
      server_inv L w0 {} (pendingFunctors (loops w L)) (set_loop L (pendingFunctors_update (\<lambda>_. [])) w)" by (rule swap_inv)
  show "server_inv L w0 {} (f # fs) w \<Longrightarrow> server_exec (program_app L P) f w = Inr w' \<Longrightarrow> server_inv L w0 {} fs w'"
    by (rule keptD(1) [OF exec_kept])
  show "server_inv L w0 {} [] w \<Longrightarrow> server_inv L w0 {} [] (set_loop L (\<lambda>el. el\<lparr>looping := b, quit := q\<rparr>) w)"
    by (rule loop_flags_inv) simp_all
qed

interpretation server_calm: calm_client L "server_call be (program_app L P)" "server_exec (program_app L P)"
    "server_inv L w0 {}" for be L w0 P
  by unfold_locales (blast dest: keptD(2) [OF call_kept] keptD(2) [OF exec_kept])+

section \<open>Construction and start of a server\<close>

lemma configure_inv:
  assumes "server_inv L w0 X ts w"
  shows "TcpServer_setThreadNum s n w = Inr w' \<Longrightarrow> server_inv L w0 X ts w'"
    "server_inv L w0 X ts (TcpServer_setConnectionCallback s cb w)"
    "server_inv L w0 X ts (TcpServer_setMessageCallback s cb w)"
    "server_inv L w0 X ts (TcpServer_setWriteCompleteCallback s cb w)"
    "server_inv L w0 X ts (set_server s (srv_started_update (\<lambda>_. b)) w)"
  using assms servers_okD [OF server_invD(3) [OF assms], of s]
  by (auto simp: TcpServer_setThreadNum_def result_simps pool_setThreadNum_def TcpServer_setConnectionCallback_def
      TcpServer_setMessageCallback_def TcpServer_setWriteCompleteCallback_def intro!: server_field_inv)

lemma start_cases:
  assumes own: "isInLoopThread (srv_loop (servers w s)) w" and run: "TcpServer_start s w = Inr w'"
    and v: "v = (if \<not> srv_started (servers w s) then set_server s (srv_started_update (\<lambda>_. True)) w else w)"
  shows "w' = v \<or> (\<exists>a. Acceptor_listen a v = Inr w')"
proof -
  have "isInLoopThread (srv_loop (servers v s)) v" using own by (simp add: v)
  moreover have "TcpServer_start s w = (let w = v; a = srv_acceptor (servers w s) in
      if \<not> acc_listenning (acceptors w a)
      then runInLoop (srv_loop (servers w s)) (AcceptorListen a) (Acceptor_listen a) w else Inr w)"
    by (simp only: TcpServer_start_def Let_def v)
  ultimately show ?thesis using run by (auto simp: Let_def runInLoop_def split: if_splits)
qed

lemma start_kept:
  assumes inv: "server_inv L w0 X ts w" and run: "TcpServer_start s w = Inr w'"
  shows "kept L w0 X ts w w'" "is_conn i w' = is_conn i w"
proof -
  let ?w = "if \<not> srv_started (servers w s) then set_server s (srv_started_update (\<lambda>_. True)) w else w"
  have inv': "server_inv L w0 X ts ?w" using inv configure_inv(5) [OF inv] by simp
  have same: "is_conn i ?w = is_conn i w" "calm w ?w" by (simp_all add: is_conn_def calm_def)
  have "isInLoopThread (srv_loop (servers w s)) w" using server_invD(2,3) [OF inv] by (simp add: servers_ok_def)
  from start_cases [OF this run refl] consider "w' = ?w" | a where "Acceptor_listen a ?w = Inr w'" by blast
  then have "kept L w0 X ts ?w w' \<and> is_conn i w' = is_conn i ?w"
  proof cases
    case 1
    then show ?thesis using kept_refl [OF inv'] by simp
  next
    case 2
    show ?thesis using listen_kept [OF inv' 2] quiet_conn(5) [OF listen_quiet [OF inv' 2]] by simp
  qed
  then show "kept L w0 X ts w w'" "is_conn i w' = is_conn i w"
    using same calm_trans [OF same(2)] unfolding kept_def by blast+
qed

text \<open>The numbers a new server gets: a server without connections, a channel that is free.\<close>

definition free_for_server :: "nat \<Rightarrow> nat \<Rightarrow> 'a world_scheme \<Rightarrow> bool" where
  "free_for_server s c w \<longleftrightarrow> c < next_object w \<and> \<not> is_conn c w \<and> \<not> registered c w
     \<and> (\<forall>i. is_conn i w \<longrightarrow> tc_closeCB (conns w i) \<noteq> Some s)"

lemma server_ctor_inv:
  assumes inv: "server_inv L w0 X ts w" and free: "free_for_server s c w"
    and run: "TcpServer_ctor be s a c L addr w = Inr w'"
  shows "server_inv L w0 X ts w'"
proof -
  note D = server_invD [OF inv]
  from run obtain fd where fd: "0 \<le> fd"
    and w': "conns w' = conns w" "loops w' = loops w" "cur_thread w' = cur_thread w" "next_object w' = next_object w"
      "chans w' = (chans w)(c := (Channel_ctor L fd)\<lparr>ch_readCallback := Some (AcceptorHandleNewConnection a)\<rparr>)"
      "acceptors w' = (acceptors w)(a := \<lparr>acc_loop = L, acc_socket = fd, acc_channel = c,
          acc_newConnCB = Some s, acc_listenning = False\<rparr>)"
      "servers w' = (servers w)(s := \<lparr>srv_loop = L, srv_name = addr_toString be addr,
             srv_acceptor = a, srv_pool = EventLoopThreadPool_ctor L, srv_connCB = None,
             srv_msgCB = None, srv_writeCompleteCb = None, srv_started = False,
             srv_nextConnId = 1, srv_connMap = Map.empty\<rparr>)"
    by (auto simp: TcpServer_ctor_def Acceptor_ctor_def Acceptor_setNewConnectionCallback_def
      Socket_createNonblockingOrDie_def Socket_setReuseAddr_def Socket_bindAddress_def do_call_def Let_def
      result_simps set_chan_def set_acceptor_def)
  have ic: "is_conn j w' = is_conn j w" and rg: "registered d w' = registered d w" for j d
    by (simp_all add: is_conn_def registered_def w')
  have other: "tc_closeCB (conns w j) = Some t \<Longrightarrow> is_conn j w \<Longrightarrow> t \<noteq> s" for j t
    using free by (auto simp: free_for_server_def)
  have ma: "mapped j w' = mapped j w" if "is_conn j w" for j
    using other [OF _ that] by (auto simp: mapped_def w' split: option.split)
  have re: "retired j w' = retired j w" if "is_conn j w" for j
    using free that by (auto simp: free_for_server_def retired_def rg w')
  have "fresh_channel c w" using free by (simp add: free_for_server_def registered_def fresh_channel_def)
  moreover have "reactor_inv w" using D(1) by (simp add: link_ok_def)
  ultimately have "reactor_inv w'" using reactor_inv_new_channel [OF _ _ w'(2,5)] by blast
  then have "link_ok w'" using D(1) fd by (simp add: link_ok_def rg) (simp add: w' Channel_ctor_def)
  moreover have "servers_ok L w'" using D(3) by (simp add: servers_ok_def w' EventLoopThreadPool_ctor_def)
  moreover have "conns_ok L w'"
    using D(5) other unfolding conns_ok_def ic by (auto simp: w')
  moreover have "map_ok w'" using D(6) unfolding map_ok_def ic by (auto simp: w')
  moreover have "tasks_ok (ts @ pendingFunctors (loops w' L)) w'"
    using D(7) ma unfolding tasks_ok_def ic by (auto simp: w')
  moreover have "accounted X (ts @ pendingFunctors (loops w' L)) w'"
    using D(8) ma re unfolding accounted_def ic by (auto simp: w')
  moreover have "callback_ok w' c cb = callback_ok w c cb" for c cb by (cases cb) (simp_all add: ic)
  then have "callbacks_ok w'" using D(9) by (auto simp: callbacks_ok_def w' bound_callbacks_def Channel_ctor_def)
  moreover have "acc_channel (acceptors w' b) < next_object w'" for b
    using D(4) free by (simp add: w' free_for_server_def)
  moreover have "ages w0 w'" by (rule ages_trans [OF D(10)]) (simp add: ages_def ma w')
  ultimately show ?thesis using D(2) by (simp add: server_inv_def isInLoopThread_def) (simp add: w')
qed

end
