(* ===== verification/Setup.thy ===== *)
theory Setup
  imports ServerInv
begin

text \<open>
  What a program does before it starts its loop: it constructs the loop and its servers, sets
  their callbacks and thread numbers, starts them, and may queue functors, in any order and with any answers of the
  kernel (\<open>configured\<close>). Every state it can reach in this way has the invariant of \<open>ServerInv.thy\<close>.
\<close>

section \<open>A new process\<close>

text \<open>The stores hold objects that were not constructed yet; \<open>n\<close> numbers are set aside for the
  channels of loops and acceptors, connections get the numbers from \<open>n\<close> on.\<close>

definition blank_conn :: tcp_conn where
  "blank_conn = \<lparr>tc_loop = 0, tc_name = '''', tc_state = kConnecting, tc_conn = 0, tc_channel = 0,
     tc_localAddr = zero_addr, tc_peerAddr = zero_addr, tc_connCB = None, tc_msgCB = None,
     tc_writeCompleteCB = None, tc_closeCB = None, tc_inputBuffer = new_buffer, tc_outputBuffer = new_buffer\<rparr>"

definition blank_server :: "nat \<Rightarrow> tcp_server" where
  "blank_server L = \<lparr>srv_loop = L, srv_name = '''', srv_acceptor = 0, srv_pool = EventLoopThreadPool_ctor L,
     srv_connCB = None, srv_msgCB = None, srv_writeCompleteCb = None, srv_started = False,
     srv_nextConnId = 1, srv_connMap = Map.empty\<rparr>"

definition blank_acceptor :: acceptor where
  "blank_acceptor = \<lparr>acc_loop = 0, acc_socket = 0, acc_channel = 0, acc_newConnCB = None, acc_listenning = False\<rparr>"

definition new_process :: "(nat \<Rightarrow> answer) \<Rightarrow> nat \<Rightarrow> nat \<Rightarrow> world" where
  "new_process answers L n = \<lparr>os = answers, calls = [], cur_thread = 0, chans = (\<lambda>c. Channel_ctor L 0),
     loops = idle_loop, t_loop = Map.empty, conns = (\<lambda>i. blank_conn), acceptors = (\<lambda>a. blank_acceptor),
     servers = (\<lambda>s. blank_server L), next_object = n\<rparr>"

section \<open>Before the loop\<close>

inductive configured :: "nat \<Rightarrow> world \<Rightarrow> bool" for L where
  new_loop: "c < n \<Longrightarrow> EventLoop_ctor L c (new_process answers L n) = Inr w \<Longrightarrow> configured L w"
| new_server: "configured L w \<Longrightarrow> c < next_object w \<Longrightarrow> \<not> registered c w \<Longrightarrow>
     TcpServer_ctor be s a c L addr w = Inr w' \<Longrightarrow> configured L w'"
| threads: "configured L w \<Longrightarrow> TcpServer_setThreadNum s n w = Inr w' \<Longrightarrow> configured L w'"
| on_connection: "configured L w \<Longrightarrow> configured L (TcpServer_setConnectionCallback s k w)"
| on_message: "configured L w \<Longrightarrow> configured L (TcpServer_setMessageCallback s k w)"
| on_write: "configured L w \<Longrightarrow> configured L (TcpServer_setWriteCompleteCallback s k w)"
| started: "configured L w \<Longrightarrow> TcpServer_start s w = Inr w' \<Longrightarrow> configured L w'"
| queued: "configured L w \<Longrightarrow> queueInLoop L (UserFunctor k) w = Inr w' \<Longrightarrow> configured L w'"

definition set_up :: "nat \<Rightarrow> 'a world_scheme \<Rightarrow> bool" where
  "set_up L w \<longleftrightarrow> server_inv L w {} [] w \<and> at_rest w \<and> (\<forall>i. \<not> is_conn i w)"

lemma new_loop_shape:
  assumes "EventLoop_ctor L c (new_process answers L n) = Inr w"
  shows "0 \<le> ret (answers 0)" "\<exists>lp k. w = (new_process answers L n)\<lparr>calls := [(SysEventfd, answers 0)], t_loop := [0 \<mapsto> L],
     loops := idle_loop(L := lp), chans := (\<lambda>_. Channel_ctor L 0)(c := (Channel_ctor L (ret (answers 0)))\<lparr>ch_readCallback :=
       Some (LoopHandleRead L), ch_events := kReadEvent, ch_index := k\<rparr>)\<rparr>
     \<and> threadId lp = 0 \<and> channelMap (loop_poller lp) = [ret (answers 0) \<mapsto> c] \<and> pendingFunctors lp = []"
  using assms
  by (auto simp: EventLoop_ctor_def createEventfd_def do_call_def Let_def set_chan_def set_loop_def
      Channel_enableReading_def Channel_update_def EventLoop_updateChannel_def with_poller_def
      Poller_updateChannel_def Channel_ctor_def Poller_ctor_def isInLoopThread_def add_reading_def
      new_process_def result_simps)

lemma new_loop_set_up:
  assumes c: "c < n" and run: "EventLoop_ctor L c (new_process answers L n) = Inr w"
  shows "set_up L w"
proof -
  let ?p = "new_process answers L n"
  from new_loop_shape [OF run] obtain lp k where fd: "0 \<le> ret (answers 0)"
    and w: "w = ?p\<lparr>calls := [(SysEventfd, answers 0)], t_loop := [0 \<mapsto> L],
       loops := idle_loop(L := lp), chans := (\<lambda>_. Channel_ctor L 0)(c := (Channel_ctor L (ret (answers 0)))\<lparr>ch_readCallback :=
         Some (LoopHandleRead L), ch_events := kReadEvent, ch_index := k\<rparr>)\<rparr>"
    and lp: "threadId lp = 0" "channelMap (loop_poller lp) = [ret (answers 0) \<mapsto> c]" "pendingFunctors lp = []" by blast
  have "reactor_inv ?p"
    by (simp add: reactor_inv_def new_process_def idle_loop_def Poller_ctor_inv) (simp add: Poller_ctor_def)
  moreover have "ctor_ok L c ?p"
    using fd by (simp add: ctor_ok_def new_process_def idle_loop_def Poller_ctor_def)
  ultimately have re: "reactor_inv w" using EventLoop_ctor_returns [of ?p L c] run by auto
  have f: "cur_thread w = 0" "loops w L = lp" "conns w i = blank_conn" "servers w s = blank_server L"
    "acceptors w a = blank_acceptor" "next_object w = n" "0 \<le> ch_fd (chans w d)"
    "cb \<in> bound_callbacks (chans w d) \<Longrightarrow> cb = LoopHandleRead L" "\<not> ch_eventHandling (chans w d)" for i s a d cb
    using fd by (auto simp: w new_process_def Channel_ctor_def bound_callbacks_def split: if_splits)
  have none: "\<not> is_conn i w" for i by (simp add: is_conn_def f blank_conn_def)
  have reg: "registered d w \<Longrightarrow> d = c" for d
    using lp by (auto simp: registered_def w idle_loop_def Poller_ctor_def split: if_splits)
  have "link_ok w" using re reg c by (auto simp: link_ok_def f)
  moreover have "callbacks_ok w" unfolding callbacks_ok_def using f(8) by fastforce
  ultimately have "server_inv L w {} [] w"
    using lp c none by (simp add: server_inv_def conns_ok_def accounted_def isInLoopThread_def servers_ok_def
        map_ok_def tasks_ok_def f) (simp add: blank_server_def EventLoopThreadPool_ctor_def blank_acceptor_def)
  then show ?thesis using none f(9) by (simp add: set_up_def at_rest_def)
qed

lemma set_up_kept: "set_up L w \<Longrightarrow> kept L w {} [] w w' \<Longrightarrow> (\<And>i. is_conn i w' = is_conn i w) \<Longrightarrow> set_up L w'"
  unfolding set_up_def kept_def using server_inv_here calm_at_rest by blast

lemma new_server_set_up:
  assumes up: "set_up L w" and c: "c < next_object w" "\<not> registered c w"
    and run: "TcpServer_ctor be s a c L addr w = Inr w'"
  shows "set_up L w'"
proof (rule set_up_kept [OF up])
  have inv: "server_inv L w {} [] w" "\<And>i. \<not> is_conn i w" using up by (simp_all add: set_up_def)
  from run obtain fd where w': "conns w' = conns w" "next_object w' = next_object w"
    "chans w' = (chans w)(c := (Channel_ctor L fd)\<lparr>ch_readCallback := Some (AcceptorHandleNewConnection a)\<rparr>)"
    by (auto simp: TcpServer_ctor_def Acceptor_ctor_def Acceptor_setNewConnectionCallback_def
      Socket_createNonblockingOrDie_def Socket_setReuseAddr_def Socket_bindAddress_def do_call_def Let_def
      result_simps set_chan_def set_acceptor_def)
  have "server_inv L w {} [] w'"
    by (rule server_ctor_inv [OF inv(1) _ run]) (use c inv(2) in \<open>simp add: free_for_server_def\<close>)
  moreover have "calm w w'" by (simp add: calm_def w' Channel_ctor_def)
  ultimately show "kept L w {} [] w w'" by (simp add: kept_def)
  show "is_conn i w' = is_conn i w" for i by (simp add: is_conn_def w')
qed

lemma configure_set_up:
  assumes up: "set_up L w"
  shows "TcpServer_setThreadNum s n w = Inr w' \<Longrightarrow> set_up L w'"
    "set_up L (TcpServer_setConnectionCallback s k w)"
    "set_up L (TcpServer_setMessageCallback s k w)"
    "set_up L (TcpServer_setWriteCompleteCallback s k w)"
proof -
  have "server_inv L w {} [] w" using up by (simp add: set_up_def)
  note inv = configure_inv [OF this]
  show "TcpServer_setThreadNum s n w = Inr w' \<Longrightarrow> set_up L w'"
    using inv(1) by (intro set_up_kept [OF up])
      (auto simp: kept_def calm_def is_conn_def TcpServer_setThreadNum_def result_simps)
  show "set_up L (TcpServer_setConnectionCallback s k w)"
    using inv(2) by (intro set_up_kept [OF up]) (simp_all add: kept_def calm_def is_conn_def TcpServer_setConnectionCallback_def)
  show "set_up L (TcpServer_setMessageCallback s k w)"
    using inv(3) by (intro set_up_kept [OF up]) (simp_all add: kept_def calm_def is_conn_def TcpServer_setMessageCallback_def)
  show "set_up L (TcpServer_setWriteCompleteCallback s k w)"
    using inv(4) by (intro set_up_kept [OF up]) (simp_all add: kept_def calm_def is_conn_def TcpServer_setWriteCompleteCallback_def)
qed

text \<open>Everything that is configured satisfies the invariant, and there are no connections yet.\<close>

lemma configured_set_up: "configured L w \<Longrightarrow> set_up L w"
proof (induction rule: configured.induct)
  case (new_loop c n answers w)
  then show ?case by (rule new_loop_set_up)
next
  case (new_server w c be s a addr w')
  then show ?case by (blast intro: new_server_set_up)
next
  case (started w s w')
  then have inv: "server_inv L w {} [] w" by (simp add: set_up_def)
  show ?case by (rule set_up_kept [OF started(3) start_kept [OF inv started(2)]])
next
  case (queued w k w')
  then have inv: "server_inv L w {} [] w" by (simp add: set_up_def)
  have q: "quiet L w w'" by (rule quiet_queue [OF server_invD(1) [OF inv] _ queued(2)]) simp
  show ?case by (rule set_up_kept [OF queued(3) quiet_kept [OF inv q]]) (simp add: quiet_conn(5) [OF q])
qed (blast intro: configure_set_up)+

end
