(* ===== verification/ServerRuns.thy ===== *)
theory ServerRuns
  imports Setup
begin

text \<open>
  Runs of the server. Each connection is abstracted to the place it has in its life (\<open>life\<close>, ordered);
  the theorems say how it moves over turns of the loop and whole runs, for any program of the user.
  The last part is a concrete run of two clients, unfolded step by step, on which the theorems are applied.
\<close>

section \<open>The life of a connection\<close>

text \<open>The abstract state of a connection: not made yet, in its server's map, out of the map with its destruction
  queued, destroyed.\<close>

datatype life = Unborn | Live | Dying | Dead

fun life_rank :: "life \<Rightarrow> nat" where
  "life_rank Unborn = 0"
| "life_rank Live = 1"
| "life_rank Dying = 2"
| "life_rank Dead = 3"

lemma life_rank_inject: "life_rank x = life_rank y \<longleftrightarrow> x = y"
  by (cases x; cases y) simp_all

instantiation life :: linorder
begin

definition less_eq_life :: "life \<Rightarrow> life \<Rightarrow> bool" where
  "less_eq_life x y \<longleftrightarrow> life_rank x \<le> life_rank y"

definition less_life :: "life \<Rightarrow> life \<Rightarrow> bool" where
  "less_life x y \<longleftrightarrow> life_rank x < life_rank y"

instance
  by standard (auto simp: less_eq_life_def less_life_def life_rank_inject)

end

definition life_of :: "nat \<Rightarrow> 'a world_scheme \<Rightarrow> life" where
  "life_of i w = (if \<not> is_conn i w then Unborn else if mapped i w then Live
     else if tc_state (conns w i) = kDisconnected then Dead else Dying)"

lemma ages_life: "ages w w' \<Longrightarrow> life_of i w \<le> life_of i w'"
  using ages_conn [of w w' i] by (auto simp: ages_def life_of_def less_eq_life_def)

text \<open>What the loop has to do for a connection in each place.\<close>

definition place_ok :: "nat \<Rightarrow> nat \<Rightarrow> 'a world_scheme \<Rightarrow> bool" where
  "place_ok L i w \<longleftrightarrow> (case life_of i w of
       Unborn \<Rightarrow> count_list (pendingFunctors (loops w L)) (ConnectDestroyed i) = 0
     | Live \<Rightarrow> tc_state (conns w i) \<noteq> kDisconnected \<and> count_list (pendingFunctors (loops w L)) (ConnectDestroyed i) = 0
     | Dying \<Rightarrow> open_state (tc_state (conns w i)) \<and> count_list (pendingFunctors (loops w L)) (ConnectDestroyed i) = 1
     | Dead \<Rightarrow> retired i w \<and> count_list (pendingFunctors (loops w L)) (ConnectDestroyed i) = 0)"

lemma count_doomed: "count_list fs (ConnectDestroyed i) = count_list (doomed fs) i"
  by (induction fs rule: doomed.induct) simp_all

lemma mapped_open: "map_ok w \<Longrightarrow> mapped i w \<Longrightarrow> tc_state (conns w i) \<noteq> kDisconnected"
  by (auto simp: map_ok_def mapped_def split: option.splits)

lemma count_once: "distinct xs \<Longrightarrow> count_list xs x = (if x \<in> set xs then 1 else 0)"
  by (induction xs) auto

lemma inv_place:
  assumes "server_inv L w0 {} [] w"
  shows "place_ok L i w"
proof -
  note D = server_invD [OF assms]
  have "distinct (doomed (pendingFunctors (loops w L)))"
    and d: "i \<in> set (doomed (pendingFunctors (loops w L))) \<Longrightarrow>
      is_conn i w \<and> \<not> mapped i w \<and> open_state (tc_state (conns w i))"
    using D(7) by (simp_all add: tasks_ok_def)
  note n = count_once [OF this(1)]
  show ?thesis using d D(8) mapped_open [OF D(6), of i]
    by (auto simp: place_ok_def life_of_def count_doomed n accounted_def open_state_def)
qed

text \<open>A state between two turns of the loop of a configured program, whose callbacks run \<open>P\<close>.\<close>

definition entering :: "nat \<Rightarrow> 'a reactor_scheme \<Rightarrow> 'a reactor_scheme" where
  "entering l w = set_loop l (\<lambda>el. el\<lparr>looping := True, quit := False\<rparr>) w"

inductive reached :: "bool \<Rightarrow> (user_event \<Rightarrow> world \<Rightarrow> user_op list) \<Rightarrow> nat \<Rightarrow> world \<Rightarrow> bool" for be P L where
  enters: "configured L w \<Longrightarrow> reached be P L (entering L w)"
| turns_on: "reached be P L u \<Longrightarrow>
     loop_turn (server_call be (program_app L P)) (server_exec (program_app L P)) L u = Inr v \<Longrightarrow> reached be P L v"

lemma reached_inv: "reached be P L u \<Longrightarrow> server_inv L u {} [] u \<and> at_rest u"
proof (induction rule: reached.induct)
  case (enters w)
  then have "server_inv L w {} [] w" "at_rest w" using configured_set_up by (simp_all add: set_up_def)
  then show ?case unfolding entering_def
    using server_inv_here [OF server_loop.flags_law] by (simp add: at_rest_def)
next
  case (turns_on u v)
  then show ?case using server_inv_here [OF server_loop.turn_keeps] server_calm.turn_rests by blast
qed

lemma reached_turns:
  "reached be P L u \<Longrightarrow> turns (server_call be (program_app L P)) (server_exec (program_app L P)) L n u = Inr v \<Longrightarrow>
     reached be P L v"
  by (induction n arbitrary: u) (auto simp: result_simps intro: turns_on)


text \<open>
  C10. The thread pool a server is configured with is never used: whatever number of threads was asked for,
  every connection is handled by the loop of the server itself, since \<open>start\<close> does not start the pool.
\<close>

theorem connections_stay_on_base_loop:
  assumes "configured L w" and "TcpServer_setThreadNum s n w = Inr w1" and "TcpServer_start s w1 = Inr w2"
    and "turns (server_call be (program_app L P)) (server_exec (program_app L P)) L k (entering L w2) = Inr v"
    and "is_conn i v"
  shows "tc_loop (conns v i) = L"
proof -
  have "reached be P L v"
    by (rule reached_turns [OF enters [OF started [OF threads [OF assms(1,2)] assms(3)]] assms(4)])
  then have "conns_ok L v" using reached_inv server_invD(5) by blast
  with assms(5) show ?thesis by (simp add: conns_ok_def)
qed

text \<open>
  C9. The names of the connections of a server are distinct, for as long as the server runs, also after a
  connection was removed from the map: the numbers are never given out twice, and they fit into the
  buffer they are printed to.
\<close>

theorem connection_names_distinct:
  assumes "reached be P L v"
    and "is_conn i v" "is_conn j v" "tc_closeCB (conns v i) = tc_closeCB (conns v j)" "i \<noteq> j"
  shows "tc_name (conns v i) \<noteq> tc_name (conns v j)"
proof -
  have "conns_ok L v" using reached_inv [OF assms(1)] server_invD(5) by blast
  with assms(2-5) show ?thesis by (auto simp: conns_ok_def)
qed

text \<open>
  C2. A connection that is closed is destroyed before the turn of the loop ends: after a turn that
  returns, no \<open>connectDestroyed\<close> is queued, and every connection is either in its server's map or was destroyed
  and its channel is out of the poller.
\<close>

theorem closed_connections_destroyed:
  assumes u: "reached be P L u"
    and run: "loop_turn (server_call be (program_app L P)) (server_exec (program_app L P)) L u = Inr w'"
    and i: "is_conn i w'"
  shows "ConnectDestroyed i \<notin> set (pendingFunctors (loops w' L)) \<and> (life_of i w' = Live \<or> life_of i w' = Dead \<and> retired i w')"
proof -
  have inv: "server_inv L u {} [] u" using reached_inv [OF u] by simp
  from server_loop.turn_phases [OF inv run] obtain v where
    v: "server_inv L u {} [] v" "doPendingFunctors (server_exec (program_app L P)) L v = Inr w'" by blast
  let ?v = "set_loop L (callingPendingFunctors_update (\<lambda>_. True)) v"
  obtain x where x: "run_all (server_exec (program_app L P)) (pendingFunctors (loops v L))
      (set_loop L (pendingFunctors_update (\<lambda>_. [])) ?v) = Inr x"
    "w' = set_loop L (callingPendingFunctors_update (\<lambda>_. False)) x"
    using v(2) by (auto simp: doPendingFunctors_def Let_def result_simps)
  have "server_inv L u {} (pendingFunctors (loops ?v L)) (set_loop L (pendingFunctors_update (\<lambda>_. [])) ?v)"
    by (rule swap_inv [OF loop_flags_inv [OF v(1)]]) simp_all
  then have none: "doomed (pendingFunctors (loops w' L)) = []"
    using functors_doomed [OF _ x(1)] by (simp add: x(2))
  have "place_ok L i w'" by (rule inv_place [OF server_loop.turn_keeps [OF inv run]])
  then have "life_of i w' = Live \<or> life_of i w' = Dead \<and> retired i w'"
    using i by (cases "life_of i w'") (simp_all add: place_ok_def count_doomed none, simp add: life_of_def split: if_splits)
  moreover have "ConnectDestroyed i \<notin> set (pendingFunctors (loops w' L))"
    using count_doomed [of "pendingFunctors (loops w' L)" i] none by (simp add: count_list_0_iff)
  ultimately show ?thesis by blast
qed

section \<open>A concrete run\<close>

text \<open>One thread and one loop; object 0 is the wake-up channel of the loop, object 1 the channel of the
  acceptor. The calls of the run: eventfd, socket, setsockopt, bind, listen; in the first turn poll, the time,
  accept, getsockname; in the second poll, the time, accept, getsockname for another client, while the first
  one hangs up.\<close>

definition run_answers :: "answer list" where
  "run_answers = [returns 5, returns 7, returns 0, returns 0, returns 0,
     (returns 1)\<lparr>ready := [0, POLLIN]\<rparr>, returns 0, returns 8, returns 0,
     (returns 2)\<lparr>ready := [0, POLLIN, POLLHUP]\<rparr>, returns 0, returns 9, returns 0]"

definition process_with :: "answer list \<Rightarrow> world" where
  "process_with answers = new_process (\<lambda>n. if n < length answers then answers ! n else returns 0) 0 2"

text \<open>The program takes what it receives and leaves the loop when the second client (connection 3) comes.\<close>

definition example_program :: "user_event \<Rightarrow> world \<Rightarrow> user_op list" where
  "example_program e w = (case e of OnConnection k i \<Rightarrow> if i = 3 then [UserQuit] else []
     | OnMessage k i t \<Rightarrow> [UserTakeAll i] | _ \<Rightarrow> [])"

abbreviation example_call :: "callback \<Rightarrow> timestamp \<Rightarrow> world \<Rightarrow> world result" where
  "example_call \<equiv> server_call False (program_app 0 example_program)"

abbreviation example_exec :: "task \<Rightarrow> world \<Rightarrow> world result" where
  "example_exec \<equiv> server_exec (program_app 0 example_program)"

definition constructed :: "answer list \<Rightarrow> world result" where
  "constructed answers = bindE (EventLoop_ctor 0 0 (process_with answers)) (\<lambda>w.
     bindE (TcpServer_ctor False 0 0 1 0 zero_addr w) (\<lambda>w.
       Inr (TcpServer_setMessageCallback 0 0 (TcpServer_setConnectionCallback 0 0 w))))"

definition listening :: "answer list \<Rightarrow> world result" where
  "listening answers = bindE (constructed answers) (\<lambda>w. bindE (TcpServer_setThreadNum 0 4 w) (TcpServer_start 0))"

definition ok_with :: "'a result \<Rightarrow> ('a \<Rightarrow> bool) \<Rightarrow> bool" where
  "ok_with r P = (case r of Inl _ \<Rightarrow> False | Inr x \<Rightarrow> P x)"

text \<open>In a concrete run a continuation is unfolded only once its state is known.\<close>

lemma bindE_weak_cong: "m = m' \<Longrightarrow> bindE m f = bindE m' f" by simp

named_theorems run_defs \<open>the operations of the server, to be unfolded in a concrete run\<close>

lemmas [run_defs] = constructed_def listening_def EventLoop_ctor_def createEventfd_def TcpServer_ctor_def
  TcpServer_setThreadNum_def TcpServer_start_def TcpServer_setMessageCallback_def
  TcpServer_setConnectionCallback_def Acceptor_ctor_def Acceptor_setNewConnectionCallback_def Acceptor_listen_def
  Socket_createNonblockingOrDie_def Socket_setReuseAddr_def Socket_bindAddress_def Socket_listen_def do_call_def
  set_acceptor_def set_server_def set_chan_def set_loop_def runInLoop_def isInLoopThread_def Channel_enableReading_def
  Channel_update_def EventLoop_updateChannel_def with_poller_def Poller_updateChannel_def Channel_ctor_def mask_defs
  EventLoopThreadPool_ctor_def pool_setThreadNum_def process_with_def new_process_def blank_server_def blank_conn_def
  blank_acceptor_def idle_loop_def Poller_ctor_def run_answers_def returns_def
  Acceptor_handleNewConnection_def Socket_accept_def newConnection_def Socket_getLocalAddr_def getNextLoop_def
  TcpConnection_ctor_def Buffer_ctor_returns set_conn_def connectEstablished_def setState_def invoke_def server_hooks_def program_app_def
  react_def example_program_def ok_with_def entering_def

lemmas [run_defs] = loop_turn_def loop_poll_def Poller_poll_def store_revents_def set_revents_def Channel_handleEvent_def call_if_def
  poll_bits is_closing_def is_error_def is_readable_def is_writable_def handleClose_def removeConnection_def removeConnectionInLoop_def
  queueInLoop_def wakeup_def doPendingFunctors_def connectDestroyed_def Channel_disableAll_def EventLoop_removeChannel_def
  Poller_removeChannel_def isNoneEvent_def kNoneEvent_def user_perform_def quitLoop_def hidden_fd_def kPollTimeMs_def

lemma first_numbers [run_defs]: "show_int 1 = ''1''" "show_int 2 = ''2''"
  by code_simp+

lemmas [run_defs] = snprintf_def Let_def life_of_def is_conn_def mapped_def

lemma ok_withD: "ok_with r P \<Longrightarrow> \<exists>x. r = Inr x \<and> P x"
  by (cases r) (simp_all add: ok_with_def)

text \<open>Two turns: a connection comes and goes, another one comes.\<close>

definition both_came :: "world \<Rightarrow> bool" where
  "both_came w \<longleftrightarrow> life_of 2 w = Dead \<and> life_of 3 w = Live \<and> tc_closeCB (conns w 2) = tc_closeCB (conns w 3)
     \<and> pendingFunctors (loops w 0) = [] \<and> 0 \<le> ret (os w (length (calls w)))"

definition came_and_goes :: "world \<Rightarrow> bool" where
  "came_and_goes w \<longleftrightarrow> life_of 2 w = Live \<and> channelMap (loop_poller (loops w 0)) 8 = Some 2
     \<and> channelMap (loop_poller (loops w 0)) 7 = Some 1 \<and> acc_channel (acceptors w 0) = 1
     \<and> srv_acceptor (servers w 0) = 0 \<and> ran (srv_connMap (servers w 0)) = {2} \<and> (\<forall>n \<ge> length (calls w). 0 \<le> ret (os w n))
     \<and> pendingFunctors (loops w 0) = []
     \<and> ch_readCallback (chans w 2) = Some (ConnHandleRead 2) \<and> ok_with (loop_turn example_call example_exec 0 w) both_came"

definition runs_two_turns :: "world \<Rightarrow> bool" where
  "runs_two_turns w \<longleftrightarrow> ok_with (loop_turn example_call example_exec 0 (entering 0 w)) came_and_goes"

lemma run_of_two_turns: "ok_with (listening run_answers) runs_two_turns"
  by (simp add: run_defs both_came_def came_and_goes_def runs_two_turns_def All_less_Suc cong: bindE_weak_cong)

lemma listening_configured:
  assumes "listening answers = Inr w2"
  shows "\<exists>w w1. configured 0 w \<and> TcpServer_setThreadNum 0 4 w = Inr w1 \<and> TcpServer_start 0 w1 = Inr w2"
proof -
  from assms obtain w0 w w1 where w: "EventLoop_ctor 0 0 (process_with answers) = Inr w0" "TcpServer_ctor False 0 0 1 0 zero_addr w0 = Inr w"
    and w1: "TcpServer_setThreadNum 0 4 (TcpServer_setMessageCallback 0 0 (TcpServer_setConnectionCallback 0 0 w)) = Inr w1"
      "TcpServer_start 0 w1 = Inr w2"
    by (auto simp: listening_def constructed_def bindE_eq_Inr)
  have c0: "configured 0 w0" using w(1) unfolding process_with_def by (rule new_loop [rotated]) simp
  have "next_object w0 = 2" "\<not> registered 1 w0"
    using new_loop_shape(2) [OF w(1) [unfolded process_with_def]]
    by (auto simp: new_process_def registered_def idle_loop_def Poller_ctor_def split: if_splits)
  then have "configured 0 w" using new_server [OF c0 _ _ w(2)] by simp
  then have "configured 0 (TcpServer_setMessageCallback 0 0 (TcpServer_setConnectionCallback 0 0 w))"
    by (intro on_message on_connection)
  with w1 show ?thesis by blast
qed

lemma example_run:
  "\<exists>w w1 w2 u v. configured 0 w \<and> TcpServer_setThreadNum 0 4 w = Inr w1 \<and> TcpServer_start 0 w1 = Inr w2
     \<and> reached False example_program 0 u \<and> loop_turn example_call example_exec 0 (entering 0 w2) = Inr u
     \<and> life_of 2 u = Live \<and> channelMap (loop_poller (loops u 0)) 8 = Some 2
     \<and> ch_readCallback (chans u 2) = Some (ConnHandleRead 2)
     \<and> loop_turn example_call example_exec 0 u = Inr v \<and> both_came v \<and> came_and_goes u"
proof -
  from ok_withD [OF run_of_two_turns] obtain w2 where w2: "listening run_answers = Inr w2" "runs_two_turns w2" by blast
  from listening_configured [OF w2(1)] obtain w w1 where
    c: "configured 0 w" and w1: "TcpServer_setThreadNum 0 4 w = Inr w1" "TcpServer_start 0 w1 = Inr w2" by blast
  from w2(2) obtain u v where u: "loop_turn example_call example_exec 0 (entering 0 w2) = Inr u" "life_of 2 u = Live"
    "channelMap (loop_poller (loops u 0)) 8 = Some 2" "ch_readCallback (chans u 2) = Some (ConnHandleRead 2)"
    "loop_turn example_call example_exec 0 u = Inr v" "both_came v" "came_and_goes u"
    unfolding runs_two_turns_def came_and_goes_def by (blast dest: ok_withD)
  have "reached False example_program 0 u"
    by (rule turns_on [OF enters [OF started [OF threads [OF c w1(1)] w1(2)]] u(1)])
  with c w1 u show ?thesis by blast
qed

theorem connection_names_distinct_witness:
  "\<exists>v. reached False example_program 0 v \<and> tc_name (conns v 2) \<noteq> tc_name (conns v 3)"
proof -
  from example_run obtain u v where u: "reached False example_program 0 u"
    "loop_turn example_call example_exec 0 u = Inr v" and v: "both_came v" by blast
  have "is_conn 2 v" "is_conn 3 v" "tc_closeCB (conns v 2) = tc_closeCB (conns v 3)"
    using v by (auto simp: both_came_def life_of_def split: if_splits)
  from connection_names_distinct [OF turns_on [OF u] this] turns_on [OF u] show ?thesis by auto
qed

theorem connections_stay_on_base_loop_witness:
  "\<exists>w w1 w2 v. TcpServer_setThreadNum 0 4 w = Inr w1 \<and> TcpServer_start 0 w1 = Inr w2
     \<and> turns example_call example_exec 0 2 (entering 0 w2) = Inr v \<and> life_of 3 v = Live \<and> tc_loop (conns v 3) = 0"
proof -
  from example_run obtain w w1 w2 u v where w: "configured 0 w" "TcpServer_setThreadNum 0 4 w = Inr w1"
    "TcpServer_start 0 w1 = Inr w2" and u: "loop_turn example_call example_exec 0 (entering 0 w2) = Inr u"
    "loop_turn example_call example_exec 0 u = Inr v" and v: "both_came v" by blast
  have t: "turns example_call example_exec 0 2 (entering 0 w2) = Inr v" using u by (simp add: numeral_2_eq_2)
  have i: "is_conn 3 v" "life_of 3 v = Live" using v by (auto simp: both_came_def life_of_def split: if_splits)
  from connections_stay_on_base_loop [OF w t i(1)] w t i(2) show ?thesis by blast
qed

theorem closed_connections_destroyed_witness:
  "\<exists>u v. loop_turn example_call example_exec 0 u = Inr v \<and> life_of 2 u = Live \<and> life_of 2 v = Dead \<and> retired 2 v"
proof -
  from example_run obtain u v where u: "reached False example_program 0 u" "life_of 2 u = Live"
    "loop_turn example_call example_exec 0 u = Inr v" and v: "both_came v" by blast
  have d: "life_of 2 v = Dead" using v by (simp add: both_came_def)
  then have "is_conn 2 v" by (auto simp: life_of_def split: if_splits)
  from closed_connections_destroyed [OF u(1,3) this] u d show ?thesis by auto
qed


end
