(* ===== verification/Lifetime.thy ===== *)
theory Lifetime
  imports ServerRuns
begin

text \<open>
  The lifetime of the connection objects. A connection is owned by the map of its server and by
  the queued functors its \<open>shared_ptr\<close> was bound to; the poller, the channel's callbacks and the functors
  of \<open>send\<close> and \<open>shutdown\<close> only have raw pointers to it. The first part is about a server whose calls come
  from its own thread: raw pointers always point to an owned object, and an object
  without owner can be destroyed. The second part is the same question for a call of \<open>send\<close> from another
  thread, as interleaved steps.
\<close>

section \<open>Owners\<close>

text \<open>What \<open>std::bind\<close> stored in a functor: a \<open>shared_ptr\<close> to a connection, or its raw address.\<close>

fun shared_in :: "task \<Rightarrow> nat option" where
  "shared_in (ConnectEstablished i) = Some i"
| "shared_in (ConnectDestroyed i) = Some i"
| "shared_in (WriteCompleteCB k i) = Some i"
| "shared_in (RemoveConnectionInLoop s i) = Some i"
| "shared_in _ = None"

fun raw_in :: "task \<Rightarrow> nat option" where
  "raw_in (SendInLoop i m) = Some i"
| "raw_in (ShutDownInLoop i) = Some i"
| "raw_in _ = None"

fun raw_in_callback :: "callback \<Rightarrow> nat option" where
  "raw_in_callback (ConnHandleRead i) = Some i"
| "raw_in_callback (ConnHandleWrite i) = Some i"
| "raw_in_callback (ConnHandleClose i) = Some i"
| "raw_in_callback (ConnHandleError i) = Some i"
| "raw_in_callback _ = None"

definition owned :: "nat \<Rightarrow> nat \<Rightarrow> 'a world_scheme \<Rightarrow> bool" where
  "owned L i w \<longleftrightarrow> (\<exists>s name. srv_connMap (servers w s) name = Some i)
     \<or> (\<exists>f \<in> set (pendingFunctors (loops w L)). shared_in f = Some i)"

lemma doomed_iff: "i \<in> set (doomed fs) \<longleftrightarrow> ConnectDestroyed i \<in> set fs"
  by (induction fs rule: doomed.induct) auto

lemma mapped_owned: "mapped i w \<Longrightarrow> owned L i w"
  by (auto simp: mapped_def owned_def split: option.splits)

lemma doomed_owned: "i \<in> set (doomed (pendingFunctors (loops w L))) \<Longrightarrow> owned L i w"
  unfolding doomed_iff owned_def by (intro disjI2 bexI) simp_all

lemma registered_owned:
  assumes inv: "server_inv L w0 {} [] w" and i: "is_conn i w" "registered i w"
  shows "owned L i w"
  using server_invD(8) [OF inv] i mapped_owned doomed_owned
  by (fastforce simp: accounted_def retired_def)

lemma harmless_not_raw: "harmless f \<Longrightarrow> raw_in f = None"
  by (cases f) simp_all

lemma callback_raw: "callback_ok w c cb \<Longrightarrow> raw_in_callback cb = Some i \<Longrightarrow> is_conn i w \<and> i = c"
  by (cases cb) simp_all

lemma unowned_dead:
  assumes inv: "server_inv L w0 {} [] w" and i: "is_conn i w" "\<not> owned L i w"
  shows "life_of i w = Dead" "retired i w"
  using server_invD(8) [OF inv] i mapped_owned [of i w] doomed_owned [of i w]
  by (auto simp: accounted_def life_of_def)

section \<open>Properties\<close>


text \<open>
  C14. Destruction of the last \<open>shared_ptr\<close>: a connection that between turns is in no map and in no
  queued functor is disconnected, its channel is in no poller and handles no event, and when the
  kernel closes its descriptor the destructor returns, with the close as its only effect.
\<close>

theorem unowned_connection_destroyed:
  assumes "reached be P L w" and "is_conn i w" and "\<not> owned L i w"
    and a: "a = os w (length (calls w))" "0 \<le> ret a"
  shows "life_of i w = Dead \<and> \<not> registered (tc_channel (conns w i)) w
     \<and> TcpConnection_dtor i w = Inr (w\<lparr>calls := calls w @ [(SysClose (tc_conn (conns w i)), a)]\<rparr>)"
proof -
  have inv: "server_inv L w {} [] w" and rest: "at_rest w" using reached_inv [OF assms(1)] by simp_all
  have "tc_channel (conns w i) = i" using server_invD(5) [OF inv] assms(2) by (simp add: conns_ok_def)
  then show ?thesis using unowned_dead [OF inv assms(2,3)] rest a
    by (simp add: retired_def TcpConnection_dtor_def Channel_dtor_def at_rest_def FileDescriptor_close_def
        do_call_def Let_def)
qed

section \<open>Examples\<close>


theorem unowned_connection_destroyed_witness:
  "\<exists>v w'. reached False example_program 0 v \<and> life_of 2 v = Dead \<and> TcpConnection_dtor 2 v = Inr w'"
proof -
  from example_run obtain u v where u: "reached False example_program 0 u"
    "loop_turn example_call example_exec 0 u = Inr v" and v: "both_came v" by blast
  note r = turns_on [OF u]
  have d: "life_of 2 v = Dead" "is_conn 2 v" and fs: "pendingFunctors (loops v 0) = []"
    and a: "0 \<le> ret (os v (length (calls v)))"
    using v by (auto simp: both_came_def life_of_def split: if_splits)
  have "map_ok v" using reached_inv [OF r] server_invD(6) by blast
  then have "\<not> owned 0 2 v" using d fs by (auto simp: owned_def map_ok_def life_of_def mapped_def split: if_splits)
  from unowned_connection_destroyed [OF r d(2) this refl a] r show ?thesis by blast
qed

end
