(* ===== verification/SharedConn.thy ===== *)
theory SharedConn
  imports Lifetime
begin

text \<open>
  One connection, used by the thread of its loop and by other threads, as interleaved steps. Other threads hold
  \<open>shared_ptr\<close>s and call \<open>send\<close> and \<open>shutdown\<close> through them: the test of the state is one step, the push
  of the functor another. The loop's thread closes the connection, takes the queue out, runs the functors
  and destroys the vector they were in. The connection is destroyed as soon as nothing owns it.
  \<open>fault\<close> records that a functor ran with the address of a destroyed connection.
\<close>

section \<open>The steps\<close>

text \<open>\<open>in_calls\<close> are the functors of calls that have tested the state and not pushed yet; \<open>ran\<close> and \<open>left\<close>
  are the two parts of the vector in \<open>doPendingFunctors\<close>.\<close>

record shared =
  sh_state :: conn_state
  in_map :: bool
  user_refs :: nat
  in_calls :: "task list"
  sh_queue :: "task list"
  running :: bool
  ran :: "task list"
  left :: "task list"
  alive :: bool
  fault :: bool

definition has_owner :: "shared \<Rightarrow> bool" where
  "has_owner s \<longleftrightarrow> in_map s \<or> 0 < user_refs s
     \<or> (\<exists>f \<in> set (sh_queue s) \<union> set (ran s) \<union> set (left s). shared_in f \<noteq> None)"

definition reap :: "shared \<Rightarrow> shared" where
  "reap s = s\<lparr>alive := alive s \<and> has_owner s\<rparr>"

definition run_functor :: "task \<Rightarrow> shared \<Rightarrow> shared" where
  "run_functor f s = (case f of
       ConnectDestroyed i \<Rightarrow> s\<lparr>sh_state := kDisconnected\<rparr>
     | _ \<Rightarrow> s\<lparr>fault := fault s \<or> raw_in f \<noteq> None \<and> \<not> alive s\<rparr>)"

definition raw_functors :: "shared \<Rightarrow> bool" where
  "raw_functors s \<longleftrightarrow> in_calls s \<noteq> [] \<or> (\<exists>f \<in> set (sh_queue s) \<union> set (left s). raw_in f \<noteq> None)"

text \<open>Connection \<open>i\<close>. Where \<open>careful\<close> holds, the other threads keep their last \<open>shared_ptr\<close> until the functors of their
  calls have run.\<close>

inductive share_step :: "bool \<Rightarrow> nat \<Rightarrow> shared \<Rightarrow> shared \<Rightarrow> bool" for careful i where
  copy_ref: "alive s \<Longrightarrow> share_step careful i s (s\<lparr>user_refs := user_refs s + 1\<rparr>)"
| drop_ref: "length (in_calls s) < user_refs s \<Longrightarrow> (careful \<longrightarrow> 1 < user_refs s \<or> \<not> raw_functors s) \<Longrightarrow>
     share_step careful i s (reap (s\<lparr>user_refs := user_refs s - 1\<rparr>))"
| send_test: "length (in_calls s) < user_refs s \<Longrightarrow> sh_state s = kConnected \<Longrightarrow>
     share_step careful i s (s\<lparr>in_calls := SendInLoop i m # in_calls s\<rparr>)"
| shutdown_test: "length (in_calls s) < user_refs s \<Longrightarrow> sh_state s = kConnected \<Longrightarrow>
     share_step careful i s (s\<lparr>sh_state := kDisconnecting, in_calls := ShutDownInLoop i # in_calls s\<rparr>)"
| push: "in_calls s = fs @ f # gs \<Longrightarrow>
     share_step careful i s (s\<lparr>in_calls := fs @ gs, sh_queue := sh_queue s @ [f]\<rparr>)"
| close: "in_map s \<Longrightarrow> \<not> running s \<Longrightarrow> open_state (sh_state s) \<Longrightarrow>
     share_step careful i s (s\<lparr>in_map := False, sh_queue := sh_queue s @ [ConnectDestroyed i]\<rparr>)"
| write_done: "alive s \<Longrightarrow> share_step careful i s (s\<lparr>sh_queue := sh_queue s @ [WriteCompleteCB k i]\<rparr>)"
| swap: "\<not> running s \<Longrightarrow> share_step careful i s (s\<lparr>running := True, ran := [], left := sh_queue s, sh_queue := []\<rparr>)"
| run: "running s \<Longrightarrow> left s = f # fs \<Longrightarrow> share_step careful i s (run_functor f (s\<lparr>ran := ran s @ [f], left := fs\<rparr>))"
| end_batch: "running s \<Longrightarrow> left s = [] \<Longrightarrow> share_step careful i s (reap (s\<lparr>running := False, ran := []\<rparr>))"

inductive_cases share_stepE: "share_step careful i s t"

definition share_start :: "shared \<Rightarrow> bool" where
  "share_start s \<longleftrightarrow> s = \<lparr>sh_state = kConnected, in_map = True, user_refs = 0, in_calls = [], sh_queue = [],
     running = False, ran = [], left = [], alive = True, fault = False\<rparr>"

section \<open>Careful callers\<close>

definition share_inv :: "shared \<Rightarrow> bool" where
  "share_inv s \<longleftrightarrow> (alive s \<longleftrightarrow> has_owner s) \<and> (raw_functors s \<longrightarrow> 0 < user_refs s) \<and> \<not> fault s
     \<and> length (in_calls s) \<le> user_refs s \<and> (\<forall>f \<in> set (in_calls s). raw_in f \<noteq> None)
     \<and> (\<not> running s \<longrightarrow> ran s = [] \<and> left s = [])"

lemma share_start_inv: "share_start s \<Longrightarrow> share_inv s"
  by (simp add: share_start_def share_inv_def has_owner_def raw_functors_def)

lemma has_owner_simps [simp]:
  "has_owner (s\<lparr>alive := b\<rparr>) = has_owner s" "has_owner (s\<lparr>fault := b\<rparr>) = has_owner s"
  "has_owner (s\<lparr>sh_state := st\<rparr>) = has_owner s" "has_owner (s\<lparr>in_calls := cs\<rparr>) = has_owner s"
  "raw_functors (s\<lparr>alive := b\<rparr>) = raw_functors s" "raw_functors (s\<lparr>fault := b\<rparr>) = raw_functors s"
  "raw_functors (s\<lparr>sh_state := st\<rparr>) = raw_functors s"
  by (simp_all add: has_owner_def raw_functors_def)

text \<open>A functor that is run stays in the vector, so the owners are the same.\<close>

lemma run_functor_inv:
  assumes inv: "share_inv s" and left: "running s" "left s = f # fs"
  shows "share_inv (run_functor f (s\<lparr>ran := ran s @ [f], left := fs\<rparr>))"
proof -
  let ?t = "s\<lparr>ran := ran s @ [f], left := fs\<rparr>"
  have o: "has_owner ?t = has_owner s" using left by (auto simp: has_owner_def)
  have "raw_functors ?t \<Longrightarrow> raw_functors s" using left by (auto simp: raw_functors_def)
  moreover have "alive s" if "raw_in f \<noteq> None"
  proof -
    have "raw_functors s" using that left by (auto simp: raw_functors_def)
    then show ?thesis using inv by (simp add: share_inv_def has_owner_def)
  qed
  ultimately show ?thesis using inv o left(1)
    by (auto simp: share_inv_def run_functor_def split: task.split)
qed

lemma share_step_inv:
  assumes inv: "share_inv s" and step: "share_step True i s t"
  shows "share_inv t"
  using step
proof cases
  case (run f fs)
  then show ?thesis using run_functor_inv [OF inv] by simp
next
  case drop_ref
  then show ?thesis using inv by (auto simp: share_inv_def reap_def has_owner_def raw_functors_def)
next
  case (push fs f gs)
  then have "raw_in f \<noteq> None" "0 < user_refs s" using inv by (auto simp: share_inv_def)
  with push show ?thesis using inv by (auto simp: share_inv_def has_owner_def raw_functors_def)
qed (use inv in \<open>auto simp: share_inv_def reap_def has_owner_def raw_functors_def\<close>)

interpretation careful_use: invariant_system share_start "share_step True i" share_inv for i
  by unfold_locales (fact share_start_inv, fact share_step_inv)

section \<open>Properties\<close>


text \<open>
  C12. A caller that lets go of its \<open>shared_ptr\<close> after \<open>send\<close> has returned is not safe: \<open>send\<close> binds the
  raw address, so when the connection is closed before the functor is run, the functor runs with the address of a
  destroyed connection.
\<close>

theorem send_then_release_faults:
  "\<exists>s. reach share_start (share_step False i) s \<and> fault s"
proof -
  let ?s0 = "\<lparr>sh_state = kConnected, in_map = True, user_refs = 0, in_calls = [], sh_queue = [],
     running = False, ran = [], left = [], alive = True, fault = False\<rparr>"
  let ?step = "share_step False i"
  let ?D = "ConnectDestroyed i" and ?S = "SendInLoop i []"
  let ?s1 = "?s0\<lparr>user_refs := 1\<rparr>"
  let ?s2 = "?s1\<lparr>in_map := False, sh_queue := [?D]\<rparr>"
  let ?s3 = "?s2\<lparr>running := True, left := [?D], sh_queue := []\<rparr>"
  let ?s4 = "?s3\<lparr>in_calls := [?S]\<rparr>" and ?s5 = "?s3\<lparr>sh_queue := [?S]\<rparr>"
  let ?s6 = "?s5\<lparr>sh_state := kDisconnected, ran := [?D], left := []\<rparr>"
  let ?s7 = "?s6\<lparr>running := False, ran := []\<rparr>" 
  let ?s8 = "?s7\<lparr>user_refs := 0, alive := False\<rparr>"
  let ?s9 = "?s8\<lparr>running := True, left := [?S], sh_queue := []\<rparr>"
  let ?s10 = "?s9\<lparr>ran := [?S], left := [], fault := True\<rparr>"
  have r0: "reach share_start ?step ?s0" by (rule reach_start) (simp add: share_start_def)
  have r1: "reach share_start ?step ?s1"
    by (rule reach_step [OF r0]) (use copy_ref [of ?s0] in \<open>simp\<close>)
  have r2: "reach share_start ?step ?s2"
    by (rule reach_step [OF r1]) (use close [of ?s1] in \<open>simp add: open_state_def\<close>)
  have r3: "reach share_start ?step ?s3"
    by (rule reach_step [OF r2]) (use swap [of ?s2] in \<open>simp\<close>)
  have r4: "reach share_start ?step ?s4"
    by (rule reach_step [OF r3]) (use send_test [of ?s3 False i "[]"] in \<open>simp\<close>)
  have r5: "reach share_start ?step ?s5"
    by (rule reach_step [OF r4]) (use push [of ?s4 "[]" ?S "[]"] in \<open>simp\<close>)
  have r6: "reach share_start ?step ?s6"
    by (rule reach_step [OF r5]) (use run [of ?s5 ?D "[]"] in \<open>simp add: run_functor_def\<close>)
  have r7: "reach share_start ?step ?s7"
    by (rule reach_step [OF r6]) (use end_batch [of ?s6] in \<open>simp add: reap_def has_owner_def\<close>)
  have r8: "reach share_start ?step ?s8"
    by (rule reach_step [OF r7]) (use drop_ref [of ?s7 False] in \<open>simp add: reap_def has_owner_def\<close>)
  have r9: "reach share_start ?step ?s9"
    by (rule reach_step [OF r8]) (use swap [of ?s8] in \<open>simp\<close>)
  have r10: "reach share_start ?step ?s10"
    by (rule reach_step [OF r9]) (use run [of ?s9 ?S "[]"] in \<open>simp add: run_functor_def\<close>)
  from r10 show ?thesis by (intro exI [of _ ?s10]) simp
qed

section \<open>Examples\<close>


end
