(* ===== verification/Double.thy ===== *)
theory Double
  imports Prelude Complex_Main
begin

text \<open>
  The part of \<open>double\<close> (IEEE 754 binary64, rounding to nearest, ties to even) that the program
  uses: conversion from and to 64-bit integers, and multiplication with and division by a positive integer
  constant. A finite value is the rational number it stands for; the sign of a zero is left out,
  because no operation here can tell.
\<close>

section \<open>Rounding\<close>

datatype double = Finite rat | Infinity bool | NaN

text \<open>The number of binary digits, and the exponent \<open>k\<close> with \<open>2 ^ k \<le> x < 2 ^ (k + 1)\<close>.\<close>

fun bits :: "nat \<Rightarrow> nat" where
  "bits n = (if n = 0 then 0 else Suc (bits (n div 2)))"

declare bits.simps [simp del]

definition ilog2 :: "rat \<Rightarrow> int" where
  "ilog2 x =
     (let (a, b) = quotient_of x; k = int (bits (nat a)) - int (bits (nat b))
      in if 2 powi k \<le> x then k else k - 1)"

text \<open>The distance of neighbouring values: 53 significant digits, down to the subnormal numbers.\<close>

definition ulp :: "rat \<Rightarrow> rat" where
  "ulp x = 2 powi (max (ilog2 \<bar>x\<bar> - 52) (- 1074))"

definition nearest_even :: "rat \<Rightarrow> int" where
  "nearest_even r =
     (let f = \<lfloor>r\<rfloor>; d = r - of_int f
      in if d < 1 / 2 then f else if 1 / 2 < d then f + 1 else if even f then f else f + 1)"

definition round_double :: "rat \<Rightarrow> double" where
  "round_double x =
     (let y = of_int (nearest_even (x / ulp x)) * ulp x
      in if 2 ^ 1024 \<le> \<bar>y\<bar> then Infinity (x < 0) else Finite y)"

section \<open>Operations\<close>

definition double_of_int :: "int \<Rightarrow> double" where
  "double_of_int n = round_double (of_int n)"

fun double_times :: "double \<Rightarrow> int \<Rightarrow> double" where
  "double_times (Finite x) n = round_double (x * of_int n)"
| "double_times x n = x"

fun double_over :: "double \<Rightarrow> int \<Rightarrow> double" where
  "double_over (Finite x) n = round_double (x / of_int n)"
| "double_over x n = x"

text \<open>\<open>static_cast<int64_t>\<close>: towards zero; C++ gives a value outside the range no meaning.\<close>

definition towards_zero :: "rat \<Rightarrow> int" where
  "towards_zero x = (if x < 0 then \<lceil>x\<rceil> else \<lfloor>x\<rfloor>)"

fun int64_of_double :: "double \<Rightarrow> int result" where
  "int64_of_double (Finite x) =
     (let n = towards_zero x
      in if - (2 ^ 63) \<le> n \<and> n < 2 ^ 63 then Inr n else Inl BadConversion)"
| "int64_of_double x = Inl BadConversion"

section \<open>The error of rounding\<close>

lemma powi_less: "(2 :: rat) powi i < 2 powi j \<Longrightarrow> i < j"
  using power_int_increasing [of j i "2 :: rat"] by fastforce

lemma bits_bounds: "0 < n \<Longrightarrow> 2 ^ bits n \<le> 2 * n \<and> n < 2 ^ bits n"
proof (induction n rule: bits.induct)
  case (1 n)
  show ?case
  proof (cases "n div 2 = 0")
    case True
    with 1(2) have "n = 1" by auto
    then show ?thesis by (simp add: bits.simps)
  next
    case False
    with 1 have "2 ^ bits (n div 2) \<le> 2 * (n div 2) \<and> n div 2 < 2 ^ bits (n div 2)" by simp
    moreover have "bits n = Suc (bits (n div 2))" using 1(2) by (simp add: bits.simps [of n])
    ultimately show ?thesis by auto
  qed
qed

lemma bits_bounds_rat:
  assumes "0 < a"
  shows "(2 :: rat) ^ bits (nat a) \<le> 2 * of_int a" "(of_int a :: rat) < 2 ^ bits (nat a)"
proof -
  have n: "2 ^ bits (nat a) \<le> 2 * nat a" "nat a < 2 ^ bits (nat a)"
    using bits_bounds [of "nat a"] assms by simp_all
  have a: "of_int a = (of_nat (nat a) :: rat)" using assms by simp
  from n(1) have "(of_nat (2 ^ bits (nat a)) :: rat) \<le> of_nat (2 * nat a)" by (simp only: of_nat_le_iff)
  then show "(2 :: rat) ^ bits (nat a) \<le> 2 * of_int a" unfolding a by simp
  from n(2) have "(of_nat (nat a) :: rat) < of_nat (2 ^ bits (nat a))" by (simp only: of_nat_less_iff)
  then show "(of_int a :: rat) < 2 ^ bits (nat a)" unfolding a by simp
qed

lemma ilog2_bounds:
  assumes "0 < x"
  shows "2 powi ilog2 x \<le> x" "x < 2 powi (ilog2 x + 1)"
proof -
  obtain a b where q: "quotient_of x = (a, b)" by fastforce
  have b: "0 < b" and x: "x = of_int a / of_int b"
    using quotient_of_denom_pos [OF q] quotient_of_div [OF q] by simp_all
  with assms have a: "0 < a" by (simp add: zero_less_divide_iff)
  define k m where "k = bits (nat a)" and "m = bits (nat b)"
  note r = bits_bounds_rat [OF a, folded k_def] bits_bounds_rat [OF b, folded m_def]
  let ?e = "int k - int m"
  have e: "(2 :: rat) powi ?e = 2 ^ k / 2 ^ m" by (simp add: power_int_diff)
  have pos: "(0 :: rat) < of_int a" "(0 :: rat) < of_int b" using a b by simp_all
  have "x * 2 ^ m < 2 ^ k * 2"
  proof -
    have "of_int a * 2 ^ m \<le> of_int a * (2 * of_int b :: rat)" using r pos by simp
    also have "\<dots> < 2 ^ k * 2 * of_int b" using r pos by simp
    finally show ?thesis using pos by (simp add: x field_simps)
  qed
  moreover have "2 powi (?e + 1) = (2 :: rat) ^ k / 2 ^ m * 2" by (subst power_int_add_1) (simp_all add: e)
  moreover have "x < 2 ^ k / 2 ^ m * 2" if "x * 2 ^ m < 2 ^ k * (2 :: rat)" using that by (simp add: field_simps)
  ultimately have up: "x < 2 powi (?e + 1)" by simp
  have "2 ^ k \<le> x * 2 ^ m * 2"
  proof -
    have "2 ^ k * of_int b \<le> 2 * of_int a * (of_int b :: rat)" using r pos by simp
    also have "\<dots> \<le> 2 * of_int a * 2 ^ m" using r pos by simp
    finally show ?thesis using pos by (simp add: x field_simps)
  qed
  moreover have "(2 :: rat) powi (?e - 1) = 2 powi ?e / 2" using power_int_diff [of "2 :: rat" ?e 1] by simp
  then have "2 powi (?e - 1) = (2 :: rat) ^ k / 2 ^ m / 2" by (simp only: e)
  moreover have "2 ^ k / 2 ^ m / 2 \<le> x" if "2 ^ k \<le> x * 2 ^ m * (2 :: rat)" using that by (simp add: field_simps)
  ultimately have low: "2 powi (?e - 1) \<le> x" by simp
  have "ilog2 x = (if 2 powi ?e \<le> x then ?e else ?e - 1)"
    by (simp add: ilog2_def q k_def m_def)
  with up low show "2 powi ilog2 x \<le> x" "x < 2 powi (ilog2 x + 1)" by auto
qed

lemma ilog2_unique:
  assumes "2 powi k \<le> x" "x < 2 powi (k + 1)"
  shows "ilog2 x = k"
proof -
  have "0 < x" using assms(1) by (rule less_le_trans [rotated]) simp
  note b = ilog2_bounds [OF this]
  have "k < ilog2 x + 1" using assms(1) b(2) by (intro powi_less) simp
  moreover have "ilog2 x < k + 1" using assms(2) b(1) by (intro powi_less) simp
  ultimately show ?thesis by simp
qed

lemma nearest_even_error: "\<bar>of_int (nearest_even r) - r\<bar> \<le> 1 / 2"
proof -
  have "of_int \<lfloor>r\<rfloor> \<le> r" "r < of_int \<lfloor>r\<rfloor> + 1" by linarith+
  then show ?thesis by (auto simp: nearest_even_def Let_def abs_le_iff)
qed

lemma nearest_even_unique:
  assumes "of_int n - 1 / 2 < r" "r < of_int n + 1 / 2"
  shows "nearest_even r = n"
proof -
  have "\<bar>of_int (nearest_even r) - r\<bar> \<le> 1 / 2" by (rule nearest_even_error)
  then have "(of_int (nearest_even r) :: rat) < of_int n + 1" "of_int n < (of_int (nearest_even r) :: rat) + 1"
    using assms unfolding abs_le_iff by linarith+
  then have "(of_int (nearest_even r) :: rat) < of_int (n + 1)" "(of_int n :: rat) < of_int (nearest_even r + 1)"
    by simp_all
  then show ?thesis unfolding of_int_less_iff by simp
qed

lemma nearest_even_int [simp]: "nearest_even (of_int n) = n"
  by (simp add: nearest_even_def)

lemma ulp_pos: "0 < ulp x"
  by (simp add: ulp_def)

lemma ulp_bound:
  assumes "\<bar>x\<bar> < 2 powi k" "0 \<le> k"
  shows "ulp x \<le> 2 powi (k - 53)"
proof -
  have "ilog2 \<bar>x\<bar> < k"
  proof (cases "x = 0")
    case True
    then show ?thesis using assms(2) by (simp add: ilog2_def bits.simps)
  next
    case False
    then have "2 powi ilog2 \<bar>x\<bar> < (2 :: rat) powi k"
      using ilog2_bounds(1) [of "\<bar>x\<bar>"] assms(1) by linarith
    then show ?thesis by (rule powi_less)
  qed
  then show ?thesis using assms(2) unfolding ulp_def by (intro power_int_increasing) auto
qed

text \<open>A number that is not too large is rounded to one at most half a unit away.\<close>

lemma round_double_error:
  assumes "\<bar>x\<bar> < 2 ^ k" "k \<le> 100"
  shows "\<exists>y. round_double x = Finite y \<and> \<bar>y - x\<bar> \<le> 2 ^ k / 2 ^ 54"
proof -
  let ?u = "ulp x"
  let ?y = "of_int (nearest_even (x / ?u)) * ?u"
  have u: "0 < ?u" "?u \<le> 2 ^ k / 2 ^ 53"
    using ulp_pos ulp_bound [of x "int k"] assms(1) by (simp_all add: power_int_diff)
  have "\<bar>?y - x\<bar> = \<bar>of_int (nearest_even (x / ?u)) - x / ?u\<bar> * ?u"
    using u(1) by (simp add: abs_mult_pos left_diff_distrib abs_mult field_simps)
  also have "\<dots> \<le> 1 / 2 * ?u"
    by (rule mult_right_mono [OF nearest_even_error]) (use u in simp)
  also have "\<dots> \<le> 2 ^ k / 2 ^ 54" using u(2) by simp
  finally have err: "\<bar>?y - x\<bar> \<le> 2 ^ k / 2 ^ 54" .
  have "(2 :: rat) ^ k \<le> 2 ^ 100" using assms(2) by (intro power_increasing) simp_all
  moreover have "(2 :: rat) ^ k / 2 ^ 54 \<le> 2 ^ k" by (simp add: field_simps)
  moreover have "\<bar>?y\<bar> \<le> \<bar>?y - x\<bar> + \<bar>x\<bar>" using abs_triangle_ineq [of "?y - x" x] by simp
  moreover have "(2 :: rat) ^ 101 = 2 ^ 100 + 2 ^ 100" by simp
  ultimately have "\<bar>?y\<bar> < 2 ^ 101" using err assms(1) by (simp only:)
  then have "\<not> 2 ^ 1024 \<le> \<bar>?y\<bar>" by simp
  then show ?thesis using err by (simp add: round_double_def Let_def)
qed

text \<open>Evaluation, for a number whose exponent is known.\<close>

lemma round_double_eval:
  assumes "2 powi k \<le> \<bar>x\<bar>" "\<bar>x\<bar> < 2 powi (k + 1)" "- 1022 \<le> k"
    and "nearest_even (x / 2 powi (k - 52)) = n" "\<bar>of_int n * 2 powi (k - 52) :: rat\<bar> < 2 ^ 1024"
  shows "round_double x = Finite (of_int n * 2 powi (k - 52))"
proof -
  have "max (k - 52) (- 1074) = k - 52" using assms(3) by simp
  then have "ulp x = 2 powi (k - 52)" by (simp only: ulp_def ilog2_unique [OF assms(1,2)])
  then show ?thesis using assms(4,5) by (simp add: round_double_def Let_def)
qed

text \<open>Integers of up to 53 digits are converted without error.\<close>

lemma double_of_int_exact:
  assumes "\<bar>n\<bar> < 2 ^ 53"
  shows "double_of_int n = Finite (of_int n)"
proof -
  let ?x = "of_int n :: rat"
  have "\<bar>?x\<bar> < 2 powi 53" using assms by (simp flip: of_int_abs)
  from ulp_bound [OF this] have u: "ulp ?x \<le> 1" by simp
  define e where "e = max (ilog2 \<bar>?x\<bar> - 52) (- 1074)"
  have ulp: "ulp ?x = 2 powi e" by (simp add: ulp_def e_def)
  moreover have "(2 :: rat) powi 0 < 2 powi e" if "0 < e" using that by (intro power_int_strict_increasing) simp_all
  ultimately have "e \<le> 0" using u by fastforce
  then have "?x / ulp ?x = of_int (n * 2 ^ nat (- e))" by (simp add: ulp power_int_def field_simps)
  then have "of_int (nearest_even (?x / ulp ?x)) * ulp ?x = ?x"
    using ulp_pos [of ?x] by (simp only: nearest_even_int) (simp add: field_simps)
  moreover have "\<bar>?x\<bar> < 2 ^ 1024" using \<open>\<bar>?x\<bar> < 2 powi 53\<close> by simp
  ultimately show ?thesis by (simp add: double_of_int_def round_double_def Let_def)
qed

end
