(* ===== verification/TimeDifference.thy ===== *)
theory TimeDifference
  imports Timestamp Double
begin

text \<open>
  The functions of \<open>base/Timestamp.h\<close> on \<open>double\<close>: the difference of two time stamps in seconds, and the
  addition of seconds to a time stamp. Signed overflow and a conversion out of the range of
  \<open>int64_t\<close> are failures. The theorems bound the error of rounding, for time stamps 136 years apart or less.
\<close>

section \<open>Differences in seconds\<close>

definition fits_int64 :: "int \<Rightarrow> bool" where
  "fits_int64 n \<longleftrightarrow> - (2 ^ 63) \<le> n \<and> n < 2 ^ 63"

definition timeDifference :: "timestamp \<Rightarrow> timestamp \<Rightarrow> double result" where
  "timeDifference high low =
     (let diff = micros high - micros low
      in if fits_int64 diff then Inr (double_over (double_of_int diff) kMicroSecondsPerSecond)
         else Inl SignedOverflow)"

definition addTime :: "timestamp \<Rightarrow> double \<Rightarrow> timestamp result" where
  "addTime t seconds =
     bindE (int64_of_double (double_times seconds kMicroSecondsPerSecond)) (\<lambda>delta.
       if fits_int64 (micros t + delta) then Inr (Timestamp (word_of_int (micros t + delta)))
       else Inl SignedOverflow)"

lemma micros_of: "fits_int64 n \<Longrightarrow> micros (Timestamp (word_of_int n)) = n"
  using signed_take_bit_int_eq_self [of 63 n]
  by (simp add: micros_def fits_int64_def sint_uint take_bit_signed_take_bit signed_take_bit_take_bit uint_word_of_int_eq)

text \<open>Stamps less than \<open>2 ^ 32\<close> seconds (136 years) apart.\<close>

definition near :: "timestamp \<Rightarrow> timestamp \<Rightarrow> bool" where
  "near s t \<longleftrightarrow> \<bar>micros s - micros t\<bar> < 2 ^ 32 * 10 ^ 6"

abbreviation seconds_between :: "timestamp \<Rightarrow> timestamp \<Rightarrow> rat" where
  "seconds_between high low \<equiv> of_int (micros high - micros low) / 10 ^ 6"

lemma timeDifference_close:
  assumes "near high low"
  shows "\<exists>q. timeDifference high low = Inr (Finite q)
     \<and> \<bar>q - seconds_between high low\<bar> \<le> 2 ^ 32 / 2 ^ 54"
proof -
  let ?d = "micros high - micros low"
  have d: "\<bar>?d\<bar> < 2 ^ 32 * 10 ^ 6" using assms by (simp add: near_def)
  then have fits: "fits_int64 ?d" by (auto simp: fits_int64_def)
  have "double_of_int ?d = Finite (of_int ?d)" by (rule double_of_int_exact) (use d in simp)
  moreover have "\<bar>of_int ?d :: rat\<bar> < of_int (2 ^ 32 * 10 ^ 6)"
    using d by (simp only: of_int_less_iff flip: of_int_abs)
  then have "\<bar>seconds_between high low\<bar> < 2 ^ 32" by simp
  from round_double_error [OF this] obtain q where
    "round_double (seconds_between high low) = Finite q" "\<bar>q - seconds_between high low\<bar> \<le> 2 ^ 32 / 2 ^ 54" by auto
  ultimately show ?thesis using fits
    by (simp add: timeDifference_def kMicroSecondsPerSecond_def)
qed

lemma towards_zero_near:
  assumes "\<bar>x - of_int n\<bar> < 1"
  shows "0 \<le> n \<Longrightarrow> n - 1 \<le> towards_zero x \<and> towards_zero x \<le> n \<and> 0 \<le> towards_zero x"
    "n \<le> 0 \<Longrightarrow> n \<le> towards_zero x \<and> towards_zero x \<le> n + 1 \<and> towards_zero x \<le> 0"
proof -
  have x: "of_int n - 1 < x" "x < of_int n + 1" using assms by (simp_all add: abs_less_iff)
  show "n - 1 \<le> towards_zero x \<and> towards_zero x \<le> n \<and> 0 \<le> towards_zero x" if n: "0 \<le> n"
  proof (cases "x < 0")
    case True
    have "n = 0"
    proof (rule ccontr)
      assume "n \<noteq> 0"
      then have "1 \<le> (of_int n :: rat)" using n by simp
      then show False using x True by linarith
    qed
    then show ?thesis using x True by (simp add: towards_zero_def) linarith
  next
    case False
    then show ?thesis using x by (simp add: towards_zero_def) linarith
  qed
  show "n \<le> towards_zero x \<and> towards_zero x \<le> n + 1 \<and> towards_zero x \<le> 0" if n: "n \<le> 0"
  proof (cases "x < 0")
    case True
    then show ?thesis using x by (simp add: towards_zero_def) linarith
  next
    case False
    have "n = 0"
    proof (rule ccontr)
      assume "n \<noteq> 0"
      then have "of_int n \<le> (- 1 :: rat)" using n by simp
      then show False using x False by linarith
    qed
    then show ?thesis using x False by (simp add: towards_zero_def)
  qed
qed

text \<open>A number of seconds that differs from a whole number of microseconds by less than a quarter
  microsecond is added as that number or one less, towards zero.\<close>

lemma addTime_close:
  assumes q: "\<bar>q - of_int d / 10 ^ 6\<bar> \<le> 2 ^ 32 / 2 ^ 54" and d: "\<bar>d\<bar> < 2 ^ 32 * 10 ^ 6"
    and fits: "fits_int64 (micros t + d)" "fits_int64 (micros t)"
  shows "\<exists>t'. addTime t (Finite q) = Inr t'
     \<and> (if 0 \<le> d then micros t + d - 1 \<le> micros t' \<and> micros t' \<le> micros t + d
        else micros t + d \<le> micros t' \<and> micros t' \<le> micros t + d + 1)"
proof -
  have "\<bar>of_int d :: rat\<bar> < of_int (2 ^ 32 * 10 ^ 6)" using d by (simp only: of_int_less_iff flip: of_int_abs)
  moreover have "\<bar>q * 10 ^ 6 - of_int d\<bar> \<le> 1 / 4" using q by (simp add: abs_le_iff field_simps)
  moreover have "\<bar>q * 10 ^ 6\<bar> \<le> \<bar>q * 10 ^ 6 - of_int d\<bar> + \<bar>of_int d\<bar>"
    using abs_triangle_ineq [of "q * 10 ^ 6 - of_int d" "of_int d"] by simp
  ultimately have "\<bar>q * 10 ^ 6\<bar> < 1 / 4 + of_int (2 ^ 32 * 10 ^ 6)" by linarith
  then have "\<bar>q * 10 ^ 6\<bar> < 2 ^ 52" by simp
  from round_double_error [OF this] obtain p where
    p: "round_double (q * 10 ^ 6) = Finite p" "\<bar>p - q * 10 ^ 6\<bar> \<le> 1 / 4" by auto
  have "\<bar>p - of_int d\<bar> \<le> \<bar>p - q * 10 ^ 6\<bar> + \<bar>q * 10 ^ 6 - of_int d\<bar>"
    using abs_triangle_ineq [of "p - q * 10 ^ 6" "q * 10 ^ 6 - of_int d"] by simp
  then have "\<bar>p - of_int d\<bar> < 1" using p(2) \<open>\<bar>q * 10 ^ 6 - of_int d\<bar> \<le> 1 / 4\<close> by linarith
  note tz = towards_zero_near [OF this]
  let ?n = "towards_zero p"
  have n: "if 0 \<le> d then d - 1 \<le> ?n \<and> ?n \<le> d else d \<le> ?n \<and> ?n \<le> d + 1" "0 \<le> d \<Longrightarrow> 0 \<le> ?n" "d \<le> 0 \<Longrightarrow> ?n \<le> 0"
    using tz by auto
  then have "fits_int64 (micros t + ?n)" "fits_int64 ?n" using fits d by (auto simp: fits_int64_def split: if_splits)
  then have "addTime t (Finite q) = Inr (Timestamp (word_of_int (micros t + ?n)))"
    by (simp add: addTime_def kMicroSecondsPerSecond_def p(1) [simplified] fits_int64_def)
  then show ?thesis using n(1) micros_of [OF \<open>fits_int64 (micros t + ?n)\<close>] by auto
qed


text \<open>
  C38. The promise of the comment on \<open>timeDifference\<close>, \<open>double\<close> has the resolution of one microsecond
  for 100 years: for time stamps less than \<open>2 ^ 32\<close> seconds after or before \<open>low\<close> the difference is
  returned with an error below a quarter microsecond, and different time stamps give differences in the same
  order.
\<close>

theorem timeDifference_resolution:
  assumes "near s low" and "near t low" and "s < t"
  shows "\<exists>p q. timeDifference s low = Inr (Finite p) \<and> timeDifference t low = Inr (Finite q) \<and> p < q
     \<and> \<bar>p - seconds_between s low\<bar> < 1 / (4 * 10 ^ 6)"
proof -
  from timeDifference_close [OF assms(1)] timeDifference_close [OF assms(2)] obtain p q where
    pq: "timeDifference s low = Inr (Finite p)" "\<bar>p - seconds_between s low\<bar> \<le> 2 ^ 32 / 2 ^ 54"
      "timeDifference t low = Inr (Finite q)" "\<bar>q - seconds_between t low\<bar> \<le> 2 ^ 32 / 2 ^ 54" by blast
  have "(of_int (micros s - micros low) :: rat) + 1 \<le> of_int (micros t - micros low)"
    using assms(3) by (simp add: timestamp_order flip: of_int_less_iff)
  then have "seconds_between s low + 1 / 10 ^ 6 \<le> seconds_between t low" by (simp add: field_simps)
  moreover have "p - seconds_between s low \<le> 2 ^ 32 / 2 ^ 54" "seconds_between t low - q \<le> 2 ^ 32 / 2 ^ 54"
    using pq(2,4) unfolding abs_le_iff by linarith+
  moreover have "(2 :: rat) ^ 32 / 2 ^ 54 + 2 ^ 32 / 2 ^ 54 < 1 / 10 ^ 6" by simp
  ultimately have "p < q" by linarith
  moreover have "(2 :: rat) ^ 32 / 2 ^ 54 < 1 / (4 * 10 ^ 6)" by simp
  ultimately show ?thesis using pq by (intro exI [of _ p] exI [of _ q]) simp
qed

text \<open>
  C39. Adding a difference back: for time stamps less than \<open>2 ^ 32\<close> seconds apart,
  \<open>addTime(low, timeDifference(high, low))\<close> returns \<open>high\<close> or the microsecond next to it towards
  \<open>low\<close>, never anything else.
\<close>

theorem addTime_timeDifference:
  assumes "near high low"
  shows "\<exists>t. bindE (timeDifference high low) (addTime low) = Inr t
     \<and> (if low \<le> high then micros high - 1 \<le> micros t \<and> micros t \<le> micros high
        else micros high \<le> micros t \<and> micros t \<le> micros high + 1)"
proof -
  from timeDifference_close [OF assms] obtain q where
    q: "timeDifference high low = Inr (Finite q)" "\<bar>q - seconds_between high low\<bar> \<le> 2 ^ 32 / 2 ^ 54" by blast
  have "fits_int64 (micros t)" for t using micros_range [of t] by (simp add: fits_int64_def)
  then show ?thesis
    using q(1) addTime_close [OF q(2), of low] assms by (fastforce simp: near_def timestamp_order split: if_splits)
qed

text \<open>The microsecond is really lost, for differences as small as 249 microseconds.\<close>

lemma addTime_loses_microsecond:
  "bindE (timeDifference (Timestamp 249) (Timestamp 0)) (addTime (Timestamp 0)) = Inr (Timestamp 248)"
proof -
  have "round_double (249 / 1000000) = Finite (of_int 4593239274353678 * 2 powi (- 12 - 52))"
    by (rule round_double_eval) (simp_all add: power_int_minus nearest_even_unique)
  then have q: "timeDifference (Timestamp 249) (Timestamp 0) = Inr (Finite (of_int 4593239274353678 / 2 ^ 64))"
    by (simp add: timeDifference_def micros_def fits_int64_def double_of_int_exact kMicroSecondsPerSecond_def power_int_minus)
  have "round_double (of_int 4593239274353678 / 2 ^ 64 * 1000000) = Finite (of_int 8760908650119167 * 2 powi (7 - 52))"
    by (rule round_double_eval) (simp_all add: power_int_minus nearest_even_unique)
  then have "addTime (Timestamp 0) (Finite (of_int 4593239274353678 / 2 ^ 64)) = Inr (Timestamp 248)"
    by (simp add: addTime_def micros_def fits_int64_def kMicroSecondsPerSecond_def power_int_minus towards_zero_def
        floor_eq_iff [THEN iffD2, of 248])
  with q show ?thesis by simp
qed

theorem timeDifference_resolution_witness:
  "\<exists>p q. timeDifference (Timestamp 1) (Timestamp 0) = Inr (Finite p)
     \<and> timeDifference (Timestamp 2) (Timestamp 0) = Inr (Finite q) \<and> p < q"
  using timeDifference_resolution [of "Timestamp 1" "Timestamp 0" "Timestamp 2"]
  by (auto simp: near_def micros_def timestamp_order)

theorem addTime_timeDifference_witness:
  "\<exists>t. bindE (timeDifference (Timestamp 249) (Timestamp 0)) (addTime (Timestamp 0)) = Inr t
     \<and> 248 \<le> micros t \<and> micros t \<le> 249"
  using addTime_timeDifference [of "Timestamp 249" "Timestamp 0"]
  by (simp add: near_def micros_def timestamp_order)

end
