(* ===== verification/Drain.thy ===== *)
theory Drain
  imports TcpConnection
begin

text \<open>
  Draining a connection's output (\<open>net/TcpConnection.cpp\<close>, \<open>handleWrite\<close> over many turns): as long as the
  peer keeps reading, a finite number of flushes empties the output buffer, and only then is a waiting shutdown performed.
\<close>

section \<open>A peer that reads\<close>

text \<open>The kernel takes at least one of the bytes it is offered, and the calls that follow the last byte
  succeed: \<open>flush_ok\<close> without its condition on the buffer.\<close>

definition peer_reads :: "nat \<Rightarrow> 'a net_scheme \<Rightarrow> bool" where
  "peer_reads i w \<longleftrightarrow>
     (isWriting (chans w (tc_channel (conns w i))) \<longrightarrow>
       (let n = length (calls w); r = ret (os w n); out = tc_outputBuffer (conns w i) in
        0 < r \<and> r \<le> int (length (offered out)) \<and> r < 2 ^ 63
        \<and> (nat r = readableBytes out \<longrightarrow>
             (wakes i w \<longrightarrow> ret (os w (Suc n)) = 8)
             \<and> (tc_state (conns w i) = kDisconnecting \<longrightarrow>
                  0 \<le> ret (os w (if wakes i w then Suc (Suc n) else Suc n))))))"

lemma peer_reads_flush_ok: "peer_reads i w \<Longrightarrow> \<not> isFull (tc_outputBuffer (conns w i)) \<Longrightarrow> flush_ok i w"
  by (auto simp: peer_reads_def flush_ok_def Let_def retrieve_ok_def)

text \<open>A buffer that is not full does not become full when bytes are taken out.\<close>

lemma retrieve_not_full: "retrieve n b = Inr b' \<Longrightarrow> \<not> isFull b \<Longrightarrow> \<not> isFull b'"
  by (auto simp: retrieve_def Let_def result_simps split: if_splits)

abbreviation flushes :: "nat \<Rightarrow> nat \<Rightarrow> 'a net_scheme \<Rightarrow> 'a net_scheme result" where
  "flushes i n \<equiv> run_all (perform (TcpConnection_send i) (handleWrite i)) (replicate n Flush)"

definition drained :: "nat \<Rightarrow> 'a net_scheme \<Rightarrow> 'a net_scheme \<Rightarrow> bool" where
  "drained i w w' \<longleftrightarrow> (let cn = conns w i; fd = tc_conn cn; out = contents (tc_outputBuffer cn) in
     conn_inv i w' \<and> contents (tc_outputBuffer (conns w' i)) = []
     \<and> sent_on fd (calls w') = sent_on fd (calls w) @ out
     \<and> (shuts fd (calls w') \<longleftrightarrow> shuts fd (calls w) \<or> out \<noteq> [] \<and> tc_state cn = kDisconnecting)
     \<and> pendingFunctors (loops w' (tc_loop cn)) = pendingFunctors (loops w (tc_loop cn)) @
         (case tc_writeCompleteCB cn of None \<Rightarrow> [] | Some k \<Rightarrow> if out = [] then [] else [WriteCompleteCB k i]))"

lemma flushes_drain:
  assumes "conn_inv i w" "\<not> isFull (tc_outputBuffer (conns w i))"
    "\<And>k u. k < length (contents (tc_outputBuffer (conns w i))) \<Longrightarrow> flushes i k w = Inr u \<Longrightarrow> peer_reads i u"
  shows "\<exists>n w'. n \<le> length (contents (tc_outputBuffer (conns w i))) \<and> flushes i n w = Inr w' \<and> drained i w w'"
  using assms
proof (induction "length (contents (tc_outputBuffer (conns w i)))" arbitrary: w rule: less_induct)
  case less
  let ?out = "tc_outputBuffer (conns w i)"
  show ?case
  proof (cases "contents ?out = []")
    case True
    then have "flushes i 0 w = Inr w \<and> drained i w w"
      using less.prems(1) by (simp add: drained_def split: option.split)
    then show ?thesis by blast
  next
    case False
    then have wr: "isWriting (chans w (tc_channel (conns w i)))" using conn_invD(8) [OF less.prems(1)] by simp
    have "0 < length (contents ?out)" using False by (simp del: length_contents)
    from less.prems(3) [OF this, of w] have reads: "peer_reads i w" by simp
    note ok = peer_reads_flush_ok [OF reads less.prems(2)]
    let ?r = "nat (ret (os w (length (calls w))))"
    from handleWrite_taken [OF less.prems(1) wr ok refl refl refl] obtain v b where
      v: "handleWrite i w = Inr v" "conn_inv i v" "conns v = (conns w)(i := (conns w i)\<lparr>tc_outputBuffer := b\<rparr>)"
      and b: "retrieve ?r ?out = Inr b" "contents b = drop ?r (contents ?out)"
      and st: "sent_on (tc_conn (conns w i)) (calls v) = sent_on (tc_conn (conns w i)) (calls w) @ take ?r (contents ?out)"
        "shuts (tc_conn (conns w i)) (calls v) \<longleftrightarrow> shuts (tc_conn (conns w i)) (calls w)
           \<or> contents b = [] \<and> tc_state (conns w i) = kDisconnecting"
        "pendingFunctors (loops v (tc_loop (conns w i))) = pendingFunctors (loops w (tc_loop (conns w i))) @
         (case tc_writeCompleteCB (conns w i) of None \<Rightarrow> [] | Some k \<Rightarrow> if contents b = [] then [WriteCompleteCB k i] else [])"
      by blast
    have "0 < ?r" using reads wr by (simp add: peer_reads_def Let_def)
    with \<open>0 < length (contents ?out)\<close> have less_len: "length (contents b) < length (contents ?out)"
      by (simp add: b(2) del: length_contents)
    have out: "tc_outputBuffer (conns v i) = b" using v(3) by simp
    have "\<exists>n w'. n \<le> length (contents b) \<and> flushes i n v = Inr w' \<and> drained i v w'"
    proof (rule less.hyps [of v, unfolded out])
      show "peer_reads i u" if "k < length (contents b)" "flushes i k v = Inr u" for k u
        using less.prems(3) [of "Suc k" u] that v(1) less_len by simp
    qed (use less_len v(2) retrieve_not_full [OF b(1) less.prems(2)] in simp_all)
    then obtain n w' where n: "n \<le> length (contents b)" "flushes i n v = Inr w'" "drained i v w'" by blast
    have "drained i w w'"
      using n(3) False st b(2) v(3) by (auto simp: drained_def Let_def split: option.splits)
    then show ?thesis using n less_len v(1) by (intro exI [of _ "Suc n"] exI [of _ w']) simp
  qed
qed

section \<open>Properties\<close>

text \<open>
  C19. A peer that keeps reading gets everything: from a buffer that is not completely full, flushes that each
  take some byte empty the output, after at most as many flushes as there are bytes. All of them were sent, in order; the
  write-complete callback was queued once; and a disconnecting connection has then shut its writing side
  down, behind the last byte.
\<close>

theorem output_drains:
  assumes "conn_inv i w" and "\<not> isFull (tc_outputBuffer (conns w i))"
    and "cn = conns w i" and "out = contents (tc_outputBuffer cn)"
    and "\<forall>k < length out. \<forall>u.
      run_all (perform (TcpConnection_send i) (handleWrite i)) (replicate k Flush) w = Inr u \<longrightarrow> peer_reads i u"
  shows "\<exists>n w'. n \<le> length out
     \<and> run_all (perform (TcpConnection_send i) (handleWrite i)) (replicate n Flush) w = Inr w'
     \<and> conn_inv i w' \<and> contents (tc_outputBuffer (conns w' i)) = []
     \<and> sent_on (tc_conn cn) (calls w') = sent_on (tc_conn cn) (calls w) @ out
     \<and> (shuts (tc_conn cn) (calls w') \<longleftrightarrow> shuts (tc_conn cn) (calls w) \<or> out \<noteq> [] \<and> tc_state cn = kDisconnecting)
     \<and> pendingFunctors (loops w' (tc_loop cn)) = pendingFunctors (loops w (tc_loop cn)) @
         (case tc_writeCompleteCB cn of None \<Rightarrow> [] | Some k \<Rightarrow> if out = [] then [] else [WriteCompleteCB k i])"
  using flushes_drain [OF assms(1,2)] assms(5) unfolding drained_def Let_def assms(3,4) by blast

section \<open>Examples\<close>

lemma writing_net_drains:
  assumes "k < 2" "flushes 0 k (writing_net (\<lambda>n. returns 1)) = Inr u"
  shows "peer_reads 0 u"
proof -
  let ?w = "writing_net (\<lambda>n. returns 1)"
  have two: "peer_reads 0 ?w" "tc_outputBuffer (conns ?w 0) = \<lparr>buf = ''hi      '', startIndex = 0, endIndex = 2, isFull = False\<rparr>"
    by (simp_all add: peer_reads_def Let_def offered_def writing_net_def example_net_simps returns_def
        contents_def readableBytes_def bufferSize_def wakes_def)
  have "k = 0 \<or> k = 1" using assms(1) by auto
  then show ?thesis
  proof
    assume "k = 0"
    then show ?thesis using assms(2) two(1) by simp
  next
    assume "k = 1"
    then have u: "handleWrite 0 ?w = Inr u" using assms(2) by (simp add: bindE_eq_Inr)
    have "flush_ok 0 ?w" using peer_reads_flush_ok [OF two(1)] two(2) by simp
    from handleWrite_taken [OF writing_net_inv writing_net_writes this refl refl refl] u obtain b where
      b: "conns u = (conns ?w)(0 := (conns ?w 0)\<lparr>tc_outputBuffer := b\<rparr>)" "os u = os ?w"
        "retrieve (nat (ret (os ?w (length (calls ?w))))) (tc_outputBuffer (conns ?w 0)) = Inr b" by auto
    have "b = \<lparr>buf = ''hi      '', startIndex = 1, endIndex = 2, isFull = False\<rparr>"
      using b(3) unfolding two(2)
      by (simp add: writing_net_def example_net_simps returns_def retrieve_def readableBytes_def bufferSize_def Let_def)
    then show ?thesis using b(1,2)
      by (simp add: peer_reads_def Let_def offered_def contents_def readableBytes_def bufferSize_def wakes_def)
        (simp add: writing_net_def example_net_simps returns_def)
  qed
qed

theorem output_drains_witness:
  "\<exists>n w'. n \<le> 2 \<and> run_all (perform (TcpConnection_send 0) (handleWrite 0)) (replicate n Flush) (writing_net (\<lambda>n. returns 1)) = Inr w'
     \<and> sent_on 9 (calls w') = ''hi'' \<and> shuts 9 (calls w')"
proof -
  let ?w = "writing_net (\<lambda>n. returns 1)"
  have out: "contents (tc_outputBuffer (conns ?w 0)) = ''hi''" and part: "\<not> isFull (tc_outputBuffer (conns ?w 0))"
    by (simp_all add: writing_net_def example_net_simps contents_def readableBytes_def bufferSize_def upt_rec)
  have reads: "\<forall>k < length ''hi''. \<forall>u. flushes 0 k ?w = Inr u \<longrightarrow> peer_reads 0 u"
    by (intro allI impI writing_net_drains) simp_all
  have st: "tc_conn (conns ?w 0) = 9" "sent_on 9 (calls ?w) = []" "tc_state (conns ?w 0) = kDisconnecting"
    by (simp_all add: writing_net_def example_net_simps)
  from output_drains [OF writing_net_inv part refl out [symmetric] reads] obtain n w' where
    "n \<le> length ''hi''" "flushes 0 n ?w = Inr w'" "sent_on 9 (calls w') = ''hi''" "shuts 9 (calls w')"
    unfolding st by auto
  then show ?thesis by (intro exI [of _ n] exI [of _ w']) simp
qed

end
