(* ===== verification/LoopRefinement.thy ===== *)
theory LoopRefinement
  imports LoopClient LoopProtocol
begin

text \<open>
  From the sequential loop to the protocol. \<open>LoopProtocol.thy\<close> describes a loop as interleaved steps; here a
  whole turn of the sequential \<open>loop_turn\<close>, with any program on it whose callbacks and functors act on the loop only by
  \<open>queueInLoop\<close> and \<open>quitLoop\<close>, is shown to be a run of that protocol. The kernel has to treat the eventfd as
  documented: \<open>poll\<close> reports it exactly when its counter is positive.
\<close>

section \<open>What the protocol sees of a step\<close>

text \<open>A step of the loop's own thread is, for the protocol, a number of pushes, wake-ups and quits.\<close>

definition own_sim :: "nat \<Rightarrow> 'a reactor_scheme \<Rightarrow> 'a reactor_scheme \<Rightarrow> bool" where
  "own_sim l w w' \<longleftrightarrow> (\<forall>s. describes l w s \<and> runs_user_code (pc s) \<and> \<not> self_owes s \<longrightarrow>
     (\<exists>s'. own_step\<^sup>*\<^sup>* s s' \<and> describes l w' s' \<and> \<not> self_owes s'))"

lemma own_steps_frame:
  "own_step\<^sup>*\<^sup>* s t \<Longrightarrow> pc t = pc s \<and> executed t = executed s \<and> (\<exists>fs. pending t = pending s @ fs)
     \<and> (pc s \<noteq> BeforeStart \<longrightarrow> early t = early s)"
  by (induction rule: rtranclp_induct) (auto elim!: own_stepE)

text \<open>The steps of the loop's own thread; the other threads do nothing meanwhile.\<close>

definition solo_step :: "protocol \<Rightarrow> protocol \<Rightarrow> bool" where
  "solo_step s t \<longleftrightarrow> own_step s t \<or> turn_step s t"

lemma solo_turn: "turn_step s t \<Longrightarrow> solo_step s t"
  by (simp add: solo_step_def)

lemma own_steps_solo: "own_step\<^sup>*\<^sup>* s t \<Longrightarrow> solo_step\<^sup>*\<^sup>* s t"
  by (rule rtranclp_mono [THEN predicate2D]) (auto simp: solo_step_def)

lemma solo_step_frame: "solo_step s t \<Longrightarrow> protocol_step s t \<and> owes t = owes s"
  by (auto simp: solo_step_def intro: by_own by_turn elim: own_stepE turn_stepE)

lemma solo_steps_reachable: "solo_step\<^sup>*\<^sup>* s t \<Longrightarrow> reachable s \<Longrightarrow> reachable t \<and> owes t = owes s"
  by (induction rule: rtranclp_induct) (auto dest: solo_step_frame intro: reach_step)

lemma own_sim_trans:
  assumes "own_sim l w w1" "own_sim l w1 w2"
  shows "own_sim l w w2"
  unfolding own_sim_def
proof (intro allI impI)
  fix s assume s: "describes l w s \<and> runs_user_code (pc s) \<and> \<not> self_owes s"
  then obtain s1 where s1: "own_step\<^sup>*\<^sup>* s s1" "describes l w1 s1" "\<not> self_owes s1"
    using assms(1) unfolding own_sim_def by blast
  then obtain s2 where "own_step\<^sup>*\<^sup>* s1 s2" "describes l w2 s2" "\<not> self_owes s2"
    using assms(2) s own_steps_frame [OF s1(1)] unfolding own_sim_def by metis
  with s1(1) show "\<exists>s'. own_step\<^sup>*\<^sup>* s s' \<and> describes l w2 s' \<and> \<not> self_owes s'"
    by (meson rtranclp_trans)
qed

text \<open>The entry of the wake-up channel: it is visible to \<open>poll\<close> and asks for reading.\<close>

definition wake_entry :: "nat \<Rightarrow> 'a reactor_scheme \<Rightarrow> bool" where
  "wake_entry l w \<longleftrightarrow> ch_events (chans w (wakeupChannel (loops w l))) = kReadEvent
     \<and> (\<exists>pfd. entry_of (loop_poller (loops w l), chans w) (wakeupFd (loops w l)) = Some (wakeupChannel (loops w l), pfd)
          \<and> pfd_fd pfd = wakeupFd (loops w l) \<and> pfd_events pfd = ucast kReadEvent)"

text \<open>A step that leaves the wiring of the loop's eventfd alone, and is a step of the protocol.\<close>

definition wired :: "nat \<Rightarrow> 'a reactor_scheme \<Rightarrow> 'a reactor_scheme \<Rightarrow> bool" where
  "wired l w w' \<longleftrightarrow> (let c = wakeupChannel (loops w l) in
     wakeupFd (loops w' l) = wakeupFd (loops w l) \<and> wakeupChannel (loops w' l) = c
     \<and> ch_revents (chans w' c) = ch_revents (chans w c) \<and> ch_readCallback (chans w' c) = ch_readCallback (chans w c)
     \<and> (wake_entry l w \<longrightarrow> wake_entry l w') \<and> own_sim l w w')"

lemma wiredD:
  assumes "wired l w w'"
  shows "wakeupFd (loops w' l) = wakeupFd (loops w l)" "wakeupChannel (loops w' l) = wakeupChannel (loops w l)"
    "ch_revents (chans w' (wakeupChannel (loops w l))) = ch_revents (chans w (wakeupChannel (loops w l)))"
    "ch_readCallback (chans w' (wakeupChannel (loops w l))) = ch_readCallback (chans w (wakeupChannel (loops w l)))"
    "wake_entry l w \<Longrightarrow> wake_entry l w'" "own_sim l w w'"
  using assms by (simp_all add: wired_def Let_def)

lemma wired_trans: "wired l w w1 \<Longrightarrow> wired l w1 w2 \<Longrightarrow> wired l w w2"
  unfolding wired_def Let_def using own_sim_trans by metis

text \<open>A step the protocol does not see.\<close>

lemma wired_unseen:
  assumes "pendingFunctors (loops w' l) = pendingFunctors (loops w l)"
    "callingPendingFunctors (loops w' l) = callingPendingFunctors (loops w l)" "quit (loops w' l) = quit (loops w l)"
    "wakeupFd (loops w' l) = wakeupFd (loops w l)" "wakeupChannel (loops w' l) = wakeupChannel (loops w l)"
    "counter_of (wakeupFd (loops w l)) (calls w') = counter_of (wakeupFd (loops w l)) (calls w)"
    "ch_revents (chans w' (wakeupChannel (loops w l))) = ch_revents (chans w (wakeupChannel (loops w l)))"
    "ch_readCallback (chans w' (wakeupChannel (loops w l))) = ch_readCallback (chans w (wakeupChannel (loops w l)))"
    "wake_entry l w \<Longrightarrow> wake_entry l w'"
  shows "wired l w w'"
proof -
  have "describes l w' s = describes l w s" for s using assms(1-6) by (simp add: describes_def)
  then have "own_sim l w w'" unfolding own_sim_def by (meson rtranclp.rtrancl_refl)
  then show ?thesis using assms by (simp add: wired_def)
qed

lemma wired_refl [simp]: "wired l w w"
  by (rule wired_unseen) simp_all

lemma wake_entry_same:
  assumes "wake_entry l w" "loop_poller (loops w' l) = loop_poller (loops w l)" "wakeupFd (loops w' l) = wakeupFd (loops w l)"
    "wakeupChannel (loops w' l) = wakeupChannel (loops w l)"
    "ch_index (chans w' (wakeupChannel (loops w l))) = ch_index (chans w (wakeupChannel (loops w l)))"
    "ch_events (chans w' (wakeupChannel (loops w l))) = ch_events (chans w (wakeupChannel (loops w l)))"
  shows "wake_entry l w'"
  using assms by (auto simp: wake_entry_def entry_of_def split: option.splits)

text \<open>A system call that is not on the eventfd.\<close>

definition neutral :: "int \<Rightarrow> syscall \<Rightarrow> bool" where
  "neutral fd c \<longleftrightarrow> (\<forall>a n. count_call fd (c, a) n = n)"

lemma neutral_simps [simp]:
  "neutral fd (SysSocket b b')" "neutral fd (SysBind d addr)" "neutral fd (SysListen d backlog)" "neutral fd (SysAccept4 d)"
  "neutral fd (SysSetsockopt d what v)" "neutral fd (SysGetsockname d)" "neutral fd (SysGetsockoptError d)"
  "neutral fd (SysFcntl d what v)" "neutral fd (SysShutdownWr d)" "neutral fd (SysClose d)" "neutral fd SysEventfd"
  "neutral fd (SysPoll fds t)" "neutral fd SysGettimeofday" "neutral fd (SysRecvfrom d len)" "neutral fd (SysSendto d bytes addr)"
  "d \<noteq> fd \<Longrightarrow> neutral fd (SysRead d len)" "d \<noteq> fd \<Longrightarrow> neutral fd (SysWrite d bytes)"
  by (simp_all add: neutral_def)

lemma neutral_calls_count:
  "\<forall>ca \<in> set log. neutral fd (fst ca) \<Longrightarrow> counter_of fd (old @ log) = counter_of fd old"
proof -
  have "fold (count_call fd) log n = n" if "\<forall>ca \<in> set log. neutral fd (fst ca)" for n
    using that by (induction log) (auto simp: neutral_def)
  then show "\<forall>ca \<in> set log. neutral fd (fst ca) \<Longrightarrow> counter_of fd (old @ log) = counter_of fd old"
    by (simp add: counter_of_def)
qed

lemma wired_calls:
  assumes "\<forall>ca \<in> set log. neutral (wakeupFd (loops w l)) (fst ca)"
  shows "wired l w (w\<lparr>calls := calls w @ log\<rparr>)"
  by (rule wired_unseen) (use neutral_calls_count [OF assms] in \<open>auto elim: wake_entry_same\<close>)

lemma wired_call:
  assumes "do_call c w = (a, w')" "neutral (wakeupFd (loops w l)) c"
  shows "wired l w w'"
  using wired_calls [of "[(c, a)]" w l] assms by (auto simp: do_call_def Let_def)

section \<open>The operations of the loop\<close>

lemma entered_loop [simp]:
  "wakeupChannel (loops (entered c p k w) l) = wakeupChannel (loops w l)" "quit (loops (entered c p k w) l) = quit (loops w l)"
  by (simp_all add: entered_def)

lemma wired_queue:
  assumes own: "isInLoopThread l w" and run: "queueInLoop l f w = Inr w'"
  shows "wired l w w'"
proof -
  have "own_sim l w w'" unfolding own_sim_def using queueInLoop_own [OF _ own run] by blast
  moreover have "wakeupFd (loops w' k) = wakeupFd (loops w k)" "wakeupChannel (loops w' k) = wakeupChannel (loops w k)"
    "loop_poller (loops w' k) = loop_poller (loops w k)" "chans w' = chans w" for k
    using run by (auto simp: queueInLoop_def wakeup_def do_call_def Let_def result_simps split: if_splits)
  moreover from this have "wake_entry l w \<Longrightarrow> wake_entry l w'" by (elim wake_entry_same) simp_all
  ultimately show ?thesis by (simp add: wired_def)
qed

lemma wired_quit:
  assumes own: "isInLoopThread l w" and run: "quitLoop l w = Inr w'"
  shows "wired l w w'"
proof -
  have w': "w' = set_loop l (quit_update (\<lambda>_. True)) w" using own run by (simp add: quitLoop_def)
  have "own_sim l w w'" unfolding own_sim_def
  proof (intro allI impI)
    fix s assume s: "describes l w s \<and> runs_user_code (pc s) \<and> \<not> self_owes s"
    then have "own_step s (s\<lparr>quitting := True\<rparr>)" by (intro own_quit) simp_all
    moreover have "describes l w' (s\<lparr>quitting := True\<rparr>)" using s by (simp add: describes_def w')
    ultimately show "\<exists>s'. own_step\<^sup>*\<^sup>* s s' \<and> describes l w' s' \<and> \<not> self_owes s'"
      using s by (intro exI [of _ "s\<lparr>quitting := True\<rparr>"]) simp
  qed
  moreover have "wake_entry l w \<Longrightarrow> wake_entry l w'" by (elim wake_entry_same) (simp_all add: w')
  ultimately show ?thesis by (simp add: wired_def w')
qed

text \<open>The operations of channels other than the wake-up channel; reading may be enabled on any.\<close>

lemma update_entries:
  assumes inv: "reactor_inv w" and fd: "0 \<le> ch_fd (chans w c)" and run: "Channel_update c w = Inr w'"
  shows "\<exists>p k pfd. w' = entered c p k w
     \<and> entry_of (p, chans w') = (entry_of (own_poller c w))(ch_fd (chans w c) \<mapsto> (c, pfd))
     \<and> (joinable c (own_poller c w) \<or> enrolled c (own_poller c w)
          \<and> pfd = refreshed (chans w c) (pollfds (fst (own_poller c w)) ! nat (ch_index (chans w c))))"
proof -
  let ?l = "ch_loop (chans w c)"
  let ?p = "loop_poller (loops w ?l)"
  from run obtain b p chs where up: "Poller_updateChannel b c (?p, chans w) = Inr (p, chs)"
    and w': "w' = (set_loop ?l (loop_poller_update (\<lambda>_. p)) w)\<lparr>chans := chs\<rparr>"
    by (auto simp: Channel_update_def EventLoop_updateChannel_def with_poller_def result_simps)
  note R = Poller_update_returned [OF up]
  have own: "own_poller c w = (?p, chans w)" by (simp add: own_poller_def)
  obtain k where k: "chs = (chans w)(c := (chans w c)\<lparr>ch_index := k\<rparr>)" using R(2) by blast
  have e: "w' = entered c p k w" by (simp add: w' k entered_def set_chan_def set_loop_def)
  from R(4) [OF fd] show ?thesis
  proof
    assume j: "joinable c (?p, chans w)"
    from update_new [OF reactor_invD(1) [OF inv] this] up R(1)
    have "entry_of (p, chs) = (entry_of (?p, chans w))(ch_fd (chans w c) \<mapsto> (c, first_entry (chans w c)))" by auto
    with j e own show ?thesis by (intro exI [of _ p] exI [of _ k] exI [of _ "first_entry (chans w c)"]) (simp add: w' flip: k)
  next
    assume m: "enrolled c (?p, chans w)"
    let ?pfd = "refreshed (chans w c) (pollfds ?p ! nat (ch_index (chans w c)))"
    from update_old [OF reactor_invD(1) [OF inv] m] up R(1)
    have "entry_of (p, chs) = (entry_of (?p, chans w))(ch_fd (chans w c) \<mapsto> (c, ?pfd))" by auto
    with m e own show ?thesis by (intro exI [of _ p] exI [of _ k] exI [of _ ?pfd]) (simp add: w' flip: k)
  qed
qed

lemma wake_entryD:
  assumes inv: "reactor_inv w" and wake: "wake_entry l w"
  shows "channelMap (loop_poller (loops w l)) (wakeupFd (loops w l)) = Some (wakeupChannel (loops w l))"
    "ch_fd (chans w (wakeupChannel (loops w l))) = wakeupFd (loops w l)"
    "ch_loop (chans w (wakeupChannel (loops w l))) = l" "0 \<le> wakeupFd (loops w l)"
    "registered (wakeupChannel (loops w l)) w"
proof -
  show m: "channelMap (loop_poller (loops w l)) (wakeupFd (loops w l)) = Some (wakeupChannel (loops w l))"
    using wake by (auto simp: wake_entry_def entry_of_def split: option.splits)
  show "ch_fd (chans w (wakeupChannel (loops w l))) = wakeupFd (loops w l)" "0 \<le> wakeupFd (loops w l)"
    using poller_invD(1,2) [OF reactor_invD(1) [OF inv] m] by simp_all
  show "ch_loop (chans w (wakeupChannel (loops w l))) = l" by (rule reactor_invD(3) [OF inv m])
  show "registered (wakeupChannel (loops w l)) w" using m by (auto simp: registered_def)
qed

lemma entry_of_other:
  "ch_index (chs' c) = ch_index (chs c) \<Longrightarrow> entry_of (p, chs) fd = Some (c, pfd) \<Longrightarrow> entry_of (p, chs') fd = Some (c, pfd)"
  by (auto simp: entry_of_def split: option.splits)

lemma refreshed_reading:
  "ch_events ch = kReadEvent \<Longrightarrow> pfd_fd (refreshed (add_reading ch) pfd) = pfd_fd pfd
     \<and> pfd_events (refreshed (add_reading ch) pfd) = ucast kReadEvent \<and> ch_events (add_reading ch) = kReadEvent"
  by (simp add: refreshed_def add_reading_def isNoneEvent_def poll_bits Let_def)

lemma mask_wake_entry:
  assumes inv: "reactor_inv w" and fd: "0 \<le> ch_fd (chans w c)"
    and apart: "c \<noteq> wakeupChannel (loops w l) \<or> m = EnableReading"
    and run: "Channel_update c (set_chan c (apply_mask m) w) = Inr w'" and wake: "wake_entry l w"
  shows "wake_entry l w'"
proof -
  let ?u = "set_chan c (apply_mask m) w" and ?W = "wakeupChannel (loops w l)" and ?F = "wakeupFd (loops w l)"
  let ?p = "loop_poller (loops w l)"
  have inv': "reactor_inv ?u" using inv by (rule reactor_inv_set_chan) simp_all
  note K = wake_entryD [OF inv wake]
  from wake obtain pfd where e: "entry_of (?p, chans w) ?F = Some (?W, pfd)" "pfd_fd pfd = ?F"
    "pfd_events pfd = ucast kReadEvent" and ev: "ch_events (chans w ?W) = kReadEvent" unfolding wake_entry_def by blast
  from update_entries [OF inv' _ run] fd obtain q k r where
    w': "w' = entered c q k ?u" "entry_of (q, chans w') = (entry_of (own_poller c ?u))(ch_fd (chans ?u c) \<mapsto> (c, r))"
    and how: "joinable c (own_poller c ?u) \<or> enrolled c (own_poller c ?u)
          \<and> r = refreshed (chans ?u c) (pollfds (fst (own_poller c ?u)) ! nat (ch_index (chans ?u c)))" by auto
  have same: "wakeupFd (loops w' l) = ?F" "wakeupChannel (loops w' l) = ?W" by (simp_all add: w'(1))
  have ix: "ch_index (chans ?u ?W) = ch_index (chans w ?W)" by simp
  show ?thesis
  proof (cases "ch_loop (chans w c) = l")
    case True
    then have op: "own_poller c ?u = (?p, chans ?u)" and lp: "loop_poller (loops w' l) = q"
      by (simp_all add: own_poller_def w'(1) entered_def)
    show ?thesis
    proof (cases "c = ?W")
      case c: True
      then have m: "m = EnableReading" using apart by simp
      have "0 \<le> ch_index (chans w c)" using poller_invD(3) [OF reactor_invD(1) [OF inv] K(1)] c by simp
      then have "\<not> joinable c (own_poller c ?u)" by (simp add: joinable_def op)
      with how have r: "r = refreshed (add_reading (chans w c)) (pollfds ?p ! nat (ch_index (chans w c)))"
        by (simp add: m op [unfolded m]) (simp add: add_reading_def)
      have "pfd = pollfds ?p ! nat (ch_index (chans w c))" using e(1) K(1) c by (simp add: entry_of_def)
      with r e(2) ev c have "pfd_fd r = ?F" "pfd_events r = ucast kReadEvent" "ch_events (chans w' c) = kReadEvent"
        using refreshed_reading [of "chans w c" pfd] by (simp_all add: w'(1) m)
      moreover have "entry_of (q, chans w') ?F = Some (c, r)" using K(2) c by (simp add: w'(2))
      ultimately show ?thesis using c by (simp add: wake_entry_def same lp)
    next
      case False
      have "ch_fd (chans w c) \<noteq> ?F"
        using how K(1) False by (auto simp: op joinable_def enrolled_def)
      then have "entry_of (q, chans w') ?F = entry_of (?p, chans ?u) ?F" by (simp add: w'(2) op)
      then show ?thesis using entry_of_other [where chs' = "chans ?u", OF ix e(1)] e(2,3) ev False
        by (simp add: wake_entry_def same lp) (simp add: w'(1))
    qed
  next
    case False
    then have c: "c \<noteq> ?W" using K(3) by auto
    have lp: "loop_poller (loops w' l) = ?p" using False by (simp add: w'(1) entered_def)
    have "entry_of (?p, chans w') ?F = Some (?W, pfd)"
      by (rule entry_of_other [OF _ e(1)]) (use c in \<open>simp add: w'(1)\<close>)
    then show ?thesis using e(2,3) ev c by (simp add: wake_entry_def same lp) (simp add: w'(1))
  qed
qed

lemma wired_mask:
  assumes inv: "reactor_inv w" and fd: "0 \<le> ch_fd (chans w c)"
    and apart: "c \<noteq> wakeupChannel (loops w l) \<or> m = EnableReading"
    and run: "Channel_update c (set_chan c (apply_mask m) w) = Inr w'"
  shows "wired l w w'"
proof -
  have inv': "reactor_inv (set_chan c (apply_mask m) w)" using inv by (rule reactor_inv_set_chan) simp_all
  from Channel_update_returned [OF inv' _ run] fd obtain q k where
    w': "w' = entered c q k (set_chan c (apply_mask m) w)" by auto
  have "ch_readCallback (apply_mask m ch) = ch_readCallback ch" "ch_revents (apply_mask m ch) = ch_revents ch" for ch
    by (cases m; simp add: mask_defs)+
  then show ?thesis using mask_wake_entry [OF inv fd apart run] by (intro wired_unseen) (simp_all add: w')
qed

lemma wired_ops:
  assumes "reactor_inv w" "0 \<le> ch_fd (chans w c)"
  shows "Channel_enableReading c w = Inr w' \<Longrightarrow> wired l w w'"
    "c \<noteq> wakeupChannel (loops w l) \<Longrightarrow> Channel_enableWriting c w = Inr w' \<Longrightarrow> wired l w w'"
    "c \<noteq> wakeupChannel (loops w l) \<Longrightarrow> Channel_disableWriting c w = Inr w' \<Longrightarrow> wired l w w'"
    "c \<noteq> wakeupChannel (loops w l) \<Longrightarrow> Channel_disableAll c w = Inr w' \<Longrightarrow> wired l w w'"
  unfolding channel_ops_mask using wired_mask [OF assms] by blast+

text \<open>The removal of another channel.\<close>

lemma wired_remove:
  assumes inv: "reactor_inv w" and c: "c \<noteq> wakeupChannel (loops w l)" and run: "EventLoop_removeChannel k c w = Inr w'"
  shows "wired l w w'"
proof -
  have k: "k = ch_loop (chans w c)" using run by (simp add: EventLoop_removeChannel_def result_simps)
  let ?p = "loop_poller (loops w k)"
  from run obtain b p chs where rm: "Poller_removeChannel b c (?p, chans w) = Inr (p, chs)"
    and w': "w' = (set_loop k (loop_poller_update (\<lambda>_. p)) w)\<lparr>chans := chs\<rparr>"
    by (auto simp: EventLoop_removeChannel_def with_poller_def result_simps)
  note R = Poller_remove_returned [OF rm]
  from remove_channel [OF reactor_invD(1) [OF inv] R(2)] rm R(1) have
    e: "entry_of (p, chs) = (entry_of (?p, chans w))(ch_fd (chans w c) := None)"
    and fr: "\<forall>d. \<exists>i. chs d = (chans w d)\<lparr>ch_index := i\<rparr>" by auto
  have ch: "ch_events (chs d) = ch_events (chans w d)" "ch_revents (chs d) = ch_revents (chans w d)"
    "ch_readCallback (chs d) = ch_readCallback (chans w d)" for d
    using fr [rule_format, of d] by auto
  have same: "wakeupFd (loops w' l) = wakeupFd (loops w l)" "wakeupChannel (loops w' l) = wakeupChannel (loops w l)"
    "chans w' = chs" by (simp_all add: w')
  have "wake_entry l w'" if wake: "wake_entry l w"
  proof -
    let ?W = "wakeupChannel (loops w l)" and ?F = "wakeupFd (loops w l)"
    note K = wake_entryD [OF inv wake]
    from wake obtain pfd where pfd: "entry_of (loop_poller (loops w l), chans w) ?F = Some (?W, pfd)" "pfd_fd pfd = ?F"
      "pfd_events pfd = ucast kReadEvent" and ev: "ch_events (chans w ?W) = kReadEvent" unfolding wake_entry_def by blast
    have "entry_of (loop_poller (loops w' l), chs) ?F = Some (?W, pfd)"
    proof (cases "k = l")
      case True
      have "ch_fd (chans w c) \<noteq> ?F" using R(2) K(1) c True by (auto simp: retirable_def enrolled_def)
      then show ?thesis using pfd(1) True e by (simp add: w')
    next
      case False
      have lp: "loop_poller (loops w' l) = loop_poller (loops w l)" using False by (simp add: w')
      have "channelMap ?p fd \<noteq> Some ?W" for fd using reactor_invD(3) [OF inv, of k fd ?W] K(3) False by auto
      then have "chs ?W = chans w ?W" using remove_frame [of c ?p "chans w" p chs ?W] rm R(1) by simp
      then show ?thesis unfolding lp using entry_of_other [OF _ pfd(1), of chs] by simp
    qed
    then show ?thesis using pfd(2,3) ev by (simp add: wake_entry_def same ch)
  qed
  then show ?thesis by (intro wired_unseen) (simp_all add: w' ch)
qed

section \<open>The poll\<close>

text \<open>What \<open>poll\<close> is documented to report of an eventfd: that it can be read, exactly when its counter is positive.\<close>

definition eventfd_polled :: "nat \<Rightarrow> 'a reactor_scheme \<Rightarrow> bool" where
  "eventfd_polled l w \<longleftrightarrow> poll_answer_ok (loop_poller (loops w l), chans w) kPollTimeMs w
     \<and> (let fds = pollfds (loop_poller (loops w l)); fd = wakeupFd (loops w l) in
         \<forall>i < length fds. pfd_fd (fds ! i) = fd \<and> pfd_events (fds ! i) = ucast kReadEvent \<longrightarrow>
           ready (os w (length (calls w))) ! i = (if 0 < counter_of fd (calls w) then POLLIN else 0))"

text \<open>The active channels are distinct, and each belongs to the entry of its own descriptor.\<close>

lemma ready_channels_own:
  assumes inv: "poller_inv (p, chs)" and pos: "\<forall>pfd \<in> set (pollfds p). sint (pfd_revents pfd) > 0 \<longrightarrow> 0 \<le> pfd_fd pfd"
  shows "distinct (ready_channels (channelMap p) (pollfds p))"
    "c \<in> set (ready_channels (channelMap p) (pollfds p)) \<longleftrightarrow>
       (\<exists>pfd \<in> set (pollfds p). sint (pfd_revents pfd) > 0 \<and> pfd_fd pfd = ch_fd (chs c) \<and> channelMap p (ch_fd (chs c)) = Some c)"
proof -
  let ?f = "\<lambda>pfd. the (channelMap p (pfd_fd pfd))"
  have own: "\<exists>c. channelMap p (pfd_fd pfd) = Some c \<and> ch_fd (chs c) = pfd_fd pfd"
    if "pfd \<in> set (pollfds p)" "sint (pfd_revents pfd) > 0" for pfd
    using poller_inv_entry [OF inv that(1)] pos that by blast
  have "inj_on ?f (set (filter (\<lambda>pfd. sint (pfd_revents pfd) > 0) (pollfds p)))"
  proof (rule inj_onI)
    fix x y assume xy: "x \<in> set (filter (\<lambda>pfd. sint (pfd_revents pfd) > 0) (pollfds p))"
      "y \<in> set (filter (\<lambda>pfd. sint (pfd_revents pfd) > 0) (pollfds p))" and eq: "?f x = ?f y"
    then have "pfd_fd x = pfd_fd y" using own [of x] own [of y] by fastforce
    moreover have "inj_on pfd_fd (set (pollfds p))" using poller_fds_distinct [OF inv] by (simp add: distinct_map)
    ultimately show "x = y" using xy by (auto dest: inj_onD)
  qed
  moreover have "distinct (pollfds p)" using poller_fds_distinct [OF inv] by (simp add: distinct_map)
  ultimately show "distinct (ready_channels (channelMap p) (pollfds p))"
    by (simp add: ready_channels_def distinct_map)
  show "c \<in> set (ready_channels (channelMap p) (pollfds p)) \<longleftrightarrow>
       (\<exists>pfd \<in> set (pollfds p). sint (pfd_revents pfd) > 0 \<and> pfd_fd pfd = ch_fd (chs c) \<and> channelMap p (ch_fd (chs c)) = Some c)"
    using own by (force simp: ready_channels_def)
qed

text \<open>The poll itself is not seen by the protocol; the wake-up channel is active exactly when the counter is positive,
  once, and to be read.\<close>

lemma poll_wakes:
  assumes inv: "reactor_inv w" and wake: "wake_entry l w" and kernel: "eventfd_polled l w" and run: "loop_poll l w = Inr w'"
    and W: "W = wakeupChannel (loops w l)"
  shows "\<And>s. describes l w' s = describes l w s" "pendingFunctors (loops w' l) = pendingFunctors (loops w l)"
    "distinct (activeChannels (loops w' l))"
    "W \<in> set (activeChannels (loops w' l)) \<longleftrightarrow> 0 < counter_of (wakeupFd (loops w l)) (calls w)"
    "W \<in> set (activeChannels (loops w' l)) \<Longrightarrow> ch_revents (chans w' W) = POLLIN"
proof -
  let ?p = "loop_poller (loops w l)" and ?a = "os w (length (calls w))" and ?F = "wakeupFd (loops w l)"
  let ?fds = "store_revents (ready ?a) (pollfds ?p)"
  let ?w = "set_loop l (activeChannels_update (\<lambda>_. [])) w"
  have ok: "poll_answer_ok (?p, chans w) kPollTimeMs ?w" using kernel by (simp add: eventfd_polled_def poll_answer_ok_def)
  have len: "length (ready ?a) = length (pollfds ?p)" using ok by (simp add: poll_answer_ok_def)
  from Poller_poll_returns [OF reactor_invD(1) [OF inv] ok refl] obtain t chs v where
    poll: "Poller_poll kPollTimeMs [] (?p, chans w) ?w =
      Inr (t, ready_channels (channelMap ?p) ?fds, (?p\<lparr>pollfds := ?fds\<rparr>, chs), v)"
    and pinv: "poller_inv (?p\<lparr>pollfds := ?fds\<rparr>, chs)"
    and same: "\<forall>c. \<exists>r. chs c = (chans w c)\<lparr>ch_revents := r\<rparr>"
    and rev: "\<forall>pfd \<in> set ?fds. sint (pfd_revents pfd) > 0 \<longrightarrow> 0 \<le> pfd_fd pfd
         \<and> ch_revents (chs (the (channelMap ?p (pfd_fd pfd)))) = scast (pfd_revents pfd)" by auto
  have w': "w' = (set_loop l (\<lambda>el. el\<lparr>pollReturnTime := t,
       activeChannels := ready_channels (channelMap ?p) ?fds, loop_poller := ?p\<lparr>pollfds := ?fds\<rparr>\<rparr>) v)\<lparr>chans := chs\<rparr>"
    using run poll by (simp add: loop_poll_def)
  have v: "\<exists>a b. v = ?w\<lparr>calls := calls w @ [(SysPoll (pollfds ?p) kPollTimeMs, a), (SysGettimeofday, b)]\<rparr>"
    using poll by (auto simp: Poller_poll_def do_call_def Let_def result_simps split: if_splits)
  have act: "activeChannels (loops w' l) = ready_channels (channelMap ?p) ?fds" by (simp add: w')
  from v show "describes l w' s = describes l w s" for s by (auto simp: describes_def w' counter_of_def)
  show "pendingFunctors (loops w' l) = pendingFunctors (loops w l)" using v by (auto simp: w')
  have pos: "\<forall>pfd \<in> set (pollfds (?p\<lparr>pollfds := ?fds\<rparr>)). sint (pfd_revents pfd) > 0 \<longrightarrow> 0 \<le> pfd_fd pfd" using rev by simp
  note R = ready_channels_own [OF pinv pos, simplified]
  show "distinct (activeChannels (loops w' l))" using R(1) by (simp add: act)
  note K = wake_entryD [OF inv wake]
  let ?i = "nat (ch_index (chans w W))"
  have i: "?i < length (pollfds ?p)" using poller_invD(3,4) [OF reactor_invD(1) [OF inv] K(1)] by (simp add: W nat_less_iff)
  have e: "pfd_fd (pollfds ?p ! ?i) = ?F" "pfd_events (pollfds ?p ! ?i) = ucast kReadEvent"
    using wake K(1) by (auto simp: wake_entry_def entry_of_def W)
  have fdi: "?fds ! ?i = (pollfds ?p ! ?i)\<lparr>pfd_revents := ready ?a ! ?i\<rparr>" by (rule store_revents_nth [OF len i])
  have ri: "ready ?a ! ?i = (if 0 < counter_of ?F (calls w) then POLLIN else 0)"
    using kernel i e by (simp add: eventfd_polled_def Let_def)
  have fdW: "ch_fd (chs W) = ?F" using same [rule_format, of W] K(2) by (auto simp: W)
  have in_fds: "?fds ! ?i \<in> set ?fds" using i by (intro nth_mem) (simp add: store_revents_always)
  have only: "pfd = ?fds ! ?i" if "pfd \<in> set ?fds" "pfd_fd pfd = ?F" for pfd
  proof -
    have "inj_on pfd_fd (set ?fds)" using poller_fds_distinct [OF pinv] by (simp add: distinct_map)
    moreover have "pfd_fd pfd = pfd_fd (?fds ! ?i)" using that(2) e(1) by (simp add: fdi)
    ultimately show ?thesis using that(1) in_fds by (rule inj_onD)
  qed
  have "W \<in> set (activeChannels (loops w' l)) \<longleftrightarrow> (\<exists>pfd \<in> set ?fds. sint (pfd_revents pfd) > 0 \<and> pfd_fd pfd = ?F)"
    unfolding act R(2) fdW using K(1) by (simp add: W)
  also have "\<dots> \<longleftrightarrow> sint (pfd_revents (?fds ! ?i)) > 0"
  proof -
    have "pfd_fd (?fds ! ?i) = ?F" by (simp add: fdi e(1))
    with only in_fds show ?thesis by metis
  qed
  also have "\<dots> \<longleftrightarrow> 0 < counter_of ?F (calls w)" by (simp add: fdi ri POLLIN_def)
  finally show iff: "W \<in> set (activeChannels (loops w' l)) \<longleftrightarrow> 0 < counter_of ?F (calls w)" .
  assume "W \<in> set (activeChannels (loops w' l))"
  then have "pfd_revents (?fds ! ?i) = POLLIN" using iff fdi ri by simp
  then have "ch_revents (chs W) = scast (POLLIN :: 16 word)"
    using rev [rule_format, OF in_fds] K(1) e(1) fdi by (simp add: W POLLIN_def)
  then show "ch_revents (chans w' W) = POLLIN" by (simp add: w' POLLIN_def)
qed

section \<open>A turn of the loop is a run of the protocol\<close>

text \<open>A program whose callbacks and functors are steps the protocol knows. \<open>W\<close> is the number of the wake-up channel.\<close>

locale protocol_client = loop_client +
  fixes W :: nat
  assumes wake_law: "I [] w \<Longrightarrow> reactor_inv w \<and> wakeupChannel (loops w L) = W \<and> wake_entry L w
      \<and> ch_readCallback (chans w W) = Some (LoopHandleRead L)"
    and read_law: "call (LoopHandleRead L) t = EventLoop_handleRead L"
    and call_wired: "I [] w \<Longrightarrow> cb \<in> bound_callbacks (chans w c) \<Longrightarrow> c \<noteq> W \<Longrightarrow> call cb t w = Inr w' \<Longrightarrow> wired L w w'"
    and exec_wired: "I (f # fs) w \<Longrightarrow> exec f w = Inr w' \<Longrightarrow> wired L w w'"
begin

lemma wired_handling: "wired L w (set_chan c (ch_eventHandling_update (\<lambda>_. b)) w)"
  by (rule wired_unseen) (auto elim: wake_entry_same)

lemma call_if_wired:
  assumes "I [] w" "c \<noteq> W" "call_if call c due cb_of t w = Inr w'"
    and "\<And>cb. cb_of (chans w c) = Some cb \<Longrightarrow> cb \<in> bound_callbacks (chans w c)"
  shows "wired L w w'"
  using assms call_wired by (auto simp: call_if_def split: if_splits option.splits)

lemma handler_wired:
  assumes inv: "I [] w" and c: "c \<noteq> W" and run: "Channel_handleEvent call t c w = Inr w'"
  shows "wired L w w'"
proof -
  let ?w0 = "set_chan c (ch_eventHandling_update (\<lambda>_. True)) w"
  from run obtain w1 w2 w3 w4 where
    r: "call_if call c is_closing ch_closeCallback t ?w0 = Inr w1"
    "call_if call c is_error ch_errorCallback t w1 = Inr w2"
    "call_if call c is_readable ch_readCallback t w2 = Inr w3"
    "call_if call c is_writable ch_writeCallback t w3 = Inr w4"
    "w' = set_chan c (ch_eventHandling_update (\<lambda>_. False)) w4"
    by (auto simp: Channel_handleEvent_def result_simps)
  have i0: "I [] ?w0" using inv by (rule handling_law)
  have i1: "I [] w1" using call_if_keeps [OF i0 r(1)] by (simp add: bound_callbacks_def)
  have i2: "I [] w2" using call_if_keeps [OF i1 r(2)] by (simp add: bound_callbacks_def)
  have i3: "I [] w3" using call_if_keeps [OF i2 r(3)] by (simp add: bound_callbacks_def)
  have "wired L ?w0 w1" "wired L w1 w2" "wired L w2 w3" "wired L w3 w4"
    using call_if_wired [OF i0 c r(1)] call_if_wired [OF i1 c r(2)] call_if_wired [OF i2 c r(3)] call_if_wired [OF i3 c r(4)]
    by (simp_all add: bound_callbacks_def)
  note w = wired_trans [OF wired_trans [OF wired_trans [OF wired_trans [OF wired_handling this(1)] this(2)] this(3)] this(4)]
  show ?thesis unfolding r(5) by (rule wired_trans [OF w wired_handling])
qed

lemma handlers_wired:
  "I [] w \<Longrightarrow> W \<notin> set cs \<Longrightarrow> run_all (Channel_handleEvent call t) cs w = Inr w' \<Longrightarrow> I [] w' \<and> wired L w w'"
proof (induction cs arbitrary: w)
  case (Cons c cs)
  from Cons.prems(3) obtain v where v: "Channel_handleEvent call t c w = Inr v"
    "run_all (Channel_handleEvent call t) cs v = Inr w'" by (auto simp: result_simps)
  have "I [] v" using Cons.prems(1) v(1) by (rule handleEvent_keeps)
  with Cons v(2) handler_wired [OF Cons.prems(1) _ v(1)] show ?case by (auto intro: wired_trans)
qed simp

text \<open>The wake-up channel's turn: the counter is read, and nothing else happens.\<close>

lemma wake_handled:
  assumes inv: "I [] w" and rev: "ch_revents (chans w W) = POLLIN" and run: "Channel_handleEvent call t W w = Inr w'"
    and s: "describes L w s" "pc s = Handling True" "\<not> self_owes s"
  shows "\<exists>s'. turn_step s s' \<and> describes L w' s' \<and> pc s' = Handling False \<and> \<not> self_owes s'
     \<and> executed s' = executed s \<and> pending s' = pending s"
proof -
  let ?w0 = "set_chan W (ch_eventHandling_update (\<lambda>_. True)) w"
  have cb: "ch_readCallback (chans w W) = Some (LoopHandleRead L)" using wake_law [OF inv] by simp
  from run obtain v u where v: "EventLoop_handleRead L ?w0 = Inr v"
    and u: "call_if call W is_writable ch_writeCallback t v = Inr u" "w' = set_chan W (ch_eventHandling_update (\<lambda>_. False)) u"
    by (auto simp: Channel_handleEvent_def call_if_def [where due = is_closing] call_if_def [where due = is_error]
        call_if_def [where due = is_readable] is_closing_def is_error_def is_readable_def
        rev cb read_law poll_bits result_simps)
  have "chans v = chans ?w0" using v by (auto simp: EventLoop_handleRead_def do_call_def Let_def result_simps)
  then have "\<not> is_writable (chans v W)" by (simp add: is_writable_def rev poll_bits)
  then have w': "w' = set_chan W (ch_eventHandling_update (\<lambda>_. False)) v" using u by (simp add: call_if_def)
  have "describes L ?w0 s" using s(1) by (simp add: describes_def)
  from handleRead_turn [OF this s(2) v] obtain s' where
    s': "turn_step s s'" "describes L v s'" "pc s' = Handling False" by blast
  moreover have "describes L w' s'" using s'(2) by (simp add: describes_def w')
  moreover have "\<not> self_owes s' \<and> executed s' = executed s \<and> pending s' = pending s"
    using s'(1) s(2,3) by (auto elim!: turn_stepE)
  ultimately show ?thesis by blast
qed

lemma own_sim_run:
  assumes "wired L w w'" "describes L w s" "runs_user_code (pc s)" "\<not> self_owes s"
  shows "\<exists>s' fs. solo_step\<^sup>*\<^sup>* s s' \<and> describes L w' s' \<and> \<not> self_owes s' \<and> pc s' = pc s \<and> executed s' = executed s
     \<and> pending s' = pending s @ fs \<and> (pc s \<noteq> BeforeStart \<longrightarrow> early s' = early s)"
  using wiredD(6) [OF assms(1)] assms(2-4) own_steps_frame own_steps_solo unfolding own_sim_def by meson

text \<open>The work on the events.\<close>

lemma events_sim:
  assumes inv: "I [] w" and kernel: "eventfd_polled L w" and poll: "loop_poll L w = Inr w1"
    and run: "run_all (Channel_handleEvent call t) (activeChannels (loops w1 L)) w1 = Inr w2"
    and s: "describes L w s" "pc s = AtPoll" "\<not> self_owes s"
  shows "\<exists>s2 fs. solo_step\<^sup>*\<^sup>* s s2 \<and> I [] w2 \<and> describes L w2 s2 \<and> pc s2 = Handling False \<and> \<not> self_owes s2
     \<and> executed s2 = executed s \<and> pending s2 = pending s @ fs"
proof -
  have wl: "reactor_inv w" "wakeupChannel (loops w L) = W" "wake_entry L w" using wake_law [OF inv] by simp_all
  note P = poll_wakes [OF wl(1,3) kernel poll wl(2) [symmetric]]
  have inv1: "I [] w1" using inv poll by (rule poll_law)
  have d1: "describes L w1 s" using P(1) s(1) by simp
  have n: "counter s = counter_of (wakeupFd (loops w L)) (calls w)" using s(1) by (simp add: describes_def)
  show ?thesis
  proof (cases "0 < counter s")
    case False
    let ?s1 = "s\<lparr>pc := Handling False\<rparr>"
    have st: "solo_step s ?s1" by (rule solo_turn, rule poll_other) (use s False in simp_all)
    have "W \<notin> set (activeChannels (loops w1 L))" using P(4) n False by simp
    from handlers_wired [OF inv1 this run] have h: "I [] w2" "wired L w1 w2" by blast+
    have "describes L w1 ?s1" using d1 by (simp add: describes_def)
    from own_sim_run [OF h(2) this] s(3) obtain s2 fs where
      "solo_step\<^sup>*\<^sup>* ?s1 s2" "describes L w2 s2" "\<not> self_owes s2" "pc s2 = Handling False"
      "executed s2 = executed s" "pending s2 = pending s @ fs" by auto
    with st h(1) show ?thesis by (meson converse_rtranclp_into_rtranclp)
  next
    case True
    let ?s1 = "s\<lparr>pc := Handling True\<rparr>"
    have st: "solo_step s ?s1" by (rule solo_turn, rule poll_woken) (use s True in simp_all)
    have act: "W \<in> set (activeChannels (loops w1 L))" using P(4) n True by simp
    then obtain xs ys where xy: "activeChannels (loops w1 L) = xs @ W # ys" "W \<notin> set xs" "W \<notin> set ys"
      using P(3) by (auto dest: split_list)
    from run obtain u v where u: "run_all (Channel_handleEvent call t) xs w1 = Inr u"
      and v: "Channel_handleEvent call t W u = Inr v" "run_all (Channel_handleEvent call t) ys v = Inr w2"
      by (auto simp: xy(1) run_all_append result_simps)
    from handlers_wired [OF inv1 xy(2) u] have hu: "I [] u" "wired L w1 u" by blast+
    have "describes L w1 ?s1" using d1 by (simp add: describes_def)
    from own_sim_run [OF hu(2) this] s(3) obtain s2 fs where
      s2: "solo_step\<^sup>*\<^sup>* ?s1 s2" "describes L u s2" "\<not> self_owes s2" "pc s2 = Handling True"
      "executed s2 = executed s" "pending s2 = pending s @ fs" by auto
    have "wakeupChannel (loops w1 L) = W" using wake_law [OF inv1] by simp
    then have "ch_revents (chans u W) = POLLIN" using wiredD(3) [OF hu(2)] P(5) [OF act] by simp
    from wake_handled [OF hu(1) this v(1) s2(2,4,3)] obtain s3 where
      s3: "turn_step s2 s3" "describes L v s3" "pc s3 = Handling False" "\<not> self_owes s3"
      "executed s3 = executed s2" "pending s3 = pending s2" by blast
    have inv_v: "I [] v" using hu(1) v(1) by (rule handleEvent_keeps)
    from handlers_wired [OF inv_v xy(3) v(2)] have hv: "I [] w2" "wired L v w2" by blast+
    from own_sim_run [OF hv(2) s3(2) _ s3(4)] s3(3) obtain s4 gs where
      s4: "solo_step\<^sup>*\<^sup>* s3 s4" "describes L w2 s4" "\<not> self_owes s4" "pc s4 = Handling False"
      "executed s4 = executed s3" "pending s4 = pending s3 @ gs" by auto
    have "solo_step\<^sup>*\<^sup>* s s4"
      using st s2(1) solo_turn [OF s3(1)] s4(1) by (meson converse_rtranclp_into_rtranclp rtranclp_trans)
    then show ?thesis using s4 hv(1) s2(5,6) s3(5,6) by (intro exI [of _ s4] exI [of _ "fs @ gs"]) simp
  qed
qed

text \<open>The functors.\<close>

lemma functors_sim:
  "I fs w \<Longrightarrow> describes L w s \<Longrightarrow> pc s = Running fs \<Longrightarrow> \<not> self_owes s \<Longrightarrow> run_all exec fs w = Inr w' \<Longrightarrow>
     \<exists>s'. solo_step\<^sup>*\<^sup>* s s' \<and> describes L w' s' \<and> pc s' = Running [] \<and> \<not> self_owes s' \<and> executed s' = executed s @ fs
       \<and> early s' = early s"
proof (induction fs arbitrary: w s)
  case (Cons f fs)
  from Cons.prems(5) obtain v where v: "exec f w = Inr v" "run_all exec fs v = Inr w'" by (auto simp: result_simps)
  let ?s = "s\<lparr>pc := Running fs, executed := executed s @ [f]\<rparr>"
  have st: "solo_step s ?s" using Cons.prems by (intro solo_turn run_next) simp_all
  have "describes L w ?s" using Cons.prems(2) by (simp add: describes_def)
  from own_sim_run [OF exec_wired [OF Cons.prems(1) v(1)] this] Cons.prems(4) obtain s1 where
    s1: "solo_step\<^sup>*\<^sup>* ?s s1" "describes L v s1" "\<not> self_owes s1" "pc s1 = Running fs" "executed s1 = executed s @ [f]" "early s1 = early s"
    by auto
  from Cons.IH [OF exec_law [OF Cons.prems(1) v(1)] s1(2,4,3) v(2)] obtain s' where
    "solo_step\<^sup>*\<^sup>* s1 s'" "describes L w' s'" "pc s' = Running []" "\<not> self_owes s'" "executed s' = executed s1 @ fs" "early s' = early s1" by blast
  with st s1(1,5,6) show ?case by (auto intro: converse_rtranclp_into_rtranclp rtranclp_trans)
qed auto

lemma pending_sim:
  assumes inv: "I [] w" and run: "doPendingFunctors exec L w = Inr w'"
    and s: "describes L w s" "pc s = Handling False" "\<not> self_owes s"
  shows "\<exists>s'. solo_step\<^sup>*\<^sup>* s s' \<and> describes L w' s' \<and> pc s' = AtTest \<and> \<not> self_owes s'
     \<and> executed s' = executed s @ pending s \<and> \<not> early s'"
proof -
  let ?v = "set_loop L (callingPendingFunctors_update (\<lambda>_. True)) w"
  let ?w = "set_loop L (pendingFunctors_update (\<lambda>_. [])) ?v"
  let ?s1 = "s\<lparr>pc := Swapping, calling := True\<rparr>"
  let ?s2 = "?s1\<lparr>pc := Running (pending ?s1), pending := [], early := False\<rparr>"
  have st: "solo_step s ?s1" "solo_step ?s1 ?s2"
    by (rule solo_turn, rule mark [OF s(2)]) (rule solo_turn, rule swap, simp)
  have fs: "pending s = pendingFunctors (loops ?v L)" using s(1) by (simp add: describes_def)
  obtain v where v: "run_all exec (pending s) ?w = Inr v" "w' = set_loop L (callingPendingFunctors_update (\<lambda>_. False)) v"
    using run by (auto simp: doPendingFunctors_def Let_def result_simps fs)
  have "I (pending s) ?w" unfolding fs by (intro swap_law calling_law inv)
  moreover have "describes L ?w ?s2" using s(1) by (simp add: describes_def)
  ultimately obtain s3 where s3: "solo_step\<^sup>*\<^sup>* ?s2 s3" "describes L v s3" "pc s3 = Running []" "\<not> self_owes s3"
    "executed s3 = executed s @ pending s" "\<not> early s3" using functors_sim [OF _ _ _ _ v(1), of ?s2] s(3) by auto
  let ?s4 = "s3\<lparr>pc := AtTest, calling := False\<rparr>"
  have "solo_step s3 ?s4" by (rule solo_turn, rule unmark [OF s3(3,4)])
  with st s3(1) have "solo_step\<^sup>*\<^sup>* s ?s4"
    by (meson converse_rtranclp_into_rtranclp rtranclp.rtrancl_into_rtrancl)
  moreover have "describes L w' ?s4" using s3(2) v(2) by (simp add: describes_def)
  ultimately show ?thesis using s3(4-6) by (intro exI [of _ ?s4]) simp
qed

lemma turn_sim:
  assumes inv: "I [] w" and kernel: "eventfd_polled L w" and run: "loop_turn call exec L w = Inr w'"
    and s: "describes L w s" "pc s = AtPoll" "\<not> self_owes s"
  shows "\<exists>s' fs. solo_step\<^sup>*\<^sup>* s s' \<and> describes L w' s' \<and> pc s' = AtTest \<and> \<not> self_owes s'
     \<and> executed s' = executed s @ pendingFunctors (loops w L) @ fs \<and> \<not> early s'"
proof -
  from run obtain w1 w2 where
    r: "loop_poll L w = Inr w1"
    "run_all (Channel_handleEvent call (pollReturnTime (loops w1 L))) (activeChannels (loops w1 L)) w1 = Inr w2"
    "doPendingFunctors exec L w2 = Inr w'"
    by (auto simp: loop_turn_def result_simps)
  from events_sim [OF inv kernel r(1,2) s] obtain s2 fs where
    s2: "solo_step\<^sup>*\<^sup>* s s2" "I [] w2" "describes L w2 s2" "pc s2 = Handling False" "\<not> self_owes s2"
     "executed s2 = executed s" "pending s2 = pending s @ fs" by blast
  from pending_sim [OF s2(2) r(3) s2(3-5)] obtain s' where
    s': "solo_step\<^sup>*\<^sup>* s2 s'" "describes L w' s'" "pc s' = AtTest" "\<not> self_owes s'" "executed s' = executed s2 @ pending s2"
    "\<not> early s'" by blast
  have "pending s = pendingFunctors (loops w L)" using s(1) by (simp add: describes_def)
  then show ?thesis using s2 s' by (intro exI [of _ s'] exI [of _ fs]) (auto intro: rtranclp_trans)
qed

end

text \<open>The poll keeps the entry of the wake-up channel.\<close>

lemma poll_wake_entry:
  assumes inv: "reactor_inv w" and wake: "wake_entry l w" and run: "loop_poll l w = Inr w'"
  shows "wake_entry l w'" "wakeupChannel (loops w' l) = wakeupChannel (loops w l)" "wakeupFd (loops w' l) = wakeupFd (loops w l)"
proof -
  let ?p = "loop_poller (loops w l)" and ?W = "wakeupChannel (loops w l)"
  let ?fds = "store_revents (ready (os w (length (calls w)))) (pollfds ?p)"
  from loop_poll_frame [OF run] obtain t act chs log where
    w': "w' = (set_loop l (\<lambda>el. el\<lparr>pollReturnTime := t, activeChannels := act, loop_poller := ?p\<lparr>pollfds := ?fds\<rparr>\<rparr>) w)
       \<lparr>calls := log, chans := chs\<rparr>"
    and fr: "\<forall>c. \<exists>r. chs c = (chans w c)\<lparr>ch_revents := r\<rparr>" by blast
  show same: "wakeupChannel (loops w' l) = ?W" "wakeupFd (loops w' l) = wakeupFd (loops w l)" by (simp_all add: w')
  note K = wake_entryD [OF inv wake]
  let ?i = "nat (ch_index (chans w ?W))"
  have i: "?i < length (pollfds ?p)" using poller_invD(3,4) [OF reactor_invD(1) [OF inv] K(1)] by (simp add: nat_less_iff)
  have ch: "ch_index (chs ?W) = ch_index (chans w ?W)" "ch_events (chs ?W) = ch_events (chans w ?W)"
    using fr [rule_format, of ?W] by auto
  have "pfd_fd (?fds ! ?i) = pfd_fd (pollfds ?p ! ?i)" "pfd_events (?fds ! ?i) = pfd_events (pollfds ?p ! ?i)"
    using i by (simp_all add: store_revents_def)
  then show "wake_entry l w'" using wake K(1) by (simp add: wake_entry_def same) (simp add: w' entry_of_def ch)
qed

end
