(* ===== verification/ServerProtocol.thy ===== *)
theory ServerProtocol
  imports ServerRuns LoopRefinement
begin

text \<open>
  The server as a client of the protocol: every callback and functor of a configured server, with any program of
  the user, is a step that \<open>LoopRefinement.thy\<close> allows, because no connection ever has the descriptor of the loop's
  eventfd. So the turns of its loop are runs of the protocol of \<open>LoopProtocol.thy\<close>, and what is proved there holds of
  the server.
\<close>

section \<open>Connections apart from the eventfd\<close>

definition apart :: "nat \<Rightarrow> nat \<Rightarrow> 'a world_scheme \<Rightarrow> bool" where
  "apart L i w \<longleftrightarrow> tc_loop (conns w i) = L \<and> tc_channel (conns w i) < next_object w
     \<and> tc_channel (conns w i) \<noteq> wakeupChannel (loops w L)
     \<and> ch_fd (chans w (tc_channel (conns w i))) \<noteq> wakeupFd (loops w L)"

definition settled_on :: "nat \<Rightarrow> 'a world_scheme \<Rightarrow> bool" where
  "settled_on L w \<longleftrightarrow> link_ok w \<and> isInLoopThread L w \<and> (\<forall>i. is_conn i w \<longrightarrow> apart L i w)"

text \<open>A step that is quiet for the connections' lives and allowed by the protocol.\<close>

definition tame :: "nat \<Rightarrow> 'a world_scheme \<Rightarrow> 'a world_scheme \<Rightarrow> bool" where
  "tame L w w' \<longleftrightarrow> quiet L w w' \<and> wired L w w'"

lemma tame_trans: "tame L w w1 \<Longrightarrow> tame L w1 w2 \<Longrightarrow> tame L w w2"
  unfolding tame_def by (blast intro: quiet_trans wired_trans)

lemma tame_refl: "link_ok w \<Longrightarrow> tame L w w"
  by (simp add: tame_def quiet_refl)

lemma tame_link: "tame L w w' \<Longrightarrow> link_ok w'"
  by (simp add: tame_def quiet_def)

lemma tame_loops: "tame L w w' \<Longrightarrow> wakeupFd (loops w' L) = wakeupFd (loops w L)"
  "tame L w w' \<Longrightarrow> wakeupChannel (loops w' L) = wakeupChannel (loops w L)"
  by (simp_all add: tame_def wiredD)

lemma tame_thread: "tame L w w' \<Longrightarrow> isInLoopThread l w' = isInLoopThread l w"
  by (simp add: tame_def quiet_def isInLoopThread_def)

lemma tame_fd: "tame L w w' \<Longrightarrow> ch_fd (chans w' c) = ch_fd (chans w c)"
  unfolding tame_def quiet_def chan_links_def by simp

lemma tame_apart: "tame L w w' \<Longrightarrow> apart L i w' = apart L i w"
  using quiet_conn(1,2) [of L w w' i] quiet_same_key(2) [of L w w'] tame_loops [of L w w'] tame_fd [of L w w']
  by (simp add: apart_def tame_def)

lemma tame_conn: "tame L w w' \<Longrightarrow> is_conn i w' = is_conn i w"
  using quiet_conn(5) by (auto simp: tame_def)

lemma tame_settled: "tame L w w' \<Longrightarrow> settled_on L w \<Longrightarrow> settled_on L w'"
  by (simp add: settled_on_def tame_apart tame_conn tame_thread tame_link)

lemma settledD:
  assumes "settled_on L w"
  shows "link_ok w" "isInLoopThread L w" "is_conn i w \<Longrightarrow> apart L i w" "reactor_inv w" "0 \<le> ch_fd (chans w c)"
  using assms by (simp_all add: settled_on_def link_ok_def)

section \<open>The operations of a connection\<close>

lemma wired_plain:
  assumes "loops w' = loops w" "chans w' = chans w" "calls w' = calls w"
  shows "wired L w w'"
  by (rule wired_unseen) (use assms in \<open>auto elim: wake_entry_same\<close>)

lemma tame_set_conn:
  "link_ok w \<Longrightarrow> conn_key (f (conns w i)) = conn_key (conns w i) \<Longrightarrow>
     state_moves (tc_state (conns w i)) (tc_state (f (conns w i))) \<Longrightarrow> tame L w (set_conn i f w)"
  by (simp add: tame_def quiet_set_conn wired_plain)

lemma tame_call:
  "link_ok w \<Longrightarrow> do_call c w = (a, w') \<Longrightarrow> neutral (wakeupFd (loops w L)) c \<Longrightarrow> tame L w w'"
  by (simp add: tame_def quiet_call wired_call)

lemma tame_queue:
  "link_ok w \<Longrightarrow> isInLoopThread L w \<Longrightarrow> harmless f \<Longrightarrow> queueInLoop L f w = Inr w' \<Longrightarrow> tame L w w'"
  by (simp add: tame_def quiet_queue wired_queue)

lemma tame_ops:
  assumes "link_ok w" "c < next_object w"
  shows "Channel_enableReading c w = Inr w' \<Longrightarrow> tame L w w'"
    "c \<noteq> wakeupChannel (loops w L) \<Longrightarrow> Channel_enableWriting c w = Inr w' \<Longrightarrow> tame L w w'"
    "c \<noteq> wakeupChannel (loops w L) \<Longrightarrow> Channel_disableWriting c w = Inr w' \<Longrightarrow> tame L w w'"
    "c \<noteq> wakeupChannel (loops w L) \<Longrightarrow> Channel_disableAll c w = Inr w' \<Longrightarrow> tame L w w'"
  using quiet_ops [OF assms] wired_ops [of w c] assms(1) by (simp_all add: tame_def link_ok_def)

lemma tame_write_complete:
  assumes "settled_on L w" "tc_loop (conns w i) = L" "queue_write_complete i w = Inr w'"
  shows "tame L w w'"
  using assms tame_queue [where f = "WriteCompleteCB k i" for k] tame_refl
  by (auto simp: queue_write_complete_def settled_on_def split: option.splits)

lemma tame_try_write:
  assumes set: "settled_on L w" and i: "apart L i w" and run: "try_write i m w = Inr (n, w')"
  shows "tame L w w'"
proof (cases "\<not> isWriting (chans w (tc_channel (conns w i))) \<and> readableBytes (tc_outputBuffer (conns w i)) = 0")
  case True
  obtain a v where v: "do_call (SysWrite (ch_fd (chans w (tc_channel (conns w i)))) m) w = (a, v)" by fastforce
  have t: "tame L w v" using tame_call [OF settledD(1) [OF set] v, of L] i by (simp add: apart_def)
  have "tc_loop (conns v i) = L" using i quiet_conn(2) [of L w v i] t by (simp add: apart_def tame_def)
  note wc = tame_write_complete [OF tame_settled [OF t set] this]
  with True v t show ?thesis using run
    by (auto simp: try_write_def Let_def result_simps split: if_splits intro: tame_trans)
next
  case False
  then have "w' = w" using run by (auto simp: try_write_def Let_def)
  then show ?thesis using tame_refl settledD(1) [OF set] by simp
qed

lemma tame_send_in_loop:
  assumes set: "settled_on L w" and i: "apart L i w" and run: "sendInLoop i m w = Inr w'"
  shows "tame L w w'"
proof -
  from run obtain n v where v: "try_write i m w = Inr (n, v)"
    and rest: "(if nat n < length m then
            bindE (append (drop (nat n) m) (tc_outputBuffer (conns v i))) (\<lambda>b.
              let w = set_conn i (tc_outputBuffer_update (\<lambda>_. b)) v; c = tc_channel (conns w i)
              in if \<not> isWriting (chans w c) then Channel_enableWriting c w else Inr w)
          else Inr v) = Inr w'"
    by (auto simp: sendInLoop_def result_simps split: prod.splits)
  have t: "tame L w v" by (rule tame_try_write [OF set i v])
  have tb: "tame L v (set_conn i (tc_outputBuffer_update (\<lambda>_. b)) v)" for b
    by (rule tame_set_conn [OF tame_link [OF t]]) (simp_all add: conn_key_def)
  let ?c = "tc_channel (conns v i)"
  have c: "?c < next_object v" "?c \<noteq> wakeupChannel (loops v L)" using i tame_apart [OF t] unfolding apart_def by blast+
  have "tame L v w'"
  proof (cases "nat n < length m")
    case True
    from True rest obtain b where b: "append (drop (nat n) m) (tc_outputBuffer (conns v i)) = Inr b"
      by (auto simp: bindE_eq_Inr simp del: Let_def)
    with True rest have
      "(if \<not> isWriting (chans v ?c) then Channel_enableWriting ?c (set_conn i (tc_outputBuffer_update (\<lambda>_. b)) v)
        else Inr (set_conn i (tc_outputBuffer_update (\<lambda>_. b)) v)) = Inr w'"
      by (cases "isWriting (chans v ?c)") (simp_all add: Let_def)
    moreover have "tame L (set_conn i (tc_outputBuffer_update (\<lambda>_. b)) v) u"
      if "Channel_enableWriting ?c (set_conn i (tc_outputBuffer_update (\<lambda>_. b)) v) = Inr u" for u
      using c by (intro tame_ops(2) [OF tame_link [OF tb] _ _ that]) simp_all
    ultimately show ?thesis using tb tame_trans [OF tb] by (auto split: if_splits)
  next
    case False
    then show ?thesis using rest tame_refl [OF tame_link [OF t]] by simp
  qed
  with t show ?thesis by (rule tame_trans)
qed

lemma tame_shut_down:
  assumes "settled_on L w" "shutDownInLoop i w = Inr w'"
  shows "tame L w w'"
proof -
  obtain a v where v: "do_call (SysShutdownWr (tc_conn (conns w i))) w = (a, v)" by fastforce
  have "w' = v \<or> w' = w" using assms(2) v by (auto simp: shutDownInLoop_def result_simps split: if_splits)
  then show ?thesis using tame_call [OF settledD(1) [OF assms(1)] v, of L] tame_refl settledD(1) [OF assms(1)] by auto
qed

lemma tame_write:
  assumes set: "settled_on L w" and i: "apart L i w" and run: "handleWrite i w = Inr w'"
  shows "tame L w w'"
proof (cases "isWriting (chans w (tc_channel (conns w i)))")
  case False
  then show ?thesis using run tame_refl settledD(1) [OF set] by (auto simp: handleWrite_def Let_def result_simps)
next
  case True
  let ?c = "tc_channel (conns w i)"
  let ?rest = "\<lambda>v b. let u = set_conn i (tc_outputBuffer_update (\<lambda>_. b)) v in
               if readableBytes b = 0 then bindE (Channel_disableWriting ?c u) (after_flush i) else Inr u"
  have "isInLoopThread (tc_loop (conns w i)) w" using run by (simp add: handleWrite_def result_simps)
  with True have "handleWrite i w = bindE (writeFd (ch_fd (chans w ?c)) (tc_outputBuffer (conns w i)) w)
      (\<lambda>(n, v). if n > 0 then bindE (retrieve n (tc_outputBuffer (conns v i))) (?rest v) else Inl Abort)"
    unfolding after_flush_def [abs_def] by (simp add: handleWrite_def Let_def)
  with run obtain n v where wr: "writeFd (ch_fd (chans w ?c)) (tc_outputBuffer (conns w i)) w = Inr (n, v)"
    and "(if n > 0 then bindE (retrieve n (tc_outputBuffer (conns v i))) (?rest v) else Inl Abort) = Inr w'"
    by (auto simp: bindE_eq_Inr simp del: Let_def)
  then obtain b where rest: "?rest v b = Inr w'"
    by (auto simp: bindE_eq_Inr split: if_splits)
  from wr obtain bytes a where "do_call (SysWrite (ch_fd (chans w ?c)) bytes) w = (a, v)"
    by (auto simp: writeFd_def do_call_def Let_def result_simps)
  moreover have "neutral (wakeupFd (loops w L)) (SysWrite (ch_fd (chans w ?c)) bytes)"
    using i by (intro neutral_simps) (simp add: apart_def)
  ultimately have t1: "tame L w v" by (rule tame_call [OF settledD(1) [OF set]])
  let ?u = "set_conn i (tc_outputBuffer_update (\<lambda>_. b)) v"
  have t2: "tame L v ?u" by (rule tame_set_conn [OF tame_link [OF t1]]) (simp_all add: conn_key_def)
  have t: "tame L w ?u" by (rule tame_trans [OF t1 t2])
  note setu = tame_settled [OF t set]
  have iu: "apart L i ?u" "?c = tc_channel (conns ?u i)"
    using i tame_apart [OF t] quiet_conn(1) [of L w ?u i] t by (simp_all add: tame_def)
  have "tame L ?u w'"
  proof (cases "readableBytes b = 0")
    case True
    with rest obtain v1 v2 where v1: "Channel_disableWriting ?c ?u = Inr v1" "queue_write_complete i v1 = Inr v2"
      "(if tc_state (conns v2 i) = kDisconnecting then shutDownInLoop i v2 else Inr v2) = Inr w'"
      by (auto simp: result_simps after_flush_def)
    have a: "tame L ?u v1" using iu by (intro tame_ops(3) [OF tame_link [OF t2] _ _ v1(1)]) (simp_all add: apart_def)
    note set1 = tame_settled [OF a setu]
    have "apart L i v1" using iu(1) tame_apart [OF a] by blast
    then have "tc_loop (conns v1 i) = L" unfolding apart_def by blast
    note b = tame_write_complete [OF set1 this v1(2)]
    have "tame L v2 w'" using v1(3) tame_shut_down [OF tame_settled [OF b set1]] tame_refl [OF tame_link [OF b]]
      by (auto split: if_splits)
    with a b show ?thesis by (blast intro: tame_trans)
  next
    case False
    then show ?thesis using rest tame_refl [OF tame_link [OF t2]] by simp
  qed
  with t show ?thesis by (rule tame_trans)
qed

section \<open>The user's operations\<close>

lemma tame_user_send:
  assumes set: "settled_on L w" and i: "apart L i w" and run: "TcpConnection_send i m w = Inr w'"
  shows "tame L w w'"
proof -
  have "isInLoopThread (tc_loop (conns w i)) w" using i settledD(2) [OF set] by (simp add: apart_def)
  with run show ?thesis using tame_refl [OF settledD(1) [OF set]] tame_send_in_loop [OF set i]
    by (auto simp: TcpConnection_send_def split: if_splits)
qed

lemma tame_user_shutdown:
  assumes set: "settled_on L w" and i: "apart L i w" and run: "TcpConnection_shutdown i w = Inr w'"
  shows "tame L w w'"
proof (cases "tc_state (conns w i) = kConnected")
  case True
  let ?w = "setState i kDisconnecting w"
  have t: "tame L w ?w" unfolding setState_def
    by (rule tame_set_conn [OF settledD(1) [OF set]]) (simp_all add: conn_key_def True state_moves_def)
  have own: "isInLoopThread (tc_loop (conns w i)) w" using i settledD(2) [OF set] by (simp add: apart_def)
  have "shutDownInLoop i ?w = Inr w'"
    using run True own by (simp add: TcpConnection_shutdown_def runInLoop_def setState_def Let_def)
  from tame_shut_down [OF tame_settled [OF t set] this] t show ?thesis by (blast intro: tame_trans)
next
  case False
  then show ?thesis using run tame_refl [OF settledD(1) [OF set]] by (simp add: TcpConnection_shutdown_def)
qed

lemma tame_user_perform:
  assumes set: "settled_on L w" and run: "user_perform L op w = Inr w'"
  shows "tame L w w'"
proof -
  note link = settledD(1) [OF set]
  have input: "tame L w (set_conn i (tc_inputBuffer_update (\<lambda>_. b)) w)" for i b
    by (rule tame_set_conn [OF link]) (simp_all add: conn_key_def)
  show ?thesis
  proof (cases op)
    case (UserSend i m)
    then show ?thesis using run tame_user_send [OF set settledD(3) [OF set]] tame_refl [OF link]
      by (auto simp: user_perform_def split: if_splits)
  next
    case (UserShutdown i)
    then show ?thesis using run tame_user_shutdown [OF set settledD(3) [OF set]] tame_refl [OF link]
      by (auto simp: user_perform_def split: if_splits)
  next
    case (UserNoDelay i on)
    then show ?thesis using run tame_refl [OF link] tame_call [OF link surjective_pairing, of L]
      by (auto simp: user_perform_def setTcpNoDelay_def split: if_splits)
  next
    case (UserRetrieve i n)
    then show ?thesis using run tame_refl [OF link] input
      by (auto simp: user_perform_def result_simps split: if_splits)
  next
    case (UserTakeAll i)
    then show ?thesis using run tame_refl [OF link] input
      by (auto simp: user_perform_def result_simps split: if_splits)
  next
    case (UserQueue k)
    then show ?thesis using run tame_queue [OF link settledD(2) [OF set], of "UserFunctor k"] by (simp add: user_perform_def)
  next
    case UserQuit
    then show ?thesis using run quiet_quit [OF link] wired_quit [OF settledD(2) [OF set]]
      by (simp add: user_perform_def tame_def)
  qed
qed

lemma tame_react:
  assumes set: "settled_on L w" and run: "react L P e w = Inr w'"
  shows "tame L w w'"
  using run_all_inv [where I = "\<lambda>s. settled_on L s \<and> tame L w s", of "P e w" "user_perform L" w w']
    set tame_refl [OF settledD(1) [OF set]] run tame_user_perform tame_settled tame_trans
  unfolding react_def by blast

section \<open>The wiring of the loop's own channel\<close>

text \<open>The wake-up channel is not a connection, reads the eventfd, and nobody else does.\<close>

definition wake_ok :: "nat \<Rightarrow> nat \<Rightarrow> 'a world_scheme \<Rightarrow> bool" where
  "wake_ok L W w \<longleftrightarrow> wakeupChannel (loops w L) = W \<and> wake_entry L w
     \<and> ch_readCallback (chans w W) = Some (LoopHandleRead L) \<and> W < next_object w \<and> \<not> is_conn W w
     \<and> (\<forall>c l. LoopHandleRead l \<in> bound_callbacks (chans w c) \<longrightarrow> c = W)
     \<and> (\<forall>i. is_conn i w \<longrightarrow> ch_fd (chans w i) \<noteq> wakeupFd (loops w L))"

lemma wake_okD:
  assumes "wake_ok L W w"
  shows "wakeupChannel (loops w L) = W" "wake_entry L w" "ch_readCallback (chans w W) = Some (LoopHandleRead L)"
    "W < next_object w" "\<not> is_conn W w" "LoopHandleRead l \<in> bound_callbacks (chans w c) \<Longrightarrow> c = W"
    "is_conn i w \<Longrightarrow> ch_fd (chans w i) \<noteq> wakeupFd (loops w L)"
  using assms unfolding wake_ok_def by blast+

lemma inv_reactor: "server_inv L w0 X ts w \<Longrightarrow> reactor_inv w"
  using server_invD(1) [of L w0 X ts w] by (simp add: link_ok_def)

lemma inv_settled:
  assumes inv: "server_inv L w0 X ts w" and wk: "wake_ok L W w"
  shows "settled_on L w"
proof -
  note D = server_invD [OF inv]
  have "apart L i w" if "is_conn i w" for i
  proof -
    have "tc_channel (conns w i) = i" "tc_loop (conns w i) = L" using D(5) that by (simp_all add: conns_ok_def)
    moreover have "i \<noteq> W" "i < next_object w" using that wake_okD(5) [OF wk] by (auto simp: is_conn_def)
    ultimately show ?thesis using wake_okD(1,7) [OF wk] that by (simp add: apart_def)
  qed
  then show ?thesis using D(1,2) by (simp add: settled_on_def)
qed

text \<open>A step the protocol allows, that keeps the wiring.\<close>

definition safe :: "nat \<Rightarrow> nat \<Rightarrow> 'a world_scheme \<Rightarrow> 'a world_scheme \<Rightarrow> bool" where
  "safe L W w w' \<longleftrightarrow> wired L w w' \<and> wake_ok L W w'"

lemma safeD: "safe L W w w' \<Longrightarrow> wired L w w'" "safe L W w w' \<Longrightarrow> wake_ok L W w'"
  by (simp_all add: safe_def)

lemma safe_trans: "safe L W w v \<Longrightarrow> safe L W v w' \<Longrightarrow> safe L W w w'"
  by (auto simp: safe_def intro: wired_trans)

lemma wake_ok_kept:
  assumes wk: "wake_ok L W w" and wake: "wake_entry L w'"
    and same: "wakeupChannel (loops w' L) = wakeupChannel (loops w L)" "wakeupFd (loops w' L) = wakeupFd (loops w L)"
      "ch_readCallback (chans w' W) = ch_readCallback (chans w W)" "next_object w' = next_object w"
      "\<And>i. is_conn i w' = is_conn i w" "\<And>c. chan_links (chans w' c) = chan_links (chans w c)"
  shows "wake_ok L W w'"
proof -
  have "ch_fd (chans w' c) = ch_fd (chans w c)" "bound_callbacks (chans w' c) = bound_callbacks (chans w c)" for c
    using same(6) [of c] by (simp_all add: chan_links_def)
  with wk wake show ?thesis unfolding wake_ok_def by (simp add: same)
qed

lemma safe_step:
  assumes wk: "wake_ok L W w" and wi: "wired L w w'"
    and same: "next_object w' = next_object w" "\<And>i. is_conn i w' = is_conn i w"
      "\<And>c. chan_links (chans w' c) = chan_links (chans w c)"
  shows "safe L W w w'"
proof -
  have "wake_entry L w'" by (rule wiredD(5) [OF wi wake_okD(2) [OF wk]])
  then have "wake_ok L W w'"
    by (rule wake_ok_kept [OF wk]) (use wiredD(1,2,4) [OF wi] wake_okD(1) [OF wk] same in simp_all)
  with wi show ?thesis by (simp add: safe_def)
qed

lemma tame_safe: "wake_ok L W w \<Longrightarrow> tame L w w' \<Longrightarrow> safe L W w w'"
  using quiet_same_key(2) [of L w w'] by (intro safe_step) (simp_all add: tame_conn, simp_all add: tame_def quiet_def)

lemma plain_safe:
  "wake_ok L W w \<Longrightarrow> loops w' = loops w \<Longrightarrow> chans w' = chans w \<Longrightarrow> calls w' = calls w \<Longrightarrow>
     next_object w' = next_object w \<Longrightarrow> (\<And>i. is_conn i w' = is_conn i w) \<Longrightarrow> safe L W w w'"
  by (intro safe_step wired_plain) simp_all

section \<open>The server's own handlers\<close>

lemma removal_safe:
  assumes inv: "server_inv L w0 X ts w" and wk: "wake_ok L W w" and i: "is_conn i w"
    and run: "removeConnection s i w = Inr w'"
  shows "safe L W w w'"
proof -
  note D = server_invD [OF inv]
  let ?w = "set_server s (srv_connMap_update (\<lambda>m. m(tc_name (conns w i) := None))) w"
  have l: "tc_loop (conns w i) = L" using D(5) i by (simp add: conns_ok_def)
  have q: "queueInLoop L (ConnectDestroyed i) ?w = Inr w'"
    using run D(2,3) l
    by (auto simp: removeConnection_def runInLoop_def removeConnectionInLoop_def Let_def result_simps servers_ok_def)
  have a: "safe L W w ?w" by (rule plain_safe [OF wk]) (simp_all add: is_conn_def)
  from queue_shape [OF q] obtain log where
    w': "w' = (set_loop L (pendingFunctors_update (\<lambda>fs. fs @ [ConnectDestroyed i])) ?w)\<lparr>calls := log\<rparr>" by blast
  have "wired L ?w w'" by (rule wired_queue [OF _ q]) (simp add: D(2))
  then have "safe L W ?w w'" by (rule safe_step [OF safeD(2) [OF a]]) (simp_all add: w' is_conn_def)
  with a show ?thesis by (rule safe_trans)
qed

lemma close_safe:
  assumes inv: "server_inv L w0 X ts w" and wk: "wake_ok L W w" and i: "is_conn i w"
    and run: "handleClose (server_hooks A) i w = Inr w'"
  shows "safe L W w w'"
proof -
  note D = server_invD [OF inv]
  have ap: "apart L i w" by (rule settledD(3) [OF inv_settled [OF inv wk] i])
  from i obtain s where s: "tc_closeCB (conns w i) = Some s" by (auto simp: is_conn_def)
  from run obtain v where v: "Channel_disableAll (tc_channel (conns w i)) w = Inr v"
    "invoke (tc_closeCB (conns v i)) (\<lambda>k. onClose (server_hooks A) k i) v = Inr w'"
    by (auto simp: handleClose_def result_simps)
  have t: "tame L w v" using ap by (intro tame_ops(4) [OF D(1) _ _ v(1)]) (simp_all add: apart_def)
  then have q: "quiet L w v" by (simp add: tame_def)
  have "removeConnection s i v = Inr w'" using v(2) s quiet_conn(3) [OF q] by (simp add: invoke_def server_hooks_def)
  moreover note a = tame_safe [OF wk t]
  ultimately have "safe L W v w'"
    using i quiet_conn(5) [OF q] by (intro removal_safe [OF quiet_server_inv [OF inv q] safeD(2) [OF a]]) simp_all
  with a show ?thesis by (rule safe_trans)
qed

lemma react_safe:
  "server_inv L w0 X ts w \<Longrightarrow> wake_ok L W w \<Longrightarrow> react L P e w = Inr w' \<Longrightarrow> safe L W w w'"
  by (blast intro: tame_safe tame_react inv_settled)

lemma handleRead_safe:
  assumes inv: "server_inv L w0 X ts w" and wk: "wake_ok L W w" and i: "is_conn i w"
    and run: "handleRead (server_hooks (program_app L P)) i t w = Inr w'"
  shows "safe L W w w'"
proof -
  let ?fd = "ch_fd (chans w (tc_channel (conns w i)))"
  have ap: "apart L i w" by (rule settledD(3) [OF inv_settled [OF inv wk] i])
  from run obtain r e b v where rd: "readFd ?fd (tc_inputBuffer (conns w i)) w = Inr (r, e, b, v)"
    and rest: "(let v = set_conn i (tc_inputBuffer_update (\<lambda>_. b)) v; n = ssize_t_of r in
        if n > 0 then invoke (tc_msgCB (conns v i)) (\<lambda>k. onMessage (server_hooks (program_app L P)) k i t) v
        else if n = 0 then handleClose (server_hooks (program_app L P)) i v
        else handleError i v) = Inr w'"
    by (auto simp: handleRead_def bindE_eq_Inr simp del: Let_def)
  have "\<exists>len a. do_call (SysRead ?fd len) w = (a, v)"
    using rd by (auto simp: readFd_def do_call_def Let_def result_simps split: if_splits)
  then obtain len a where "do_call (SysRead ?fd len) w = (a, v)" by blast
  moreover have "neutral (wakeupFd (loops w L)) (SysRead ?fd len)" using ap by (intro neutral_simps) (simp add: apart_def)
  ultimately have t1: "tame L w v" by (rule tame_call [OF server_invD(1) [OF inv]])
  let ?v = "set_conn i (tc_inputBuffer_update (\<lambda>_. b)) v"
  have t2: "tame L v ?v" by (rule tame_set_conn [OF tame_link [OF t1]]) (simp_all add: conn_key_def)
  note t = tame_trans [OF t1 t2]
  have q: "quiet L w ?v" using t by (simp add: tame_def)
  note inv' = quiet_server_inv [OF inv q] and a = tame_safe [OF wk t]
  have i': "is_conn i ?v" using i quiet_conn(5) [OF q] by simp
  consider k where "react L P (OnMessage k i t) ?v = Inr w'"
    | "handleClose (server_hooks (program_app L P)) i ?v = Inr w'"
    using rest by (auto simp: Let_def invoke_def handleError_def server_hooks_def program_app_def
        simp del: set_conn_simps split: if_splits option.splits)
  then have "safe L W ?v w'" using close_safe [OF inv' safeD(2) [OF a] i'] react_safe [OF inv' safeD(2) [OF a]] by cases
  with a show ?thesis by (rule safe_trans)
qed

lemma handleWrite_safe:
  "server_inv L w0 X ts w \<Longrightarrow> wake_ok L W w \<Longrightarrow> is_conn i w \<Longrightarrow> handleWrite i w = Inr w' \<Longrightarrow> safe L W w w'"
  by (blast intro: tame_safe tame_write inv_settled settledD(3))

lemma established_safe:
  assumes inv: "server_inv L w0 X ts w" and wk: "wake_ok L W w" and i: "is_conn i w"
    and run: "connectEstablished (server_hooks (program_app L P)) i w = Inr w'"
  shows "safe L W w w'"
proof -
  note D = server_invD [OF inv]
  have ap: "apart L i w" by (rule settledD(3) [OF inv_settled [OF inv wk] i])
  let ?u = "setState i kConnected w"
  from run obtain v where v: "Channel_enableReading (tc_channel (conns w i)) ?u = Inr v"
    "invoke (tc_connCB (conns v i)) (\<lambda>k. onConnection (server_hooks (program_app L P)) k i) v = Inr w'"
    and st: "tc_state (conns w i) = kConnecting"
    by (auto simp: connectEstablished_def result_simps)
  have t1: "tame L w ?u" unfolding setState_def
    by (rule tame_set_conn [OF D(1)]) (simp_all add: conn_key_def st state_moves_def)
  have "tc_channel (conns w i) < next_object ?u" using ap by (simp add: apart_def setState_def)
  from tame_ops(1) [OF tame_link [OF t1] this v(1)] t1 have t: "tame L w v" by (blast intro: tame_trans)
  then have q: "quiet L w v" by (simp add: tame_def)
  note inv' = quiet_server_inv [OF inv q] and a = tame_safe [OF wk t]
  have "safe L W v w'"
  proof (cases "tc_connCB (conns v i)")
    case (Some k)
    then have "react L P (OnConnection k i) v = Inr w'"
      using v(2) by (simp add: invoke_def server_hooks_def program_app_def)
    then show ?thesis by (rule react_safe [OF inv' safeD(2) [OF a]])
  qed (use v(2) in \<open>simp add: invoke_def\<close>)
  with a show ?thesis by (rule safe_trans)
qed

text \<open>The poller takes no second channel for the eventfd: a descriptor that can be entered is another one.\<close>

lemma enrolled_apart:
  assumes inv: "reactor_inv w" and wake: "wake_entry l w" and c: "c \<noteq> wakeupChannel (loops w l)"
    and ch: "ch_loop (chans w c) = l" "0 \<le> ch_fd (chans w c)" and run: "Channel_update c w = Inr w'"
  shows "ch_fd (chans w c) \<noteq> wakeupFd (loops w l)"
proof -
  from update_entries [OF inv ch(2) run] have "joinable c (own_poller c w) \<or> enrolled c (own_poller c w)" by blast
  then show ?thesis using wake_entryD(1) [OF inv wake] c by (auto simp: joinable_def enrolled_def own_poller_def ch(1))
qed

lemma enter_wired:
  assumes wk: "wake_ok L W w"
  shows "wired L w (enter_conn s name cn ch w)"
proof -
  have W: "wakeupChannel (loops w L) = W" "W \<noteq> next_object w" using wake_okD(1,4) [OF wk] by auto
  show ?thesis
  proof (rule wired_unseen)
    assume "wake_entry L w"
    then show "wake_entry L (enter_conn s name cn ch w)" by (rule wake_entry_same) (use W in simp_all)
  qed (use W in \<open>simp_all add: enter_conn_def set_server_def Let_def\<close>)
qed

lemma enter_safe:
  assumes wk: "wake_ok L W w" and cn: "tc_closeCB cn = Some s"
    and ch: "ch_fd ch \<noteq> wakeupFd (loops w L)" "\<And>l. LoopHandleRead l \<notin> bound_callbacks ch"
  shows "safe L W w (enter_conn s name cn ch w)"
proof -
  let ?w = "enter_conn s name cn ch w"
  have W: "W \<noteq> next_object w" using wake_okD(4) [OF wk] by auto
  have ic: "is_conn i ?w \<longleftrightarrow> i = next_object w \<or> is_conn i w" for i by (auto simp: is_conn_def cn)
  note wi = enter_wired [OF wk, of s name cn ch]
  have "wake_ok L W ?w"
    using wk wiredD(5) [OF wi] W ch unfolding wake_ok_def ic by auto
  with wi show ?thesis by (simp add: safe_def)
qed

lemma new_connection_safe:
  assumes inv: "server_inv L w0 X ts w" and wk: "wake_ok L W w" and fd: "0 \<le> connfd"
    and run: "newConnection (program_app L P) s connfd pa w = Inr w'"
  shows "safe L W w w'"
proof (rule new_connection_entered [OF inv fd run])
  let ?i = "next_object w" and ?w1 = "set_server s (srv_nextConnId_update (\<lambda>n. n + 1)) w"
  fix a name cn ch v
  let ?w2 = "?w1\<lparr>calls := calls w @ [(SysGetsockname connfd, a)]\<rparr>"
  assume v: "v = enter_conn s name cn ch ?w2"
    and est: "connectEstablished (server_hooks (program_app L P)) ?i v = Inr w'" and inv': "server_inv L w0 X ts v"
    and cn: "tc_channel cn = ?i" "tc_closeCB cn = Some s" and ch: "ch_fd ch = connfd" "ch_loop ch = L"
      "bound_callbacks ch = {ConnHandleRead ?i, ConnHandleWrite ?i, ConnHandleClose ?i, ConnHandleError ?i}"
  have a1: "safe L W w ?w1" by (rule plain_safe [OF wk]) (simp_all add: is_conn_def)
  have "wired L ?w1 (?w1\<lparr>calls := calls ?w1 @ [(SysGetsockname connfd, a)]\<rparr>)" by (rule wired_calls) simp
  then have "wired L ?w1 ?w2" by simp
  then have a2: "safe L W ?w1 ?w2" by (rule safe_step [OF safeD(2) [OF a1]]) (simp_all add: is_conn_def)
  note wk2 = safeD(2) [OF a2]
  have "ch_fd ch \<noteq> wakeupFd (loops ?w2 L)"
  proof -
    let ?u = "set_chan ?i (apply_mask EnableReading) (setState ?i kConnected v)"
    from est obtain u where u: "Channel_update ?i ?u = Inr u"
      using cn by (auto simp: connectEstablished_def result_simps channel_ops_mask v setState_def)
    have re: "reactor_inv ?u" using server_invD(1) [OF inv']
      by (intro reactor_inv_set_chan) (simp_all add: link_ok_def setState_def reactor_inv_def add_reading_def)
    have i: "?i \<noteq> W" using wake_okD(4) [OF wk] by auto
    have "wake_entry L v" unfolding v by (rule wiredD(5) [OF enter_wired [OF wk2] wake_okD(2) [OF wk2]])
    then have wake: "wake_entry L ?u"
      by (rule wake_entry_same) (use i wake_okD(1) [OF wk2] in \<open>simp_all add: setState_def v\<close>)
    show ?thesis using enrolled_apart [OF re wake _ _ _ u] i wake_okD(1) [OF wk2] ch fd
      by (simp add: v setState_def add_reading_def)
  qed
  then have a3: "safe L W ?w2 v" unfolding v by (intro enter_safe [OF wk2 cn(2)]) (simp_all add: ch)
  have "safe L W v w'"
    by (rule established_safe [OF inv' safeD(2) [OF a3] _ est]) (simp add: v is_conn_def cn)
  with a1 a2 a3 show ?thesis by (blast intro: safe_trans)
qed

lemma acceptor_safe:
  assumes inv: "server_inv L w0 X ts w" and wk: "wake_ok L W w"
    and run: "Acceptor_handleNewConnection be (program_app L P) a w = Inr w'"
  shows "safe L W w w'"
proof -
  obtain r v where v: "do_call (SysAccept4 (acc_socket (acceptors w a))) w = (r, v)" by fastforce
  have t: "tame L w v" by (rule tame_call [OF server_invD(1) [OF inv] v]) simp
  then have q: "quiet L w v" by (simp add: tame_def)
  note a = tame_safe [OF wk t] and inv' = quiet_server_inv [OF inv q]
  have "isInLoopThread (acc_loop (acceptors w a)) w" using run by (simp add: Acceptor_handleNewConnection_def result_simps)
  then have "Acceptor_handleNewConnection be (program_app L P) a w =
      (if 0 \<le> ret r then case acc_newConnCB (acceptors v a) of
         Some s \<Rightarrow> newConnection (program_app L P) s (ret r) (peer r) v | None \<Rightarrow> FileDescriptor_close (ret r) v
       else Inr v)"
    by (simp add: Acceptor_handleNewConnection_def Socket_accept_def v)
  note eq = trans [OF this [symmetric] run]
  have "w' = v \<or> (\<exists>s. 0 \<le> ret r \<and> newConnection (program_app L P) s (ret r) (peer r) v = Inr w')
      \<or> FileDescriptor_close (ret r) v = Inr w'"
    using eq by (cases "0 \<le> ret r"; cases "acc_newConnCB (acceptors v a)") auto
  then have "safe L W v w'"
  proof (elim disjE exE conjE)
    assume "w' = v"
    then show ?thesis using safeD(2) [OF a] by (simp add: safe_def)
  next
    fix s assume "0 \<le> ret r" "newConnection (program_app L P) s (ret r) (peer r) v = Inr w'"
    then show ?thesis by (rule new_connection_safe [OF inv' safeD(2) [OF a]])
  next
    assume "FileDescriptor_close (ret r) v = Inr w'"
    then obtain b where "do_call (SysClose (ret r)) v = (b, w')"
      by (auto simp: FileDescriptor_close_def do_call_def Let_def result_simps)
    then have "tame L v w'" by (rule tame_call [OF tame_link [OF t]]) simp
    then show ?thesis by (rule tame_safe [OF safeD(2) [OF a]])
  qed
  with a show ?thesis by (rule safe_trans)
qed

lemma listen_safe:
  assumes inv: "server_inv L w0 X ts w" and wk: "wake_ok L W w" and run: "Acceptor_listen a w = Inr w'"
  shows "safe L W w w'"
proof -
  note D = server_invD [OF inv]
  let ?w = "set_acceptor a (acc_listenning_update (\<lambda>_. True)) w" and ?c = "acc_channel (acceptors w a)"
  obtain r v where v: "do_call (SysListen (acc_socket (acceptors w a)) SOMAXCONN) ?w = (r, v)" by fastforce
  then have on: "Channel_enableReading ?c v = Inr w'"
    using run by (simp add: Acceptor_listen_def Socket_listen_def result_simps set_acceptor_def)
  have q: "quiet L w ?w" by (rule quiet_plain [OF D(1), where fs = "[]"]) (simp_all add: set_acceptor_def)
  have t1: "tame L w ?w" using q wired_plain [of ?w w L] by (simp add: tame_def set_acceptor_def)
  have t2: "tame L ?w v" by (rule tame_call [OF tame_link [OF t1] v]) simp
  have "?c < next_object v" using D(4) [of a] v by (auto simp: set_acceptor_def do_call_def Let_def)
  from tame_ops(1) [OF tame_link [OF t2] this on] t1 t2 have "tame L w w'" by (blast intro: tame_trans)
  then show ?thesis by (rule tame_safe [OF wk])
qed

section \<open>Callbacks and functors\<close>

lemma remove_safe:
  assumes inv: "reactor_inv w" and wk: "wake_ok L W w" and c: "c \<noteq> W" and run: "EventLoop_removeChannel l c w = Inr w'"
  shows "safe L W w w'"
proof -
  from removeChannel_returned [OF inv run] obtain p chs where
    w': "w' = (set_loop l (loop_poller_update (\<lambda>_. p)) w)\<lparr>chans := chs\<rparr>"
    and fr: "\<forall>d. \<exists>k. chs d = (chans w d)\<lparr>ch_index := k\<rparr>" by blast
  have "chan_links (chs d) = chan_links (chans w d)" for d
    using fr [rule_format, of d] by (auto simp: chan_links_def bound_callbacks_def)
  moreover have "wired L w w'" by (rule wired_remove [OF inv _ run]) (use c wake_okD(1) [OF wk] in simp)
  ultimately show ?thesis by (intro safe_step [OF wk]) (simp_all add: w' is_conn_def)
qed

lemma destroyed_safe:
  assumes dying: "server_inv L w0 {} (ConnectDestroyed i # ts) w" and wk: "wake_ok L W w"
    and run: "connectDestroyed (server_hooks (program_app L P)) i w = Inr w'"
  shows "safe L W w w'"
proof -
  let ?w = "setState i kDisconnected w"
  note inv = dying_inv [OF dying]
  have i1: "is_conn i ?w" using server_invD(7) [OF dying] by (simp add: tasks_ok_def is_conn_def setState_def)
  from run obtain v u where v: "Channel_disableAll (tc_channel (conns w i)) ?w = Inr v"
    and u: "invoke (tc_connCB (conns v i)) (\<lambda>k. onConnection (server_hooks (program_app L P)) k i) v = Inr u"
    "EventLoop_removeChannel (tc_loop (conns u i)) (tc_channel (conns u i)) u = Inr w'"
    by (auto simp: connectDestroyed_def result_simps)
  have a1: "safe L W w ?w" by (rule plain_safe [OF wk]) (simp_all add: is_conn_def setState_def)
  note wk1 = safeD(2) [OF a1]
  have ap: "apart L i ?w" by (rule settledD(3) [OF inv_settled [OF inv wk1] i1])
  have "tc_channel (conns ?w i) = tc_channel (conns w i)" by (simp add: setState_def)
  with ap have t1: "tame L ?w v" by (intro tame_ops(4) [OF server_invD(1) [OF inv] _ _ v]) (simp_all add: apart_def)
  then have q1: "quiet L ?w v" by (simp add: tame_def)
  note inv2 = quiet_server_inv [OF inv q1] and a2 = tame_safe [OF wk1 t1]
  have t2: "tame L v u"
  proof (cases "tc_connCB (conns v i)")
    case (Some k)
    then have "react L P (OnConnection k i) v = Inr u"
      using u(1) by (simp add: invoke_def server_hooks_def program_app_def)
    then show ?thesis by (rule tame_react [OF inv_settled [OF inv2 safeD(2) [OF a2]]])
  qed (use u(1) in \<open>simp add: invoke_def\<close>)
  then have q2: "quiet L v u" by (simp add: tame_def)
  note inv3 = quiet_server_inv [OF inv2 q2] and a3 = tame_safe [OF safeD(2) [OF a2] t2]
  have i3: "is_conn i u" using i1 quiet_conn(5) [OF q1] quiet_conn(5) [OF q2] by simp
  then have c: "tc_channel (conns u i) = i" "i \<noteq> W"
    using server_invD(5) [OF inv3] wake_okD(5) [OF safeD(2) [OF a3]] by (auto simp: conns_ok_def)
  have "safe L W u w'"
    by (rule remove_safe [OF _ safeD(2) [OF a3] _ u(2)]) (use server_invD(1) [OF inv3] c in \<open>simp_all add: link_ok_def\<close>)
  with a1 a2 a3 show ?thesis by (blast intro: safe_trans)
qed

lemma program_safe:
  "server_inv L w0 X ts w \<Longrightarrow> wake_ok L W w \<Longrightarrow> app_functor (program_app L P) f w = Inr w' \<Longrightarrow> safe L W w w'"
  "server_inv L w0 X ts w \<Longrightarrow> wake_ok L W w \<Longrightarrow> app_callback (program_app L P) cb t w = Inr w' \<Longrightarrow> safe L W w w'"
  "server_inv L w0 X ts w \<Longrightarrow> wake_ok L W w \<Longrightarrow> app_writeComplete (program_app L P) k i w = Inr w' \<Longrightarrow> safe L W w w'"
  by (simp_all add: program_app_def react_safe)

lemma exec_safe:
  assumes inv: "server_inv L w0 {} (f # fs) w" and wk: "wake_ok L W w" and run: "server_exec (program_app L P) f w = Inr w'"
  shows "safe L W w w'"
proof (cases "harmless f")
  case True
  note inv' = harmless_head [OF inv True]
  show ?thesis using True run
    by (cases f) (auto intro: listen_safe [OF inv' wk] program_safe [OF inv' wk])
next
  case False
  then obtain i where "f = ConnectDestroyed i" using server_invD(7) [OF inv] by (auto simp: tasks_ok_def)
  with inv wk run destroyed_safe show ?thesis by simp
qed

lemma call_safe:
  assumes inv: "server_inv L w0 {} [] w" and wk: "wake_ok L W w"
    and cb: "cb \<in> bound_callbacks (chans w c)" "\<And>l. cb = LoopHandleRead l \<Longrightarrow> c \<noteq> W"
    and run: "server_call be (program_app L P) cb t w = Inr w'"
  shows "safe L W w w'"
proof -
  have ok: "callback_ok w c cb" using server_invD(9) [OF inv] cb by (auto simp: callbacks_ok_def)
  show ?thesis
  proof (cases cb)
    case (LoopHandleRead l)
    with cb wake_okD(6) [OF wk] show ?thesis by blast
  next
    case (ConnHandleError i)
    then obtain a where "do_call (SysGetsockoptError (tc_conn (conns w i))) w = (a, w')"
      using run by (auto simp: handleError_def Socket_getSocketErr_def Let_def split: prod.splits)
    then have "tame L w w'" by (rule tame_call [OF server_invD(1) [OF inv]]) simp
    then show ?thesis by (rule tame_safe [OF wk])
  qed (use run ok in \<open>auto intro: acceptor_safe [OF inv wk] handleRead_safe [OF inv wk] handleWrite_safe [OF inv wk]
         close_safe [OF inv wk] program_safe [OF inv wk]\<close>)
qed

section \<open>The server as a client of the protocol\<close>

lemma loop_wake_ok:
  assumes wk: "wake_ok L W w" and f: "\<And>el. loop_poller (f el) = loop_poller el" "\<And>el. wakeupFd (f el) = wakeupFd el"
    "\<And>el. wakeupChannel (f el) = wakeupChannel el"
  shows "wake_ok L W (set_loop L f w)"
  by (rule wake_ok_kept [OF wk], rule wake_entry_same [OF wake_okD(2) [OF wk]]) (simp_all add: f is_conn_def)

lemma handling_wake_ok: "wake_ok L W w \<Longrightarrow> wake_ok L W (set_chan c (ch_eventHandling_update (\<lambda>_. b)) w)"
  by (rule wake_ok_kept, assumption, rule wake_entry_same [OF wake_okD(2)], assumption)
    (auto simp: is_conn_def chan_links_def bound_callbacks_def)

lemma calls_wake_ok: "wake_ok L W w \<Longrightarrow> wake_ok L W (w\<lparr>calls := log\<rparr>)"
  by (rule wake_ok_kept, assumption, rule wake_entry_same [OF wake_okD(2)], assumption) (simp_all add: is_conn_def)

lemma poll_wake_ok:
  assumes inv: "reactor_inv w" and wk: "wake_ok L W w" and run: "loop_poll L w = Inr w'"
  shows "wake_ok L W w'"
proof -
  note P = poll_wake_entry [OF inv wake_okD(2) [OF wk] run]
  from loop_poll_returned [OF inv run] obtain t act p chs log where
    w': "w' = (set_loop L (\<lambda>el. el\<lparr>pollReturnTime := t, activeChannels := act, loop_poller := p\<rparr>) w)
       \<lparr>calls := log, chans := chs\<rparr>"
    and fr: "\<forall>c. \<exists>r. chs c = (chans w c)\<lparr>ch_revents := r\<rparr>" by blast
  have "chan_links (chs c) = chan_links (chans w c)" "ch_readCallback (chs c) = ch_readCallback (chans w c)" for c
    using fr [rule_format, of c] by (auto simp: chan_links_def bound_callbacks_def)
  then show ?thesis using P by (intro wake_ok_kept [OF wk]) (simp_all add: w' is_conn_def)
qed

lemma call_wake_ok:
  assumes inv: "server_inv L w0 {} [] w" and wk: "wake_ok L W w" and cb: "cb \<in> bound_callbacks (chans w c)"
    and run: "server_call be (program_app L P) cb t w = Inr w'"
  shows "wake_ok L W w'"
proof (cases "\<exists>l. cb = LoopHandleRead l")
  case True
  then obtain log where "w' = w\<lparr>calls := log\<rparr>"
    using run by (auto simp: EventLoop_handleRead_def do_call_def Let_def result_simps)
  then show ?thesis using calls_wake_ok [OF wk] by simp
next
  case False
  then show ?thesis using safeD(2) [OF call_safe [OF inv wk cb _ run]] by blast
qed

interpretation server_protocol: protocol_client L "server_call be (program_app L P)" "server_exec (program_app L P)"
    "\<lambda>ts w. server_inv L w0 {} ts w \<and> wake_ok L W w" W for be L w0 P W
proof unfold_locales
  fix w w' :: "'a world_scheme" and f fs cb c t b q
  show "server_inv L w0 {} [] w \<and> wake_ok L W w \<Longrightarrow> loop_poll L w = Inr w' \<Longrightarrow> server_inv L w0 {} [] w' \<and> wake_ok L W w'"
    by (blast intro: poll_inv poll_wake_ok inv_reactor)
  show "server_inv L w0 {} [] w \<and> wake_ok L W w \<Longrightarrow>
      server_inv L w0 {} [] (set_chan c (ch_eventHandling_update (\<lambda>_. b)) w) \<and> wake_ok L W (set_chan c (ch_eventHandling_update (\<lambda>_. b)) w)"
    by (blast intro: handling_inv handling_wake_ok)
  show "server_inv L w0 {} [] w \<and> wake_ok L W w \<Longrightarrow> cb \<in> bound_callbacks (chans w c) \<Longrightarrow>
      server_call be (program_app L P) cb t w = Inr w' \<Longrightarrow> server_inv L w0 {} [] w' \<and> wake_ok L W w'"
    by (blast intro: keptD(1) [OF call_kept] call_wake_ok)
  show "server_inv L w0 {} [] w \<and> wake_ok L W w \<Longrightarrow> server_inv L w0 {} [] (set_loop L (callingPendingFunctors_update (\<lambda>_. b)) w)
      \<and> wake_ok L W (set_loop L (callingPendingFunctors_update (\<lambda>_. b)) w)"
    by (elim conjE, intro conjI loop_flags_inv loop_wake_ok) simp_all
  show "server_inv L w0 {} [] w \<and> wake_ok L W w \<Longrightarrow>
      server_inv L w0 {} (pendingFunctors (loops w L)) (set_loop L (pendingFunctors_update (\<lambda>_. [])) w)
      \<and> wake_ok L W (set_loop L (pendingFunctors_update (\<lambda>_. [])) w)"
    by (elim conjE, intro conjI swap_inv loop_wake_ok) simp_all
  show "server_inv L w0 {} (f # fs) w \<and> wake_ok L W w \<Longrightarrow> server_exec (program_app L P) f w = Inr w' \<Longrightarrow>
      server_inv L w0 {} fs w' \<and> wake_ok L W w'"
    by (blast intro: keptD(1) [OF exec_kept] safeD(2) [OF exec_safe])
  show "server_inv L w0 {} [] w \<and> wake_ok L W w \<Longrightarrow> server_inv L w0 {} [] (set_loop L (\<lambda>el. el\<lparr>looping := b, quit := q\<rparr>) w)
      \<and> wake_ok L W (set_loop L (\<lambda>el. el\<lparr>looping := b, quit := q\<rparr>) w)"
    by (elim conjE, intro conjI loop_flags_inv loop_wake_ok) simp_all
  show "server_inv L w0 {} [] w \<and> wake_ok L W w \<Longrightarrow> reactor_inv w \<and> wakeupChannel (loops w L) = W \<and> wake_entry L w
      \<and> ch_readCallback (chans w W) = Some (LoopHandleRead L)"
    by (blast intro: inv_reactor dest: wake_okD(1-3))
  show "server_call be (program_app L P) (LoopHandleRead L) t = EventLoop_handleRead L" by (rule ext) simp
  show "server_inv L w0 {} [] w \<and> wake_ok L W w \<Longrightarrow> cb \<in> bound_callbacks (chans w c) \<Longrightarrow> c \<noteq> W \<Longrightarrow>
      server_call be (program_app L P) cb t w = Inr w' \<Longrightarrow> wired L w w'"
    by (blast intro: safeD(1) [OF call_safe])
  show "server_inv L w0 {} (f # fs) w \<and> wake_ok L W w \<Longrightarrow> server_exec (program_app L P) f w = Inr w' \<Longrightarrow> wired L w w'"
    by (blast intro: safeD(1) [OF exec_safe])
qed

section \<open>Before the loop is started\<close>

lemma new_loop_wiring:
  assumes "EventLoop_ctor L c (new_process answers L n) = Inr w"
  shows "wakeupFd (loops w L) = ret (answers 0)" "wakeupChannel (loops w L) = c" "wake_entry L w"
    "\<not> callingPendingFunctors (loops w L)" "\<not> quit (loops w L)"
  using assms
  by (auto simp: EventLoop_ctor_def createEventfd_def do_call_def Let_def set_chan_def set_loop_def
      Channel_enableReading_def Channel_update_def EventLoop_updateChannel_def with_poller_def
      Poller_updateChannel_def Channel_ctor_def Poller_ctor_def isInLoopThread_def add_reading_def
      new_process_def wake_entry_def entry_of_def result_simps)

text \<open>Every configured loop is described by the protocol before \<open>startLoop\<close>.\<close>

definition opened :: "nat \<Rightarrow> 'a world_scheme \<Rightarrow> bool" where
  "opened L w \<longleftrightarrow> (\<exists>W s. wake_ok L W w \<and> reachable s \<and> owes s = 0 \<and> describes L w s \<and> pc s = BeforeStart \<and> \<not> self_owes s)"

lemma opened_step:
  assumes "opened L w" "\<And>W. wake_ok L W w \<Longrightarrow> safe L W w w'"
  shows "opened L w'"
proof -
  from assms(1) obtain W s where s: "wake_ok L W w" "reachable s" "owes s = 0" "describes L w s" "pc s = BeforeStart" "\<not> self_owes s"
    unfolding opened_def by blast
  note a = assms(2) [OF s(1)]
  from wiredD(6) [OF safeD(1) [OF a]] s obtain t where t: "own_step\<^sup>*\<^sup>* s t" "describes L w' t" "\<not> self_owes t"
    unfolding own_sim_def by auto
  have "reachable t" "owes t = 0" using solo_steps_reachable [OF own_steps_solo [OF t(1)] s(2)] s(3) by simp_all
  then show ?thesis using t own_steps_frame [OF t(1)] s(5) safeD(2) [OF a] unfolding opened_def by metis
qed

lemma new_loop_opened:
  assumes c: "c < n" and run: "EventLoop_ctor L c (new_process answers L n) = Inr w"
  shows "opened L w"
proof -
  let ?s = "\<lparr>pc = BeforeStart, calling = False, quitting = False, pending = [],
     counter = 0, self_owes = False, owes = 0, pushed = [], executed = [], early = False\<rparr>"
  note N = new_loop_wiring [OF run]
  from new_loop_shape(2) [OF run] obtain lp k where
    w: "w = (new_process answers L n)\<lparr>calls := [(SysEventfd, answers 0)], t_loop := [0 \<mapsto> L],
     loops := idle_loop(L := lp), chans := (\<lambda>_. Channel_ctor L 0)(c := (Channel_ctor L (ret (answers 0)))\<lparr>ch_readCallback :=
       Some (LoopHandleRead L), ch_events := kReadEvent, ch_index := k\<rparr>)\<rparr>" and lp: "pendingFunctors lp = []" by blast
  have f: "next_object w = n" "\<not> is_conn i w" "ch_readCallback (chans w c) = Some (LoopHandleRead L)" for i
    by (simp_all add: w new_process_def is_conn_def blank_conn_def)
  have "d = c" if "LoopHandleRead l \<in> bound_callbacks (chans w d)" for d l
    using that by (cases "d = c") (simp_all add: w bound_callbacks_def Channel_ctor_def)
  then have "wake_ok L c w" unfolding wake_ok_def using N(2,3) c by (simp add: f)
  moreover have "reachable ?s" by (rule reach_start) (simp add: protocol_start_def)
  moreover have "describes L w ?s" using N lp by (simp add: describes_def) (simp add: w counter_of_def)
  ultimately show ?thesis unfolding opened_def by (intro exI [of _ c] exI [of _ ?s]) simp
qed

lemma new_server_safe:
  assumes up: "set_up L w" and c: "\<not> registered c w" and run: "TcpServer_ctor be s a c L addr w = Inr w'"
    and wk: "wake_ok L W w"
  shows "safe L W w w'"
proof -
  from run obtain fd log where w': "conns w' = conns w" "loops w' = loops w" "next_object w' = next_object w"
    "chans w' = (chans w)(c := (Channel_ctor L fd)\<lparr>ch_readCallback := Some (AcceptorHandleNewConnection a)\<rparr>)"
    and calls: "calls w' = calls w @ log" "\<forall>ca \<in> set log. neutral (wakeupFd (loops w L)) (fst ca)"
    by (auto simp: TcpServer_ctor_def Acceptor_ctor_def Acceptor_setNewConnectionCallback_def
      Socket_createNonblockingOrDie_def Socket_setReuseAddr_def Socket_bindAddress_def do_call_def Let_def
      result_simps set_chan_def set_acceptor_def)
  have inv: "server_inv L w {} [] w" and none: "\<not> is_conn i w" for i using up by (simp_all add: set_up_def)
  have W: "c \<noteq> W" using c wake_entryD(5) [OF inv_reactor [OF inv] wake_okD(2) [OF wk]] wake_okD(1) [OF wk] by auto
  have wake: "wake_entry L w'"
    by (rule wake_entry_same [OF wake_okD(2) [OF wk]]) (use W wake_okD(1) [OF wk] in \<open>simp_all add: w'\<close>)
  have n: "counter_of (wakeupFd (loops w L)) (calls w') = counter_of (wakeupFd (loops w L)) (calls w)"
    using neutral_calls_count [OF calls(2)] by (simp add: calls(1))
  have "wired L w w'"
    by (rule wired_unseen) (use W wake_okD(1) [OF wk] wake n in \<open>simp_all add: w'\<close>)
  moreover have cbs: "bound_callbacks (chans w' d) = (if d = c then {AcceptorHandleNewConnection a} else bound_callbacks (chans w d))"
    for d by (simp add: w' bound_callbacks_def Channel_ctor_def)
  have "\<not> is_conn i w'" for i using none [of i] by (simp add: is_conn_def w')
  then have "wake_ok L W w'" unfolding wake_ok_def cbs
    using wake_okD(1,3,4,6) [OF wk] wake W by (simp add: w'(2,3)) (simp add: w'(4), blast)
  ultimately show ?thesis by (simp add: safe_def)
qed

lemma configured_opened: "configured L w \<Longrightarrow> opened L w"
proof (induction rule: configured.induct)
  case (new_loop c n answers w)
  then show ?case by (rule new_loop_opened)
next
  case (new_server w c be s a addr w')
  show ?case
    by (rule opened_step [OF new_server(5)], rule new_server_safe [OF configured_set_up [OF new_server(1)] new_server(3,4)])
next
  case (threads w s n w')
  then show ?case
    by (intro opened_step [OF threads(3)] plain_safe)
      (auto simp: TcpServer_setThreadNum_def result_simps is_conn_def)
next
  case (on_connection w s k)
  show ?case
    by (rule opened_step [OF on_connection(2)], rule plain_safe) (simp_all add: TcpServer_setConnectionCallback_def is_conn_def)
next
  case (on_message w s k)
  show ?case
    by (rule opened_step [OF on_message(2)], rule plain_safe) (simp_all add: TcpServer_setMessageCallback_def is_conn_def)
next
  case (on_write w s k)
  show ?case
    by (rule opened_step [OF on_write(2)], rule plain_safe) (simp_all add: TcpServer_setWriteCompleteCallback_def is_conn_def)
next
  case (started w s w')
  let ?v = "if \<not> srv_started (servers w s) then set_server s (srv_started_update (\<lambda>_. True)) w else w"
  have inv: "server_inv L w {} [] w" using configured_set_up [OF started(1)] by (simp add: set_up_def)
  then have inv': "server_inv L w {} [] ?v" using configure_inv(5) [OF inv] by simp
  have own: "isInLoopThread (srv_loop (servers w s)) w" using server_invD(2,3) [OF inv] by (simp add: servers_ok_def)
  show ?case
  proof (rule opened_step [OF started(3)])
    fix W assume wk: "wake_ok L W w"
    have a: "safe L W w ?v" by (rule plain_safe [OF wk]) (simp_all add: is_conn_def)
    from start_cases [OF own started(2) refl] have "w' = ?v \<or> (\<exists>a. Acceptor_listen a ?v = Inr w')" .
    then show "safe L W w w'" using a listen_safe [OF inv' safeD(2) [OF a]] safe_trans [OF a] by blast
  qed
next
  case (queued w k w')
  have inv: "server_inv L w {} [] w" using configured_set_up [OF queued(1)] by (simp add: set_up_def)
  show ?case
    by (rule opened_step [OF queued(3)], rule tame_safe, assumption, rule tame_queue [OF server_invD(1,2) [OF inv] _ queued(2)]) simp
qed

section \<open>The runs of a server\<close>

text \<open>A run whose polls treat the eventfd as documented; \<open>n\<close> is the number of turns.\<close>

inductive observed :: "bool \<Rightarrow> (user_event \<Rightarrow> world \<Rightarrow> user_op list) \<Rightarrow> nat \<Rightarrow> nat \<Rightarrow> world \<Rightarrow> bool" for be P L where
  opens: "configured L w \<Longrightarrow> observed be P L 0 (entering L w)"
| goes_on: "observed be P L n u \<Longrightarrow> \<not> quit (loops u L) \<Longrightarrow> eventfd_polled L u \<Longrightarrow>
     loop_turn (server_call be (program_app L P)) (server_exec (program_app L P)) L u = Inr v \<Longrightarrow> observed be P L (Suc n) v"

text \<open>At its test of \<open>_quit\<close> the loop is described by a reachable state of the protocol.\<close>

definition at_test :: "nat \<Rightarrow> world \<Rightarrow> protocol \<Rightarrow> bool" where
  "at_test L u s \<longleftrightarrow> reachable s \<and> owes s = 0 \<and> describes L u s \<and> pc s = AtTest \<and> \<not> self_owes s"

lemma entering_at_test:
  assumes "configured L w"
  shows "\<exists>W s. wake_ok L W (entering L w) \<and> at_test L (entering L w) s"
proof -
  from configured_opened [OF assms] obtain W s where s: "wake_ok L W w" "reachable s" "owes s = 0" "describes L w s"
    "pc s = BeforeStart" "\<not> self_owes s" unfolding opened_def by blast
  let ?s = "s\<lparr>pc := AtTest, quitting := False\<rparr>"
  have "reachable ?s" by (rule reach_step [OF s(2)], rule by_turn, rule enter [OF s(5,6)])
  moreover have "describes L (entering L w) ?s" using s(4) by (simp add: describes_def entering_def)
  moreover have "wake_ok L W (entering L w)" unfolding entering_def by (rule loop_wake_ok [OF s(1)]) simp_all
  ultimately show ?thesis using s(3,6) unfolding at_test_def by (intro exI [of _ W] exI [of _ ?s]) simp
qed

lemma turn_at_test:
  assumes inv: "server_inv L u {} [] u" "wake_ok L W u" and s: "at_test L u s"
    and go: "\<not> quit (loops u L)" "eventfd_polled L u"
      "loop_turn (server_call be (program_app L P)) (server_exec (program_app L P)) L u = Inr v"
  shows "wake_ok L W v \<and> (\<exists>s' fs. solo_step\<^sup>*\<^sup>* s s' \<and> at_test L v s' \<and> \<not> early s'
     \<and> executed s' = executed s @ pendingFunctors (loops u L) @ fs)"
proof -
  let ?s = "s\<lparr>pc := AtPoll\<rparr>"
  have d: "describes L u s" "pc s = AtTest" "\<not> self_owes s" "reachable s" "owes s = 0" using s by (simp_all add: at_test_def)
  then have "\<not> quitting s" using go(1) by (simp add: describes_def)
  then have st: "solo_step s ?s" by (intro solo_turn go_on d(2))
  have "describes L u ?s" using d(1) by (simp add: describes_def)
  from server_protocol.turn_sim [OF conjI [OF inv] go(2,3) this] d(3) obtain s' fs where
    s': "solo_step\<^sup>*\<^sup>* ?s s'" "describes L v s'" "pc s' = AtTest" "\<not> self_owes s'" "\<not> early s'"
      "executed s' = executed s @ pendingFunctors (loops u L) @ fs" by auto
  have run: "solo_step\<^sup>*\<^sup>* s s'" by (rule converse_rtranclp_into_rtranclp [OF st s'(1)])
  have "at_test L v s'" using solo_steps_reachable [OF run d(4)] d(5) s' by (simp add: at_test_def)
  moreover have "wake_ok L W v" using server_protocol.turn_keeps [OF conjI [OF inv] go(3)] by blast
  ultimately show ?thesis using run s'(5,6) by blast
qed

lemma observed_at_test:
  "observed be P L n u \<Longrightarrow> \<exists>W s. server_inv L u {} [] u \<and> wake_ok L W u \<and> at_test L u s \<and> (0 < n \<longrightarrow> \<not> early s)"
proof (induction rule: observed.induct)
  case (opens w)
  have "server_inv L (entering L w) {} [] (entering L w)" using reached_inv [OF enters [OF opens]] by blast
  with entering_at_test [OF opens] show ?case by blast
next
  case (goes_on n u v)
  then obtain W s where s: "server_inv L u {} [] u" "wake_ok L W u" "at_test L u s" by blast
  have "server_inv L v {} [] v" by (rule server_inv_here [OF server_loop.turn_keeps [OF s(1) goes_on(4)]])
  with turn_at_test [OF s goes_on(2-4)] show ?case by blast
qed

text \<open>The polls of a run that has not been told to quit.\<close>

definition polls_documented ::
  "(callback \<Rightarrow> timestamp \<Rightarrow> 'a reactor_scheme \<Rightarrow> 'a reactor_scheme result) \<Rightarrow> (task \<Rightarrow> 'a reactor_scheme \<Rightarrow> 'a reactor_scheme result)
    \<Rightarrow> nat \<Rightarrow> 'a reactor_scheme \<Rightarrow> bool" where
  "polls_documented call exec l w \<longleftrightarrow> (\<forall>n u. turns call exec l n w = Inr u \<and>
     (\<forall>m \<le> n. \<forall>v. turns call exec l m w = Inr v \<longrightarrow> \<not> quit (loops v l)) \<longrightarrow> eventfd_polled l u)"

lemma turns_snoc:
  "turns call exec l (Suc n) w = Inr v \<longleftrightarrow> (\<exists>u. turns call exec l n w = Inr u \<and> loop_turn call exec l u = Inr v)"
  by (induction n arbitrary: w) (auto simp: bindE_eq_Inr)

lemma turns_observed:
  assumes "configured L w"
    and "polls_documented (server_call be (program_app L P)) (server_exec (program_app L P)) L (entering L w)"
  shows "turns (server_call be (program_app L P)) (server_exec (program_app L P)) L n (entering L w) = Inr v \<Longrightarrow>
     \<forall>m < n. \<forall>u. turns (server_call be (program_app L P)) (server_exec (program_app L P)) L m (entering L w) = Inr u
       \<longrightarrow> \<not> quit (loops u L) \<Longrightarrow> observed be P L n v"
proof (induction n arbitrary: v)
  case 0
  then show ?case using opens [OF assms(1)] by simp
next
  case (Suc n)
  from Suc.prems(1) obtain u where
    u: "turns (server_call be (program_app L P)) (server_exec (program_app L P)) L n (entering L w) = Inr u"
    "loop_turn (server_call be (program_app L P)) (server_exec (program_app L P)) L u = Inr v"
    by (auto simp only: turns_snoc)
  have "observed be P L n u" by (rule Suc.IH [OF u(1)]) (use Suc.prems(2) less_SucI in blast)
  moreover have "\<not> quit (loops u L)" using Suc.prems(2) u(1) lessI by blast
  moreover have "eventfd_polled L u" using assms(2) u(1) Suc.prems(2) unfolding polls_documented_def
    by (simp add: less_Suc_eq_le)
  ultimately show ?case using u(2) by (rule observed.goes_on)
qed



text \<open>
  C8. The loop of a server never sleeps on a queued functor. After any number of turns, at least one, a functor that is
  queued at the start of the next turn was queued by a functor, and the eventfd was written: the poll of that turn reports the
  wake-up channel.
\<close>

theorem server_wakes_for_functors:
  assumes "observed be P L (Suc n) u" and "pendingFunctors (loops u L) \<noteq> []"
    and "eventfd_polled L u" and "loop_poll L u = Inr v"
  shows "wakeupChannel (loops u L) \<in> set (activeChannels (loops v L))"
proof -
  from observed_at_test [OF assms(1)] obtain W s where
    s: "server_inv L u {} [] u" "wake_ok L W u" "at_test L u s" "\<not> early s" by blast
  have d: "describes L u s" "pc s = AtTest" "\<not> self_owes s" "owes s = 0" "protocol_inv s"
    using s(3) protocol.reach_inv by (simp_all add: at_test_def)
  then have "0 < counter_of (wakeupFd (loops u L)) (calls u)"
    using protocol_invD(5) [OF d(5)] s(4) assms(2) by (auto simp: wake_due_def describes_def)
  then show ?thesis using poll_wakes(4) [OF inv_reactor [OF s(1)] wake_okD(2) [OF s(2)] assms(3,4) refl] by blast
qed

section \<open>A concrete run\<close>

text \<open>The server of \<open>ServerRuns.thy\<close> with another program: the connection callback queues functor 1, which queues
  functor 2, which leaves the loop. In the first turn a client is accepted; functor 1 writes to the eventfd, and so the second
  poll reports it.\<close>

definition woken_answers :: "answer list" where
  "woken_answers = [returns 5, returns 7, returns 0, returns 0, returns 0,
     (returns 1)\<lparr>ready := [0, POLLIN]\<rparr>, returns 0, returns 8, returns 0, returns 8,
     (returns 1)\<lparr>ready := [POLLIN, 0, 0]\<rparr>, returns 0, returns 8]"

definition queue_program :: "user_event \<Rightarrow> world \<Rightarrow> user_op list" where
  "queue_program e w = (case e of OnConnection k i \<Rightarrow> [UserQueue 1]
     | OnFunctor f \<Rightarrow> if f = UserFunctor 1 then [UserQueue 2] else [UserQuit] | _ \<Rightarrow> [])"

abbreviation queue_call :: "callback \<Rightarrow> timestamp \<Rightarrow> world \<Rightarrow> world result" where
  "queue_call \<equiv> server_call False (program_app 0 queue_program)"

abbreviation queue_exec :: "task \<Rightarrow> world \<Rightarrow> world result" where
  "queue_exec \<equiv> server_exec (program_app 0 queue_program)"

definition second_turn :: "world \<Rightarrow> bool" where
  "second_turn u \<longleftrightarrow> pendingFunctors (loops u 0) = [UserFunctor 2] \<and> \<not> quit (loops u 0) \<and> eventfd_polled 0 u
     \<and> ok_with (loop_turn queue_call queue_exec 0 u) (\<lambda>v. quit (loops v 0) \<and> pendingFunctors (loops v 0) = [])"

definition two_turns :: "world \<Rightarrow> bool" where
  "two_turns w \<longleftrightarrow> \<not> looping (loops w 0) \<and> isInLoopThread 0 w \<and> eventfd_polled 0 (entering 0 w)
     \<and> ok_with (loop_turn queue_call queue_exec 0 (entering 0 w)) second_turn"

lemma woken_run: "ok_with (listening woken_answers) two_turns"
  by (simp add: run_defs woken_answers_def queue_program_def two_turns_def second_turn_def eventfd_polled_def poll_answer_ok_def
      EventLoop_handleRead_def counter_of_def less_Suc_eq cong: bindE_weak_cong)

lemma queue_run:
  "\<exists>w u v. configured 0 w \<and> \<not> looping (loops w 0) \<and> isInLoopThread 0 w \<and> eventfd_polled 0 (entering 0 w)
     \<and> loop_turn queue_call queue_exec 0 (entering 0 w) = Inr u \<and> pendingFunctors (loops u 0) = [UserFunctor 2]
     \<and> \<not> quit (loops u 0) \<and> eventfd_polled 0 u \<and> observed False queue_program 0 1 u
     \<and> loop_turn queue_call queue_exec 0 u = Inr v \<and> quit (loops v 0) \<and> pendingFunctors (loops v 0) = []"
proof -
  from ok_withD [OF woken_run] obtain w where w: "listening woken_answers = Inr w" "two_turns w" by blast
  from listening_configured [OF w(1)] have c: "configured 0 w" using started threads by blast
  from w(2) obtain u where u: "\<not> looping (loops w 0)" "isInLoopThread 0 w" "eventfd_polled 0 (entering 0 w)"
    "loop_turn queue_call queue_exec 0 (entering 0 w) = Inr u" "second_turn u"
    unfolding two_turns_def by (blast dest: ok_withD)
  then obtain v where v: "loop_turn queue_call queue_exec 0 u = Inr v" "quit (loops v 0)" "pendingFunctors (loops v 0) = []"
    unfolding second_turn_def by (blast dest: ok_withD)
  have "\<not> quit (loops (entering 0 w) 0)" by (simp add: entering_def)
  from observed.goes_on [OF opens [OF c] this u(3,4)] have "observed False queue_program 0 1 u" by simp
  with c u v show ?thesis unfolding second_turn_def by blast
qed


theorem server_wakes_for_functors_witness:
  "\<exists>(u :: world) v. pendingFunctors (loops u 0) = [UserFunctor 2] \<and> loop_poll 0 u = Inr v
     \<and> wakeupChannel (loops u 0) \<in> set (activeChannels (loops v 0))"
proof -
  from queue_run obtain u v where u: "pendingFunctors (loops u 0) = [UserFunctor 2]" "eventfd_polled 0 u"
    "observed False queue_program 0 (Suc 0) u" "loop_turn queue_call queue_exec 0 u = Inr v" by auto
  then obtain p where p: "loop_poll 0 u = Inr p" by (auto simp: loop_turn_def bindE_eq_Inr)
  have "pendingFunctors (loops u 0) \<noteq> []" by (simp add: u(1))
  from server_wakes_for_functors [OF u(3) this u(2) p] u(1) p show ?thesis by blast
qed


end
