(* ===== verification/Udp.thy ===== *)
theory Udp
  imports ThreadPool
begin

text \<open>
  \<open>net/UdpHandler.h\<close>, \<open>net/UdpHandler.cpp\<close>, \<open>net/UdpServer.h\<close>, \<open>net/UdpServer.cpp\<close> and
  \<open>net/UdpCallbacks.h\<close>: the datagram server. A message is passed as a pointer and a length, so
  the state has the memory the pointers refer to (\<open>mem\<close>; an address that holds no live array is
  \<open>None\<close>). The array a datagram is received into lives on the stack of \<open>handleReceiveMessage\<close>; where it
  lies and what it held before are the parameter \<open>frame\<close>. The user's callbacks are the parameter \<open>U\<close>.
\<close>

section \<open>The classes\<close>

record udp_handler =
  uh_loop :: nat
  uh_socket :: int
  uh_channel :: nat
  uh_newConnCB :: "nat option"
  uh_msgRecvCB :: "nat option"
  uh_msgSentCB :: "nat option"
  uh_listenning :: bool

record udp_server =
  us_loop :: nat
  us_name :: string
  us_handler :: nat
  us_pool :: thread_pool
  us_connCB :: "nat option"
  us_msgCB :: "nat option"
  us_writeCompleteCb :: "nat option"
  us_started :: bool
  us_nextConnId :: int

record udp = reactor +
  handlers :: "nat \<Rightarrow> udp_handler"
  udp_servers :: "nat \<Rightarrow> udp_server"
  mem :: "nat \<rightharpoonup> string"

definition set_handler :: "nat \<Rightarrow> (udp_handler \<Rightarrow> udp_handler) \<Rightarrow> 'a udp_scheme \<Rightarrow> 'a udp_scheme" where
  "set_handler h f w = w\<lparr>handlers := (handlers w)(h := f (handlers w h))\<rparr>"

definition set_udp_server :: "nat \<Rightarrow> (udp_server \<Rightarrow> udp_server) \<Rightarrow> 'a udp_scheme \<Rightarrow> 'a udp_scheme" where
  "set_udp_server s f w = w\<lparr>udp_servers := (udp_servers w)(s := f (udp_servers w s))\<rparr>"

text \<open>\<open>ConnectionCallback\<close>, \<open>MessageReceivedCallback\<close> (server, message, length, peer) and
  \<open>MessageSentCallback\<close>, and the names of functors and channel callbacks of the user's own.\<close>

record 'w udp_hooks =
  udp_onConnection :: "nat \<Rightarrow> 'w \<Rightarrow> 'w result"
  udp_onMessage :: "nat \<Rightarrow> nat \<Rightarrow> nat \<Rightarrow> int \<Rightarrow> sockaddr_in \<Rightarrow> 'w \<Rightarrow> 'w result"
  udp_onSent :: "nat \<Rightarrow> 'w \<Rightarrow> 'w result"
  udp_functor :: "task \<Rightarrow> 'w \<Rightarrow> 'w result"
  udp_callback :: "callback \<Rightarrow> timestamp \<Rightarrow> 'w \<Rightarrow> 'w result"

definition BUFFLEN :: nat where "BUFFLEN = 65536"

section \<open>The handler\<close>

definition UdpHandler_ctor :: "nat \<Rightarrow> nat \<Rightarrow> nat \<Rightarrow> sockaddr_in \<Rightarrow> 'a udp_scheme \<Rightarrow> 'a udp_scheme result" where
  "UdpHandler_ctor h c loop listenAddr w =
     bindE (Socket_createUdpBlocking w) (\<lambda>(fd, w).
       let w = w\<lparr>handlers := (handlers w)(h := \<lparr>uh_loop = loop, uh_socket = fd, uh_channel = c,
                    uh_newConnCB = None, uh_msgRecvCB = None, uh_msgSentCB = None, uh_listenning = False\<rparr>),
                 chans := (chans w)(c := Channel_ctor loop fd)\<rparr>;
           w = Socket_setReuseAddr fd True w
       in bindE (Socket_bindAddress fd listenAddr w) (\<lambda>w.
            Inr (set_chan c (Channel_setReadCallback (UdpHandleNewConnection h)) w)))"

definition UdpHandler_setNewConnectionCallback :: "nat \<Rightarrow> nat \<Rightarrow> 'a udp_scheme \<Rightarrow> 'a udp_scheme" where
  "UdpHandler_setNewConnectionCallback h s w = set_handler h (uh_newConnCB_update (\<lambda>_. Some s)) w"

definition UdpHandler_setMessageReceivedCallback :: "nat \<Rightarrow> nat \<Rightarrow> 'a udp_scheme \<Rightarrow> 'a udp_scheme" where
  "UdpHandler_setMessageReceivedCallback h k w = set_handler h (uh_msgRecvCB_update (\<lambda>_. Some k)) w"

definition UdpHandler_setMessageSentCallback :: "nat \<Rightarrow> nat \<Rightarrow> 'a udp_scheme \<Rightarrow> 'a udp_scheme" where
  "UdpHandler_setMessageSentCallback h k w = set_handler h (uh_msgSentCB_update (\<lambda>_. Some k)) w"

definition UdpHandler_listen :: "nat \<Rightarrow> 'a udp_scheme \<Rightarrow> 'a udp_scheme result" where
  "UdpHandler_listen h w =
     assert_that ''_loop->isInLoopThread()'' (isInLoopThread (uh_loop (handlers w h)) w)
      (let w = set_handler h (uh_listenning_update (\<lambda>_. True)) w
       in Channel_enableReading (uh_channel (handlers w h)) w)"

text \<open>\<open>frame = (p, old)\<close>: \<open>msg\<close> is the array at address \<open>p\<close>, which holds \<open>old\<close> before \<open>recvfrom\<close>
  fills its front; the array is gone when the function returns.\<close>

definition handleReceiveMessage ::
  "'a udp_scheme udp_hooks \<Rightarrow> nat \<times> string \<Rightarrow> nat \<Rightarrow> nat \<Rightarrow> 'a udp_scheme \<Rightarrow> 'a udp_scheme result" where
  "handleReceiveMessage U frame h server w =
     (let (p, old) = frame;
          (a, w) = do_call (SysRecvfrom (uh_socket (handlers w h)) BUFFLEN) w;
          count = ret a
      in assert_that ''count >= 0'' (count \<ge> 0)
        (let w = w\<lparr>mem := (mem w)(p \<mapsto> payload a @ drop (length (payload a)) old)\<rparr>;
             peerAddr = CapsuledAddr_of (peer a)
         in bindE (case uh_msgRecvCB (handlers w h) of
                     Some k \<Rightarrow> udp_onMessage U k server p (int BUFFLEN) peerAddr w
                   | None \<Rightarrow> Inr w)
              (\<lambda>w. Inr (w\<lparr>mem := (mem w)(p := None)\<rparr>))))"

text \<open>\<open>sendto\<close> reads \<open>len\<close> bytes at \<open>msg\<close>; its result is not looked at.\<close>

definition handleSendMessage ::
  "'a udp_scheme udp_hooks \<Rightarrow> nat \<Rightarrow> nat \<Rightarrow> int \<Rightarrow> sockaddr_in \<Rightarrow> 'a udp_scheme \<Rightarrow> 'a udp_scheme result" where
  "handleSendMessage U h msg len peerAddr w =
     (case mem w msg of
        None \<Rightarrow> Inl OutOfBounds
      | Some bytes \<Rightarrow>
          if 0 \<le> len \<and> len \<le> int (length bytes) then
            let (a, w) = do_call (SysSendto (uh_socket (handlers w h)) (take (nat len) bytes) peerAddr) w
            in (case uh_msgSentCB (handlers w h) of Some k \<Rightarrow> udp_onSent U k w | None \<Rightarrow> Inr w)
          else Inl OutOfBounds)"

section \<open>The server\<close>

definition UdpServer_newConnection ::
  "'a udp_scheme udp_hooks \<Rightarrow> nat \<times> string \<Rightarrow> nat \<Rightarrow> 'a udp_scheme \<Rightarrow> 'a udp_scheme result" where
  "UdpServer_newConnection U frame s w =
     assert_that ''_loop->isInLoopThread()'' (isInLoopThread (us_loop (udp_servers w s)) w)
      (bindE (getNextLoop (us_pool (udp_servers w s)) w) (\<lambda>(ioLoop, pool).
        let w = set_udp_server s (us_pool_update (\<lambda>_. pool)) w in
        bindE (case us_connCB (udp_servers w s) of
                 Some k \<Rightarrow> runInLoop ioLoop (UdpConnCB k) (udp_onConnection U k) w
               | None \<Rightarrow> Inr w)
          (\<lambda>w. let h = us_handler (udp_servers w s)
                in runInLoop ioLoop (UdpReceive h s) (handleReceiveMessage U frame h s) w)))"

definition UdpHandler_handleNewConnection ::
  "'a udp_scheme udp_hooks \<Rightarrow> nat \<times> string \<Rightarrow> nat \<Rightarrow> 'a udp_scheme \<Rightarrow> 'a udp_scheme result" where
  "UdpHandler_handleNewConnection U frame h w =
     assert_that ''_loop->isInLoopThread()'' (isInLoopThread (uh_loop (handlers w h)) w)
      (case uh_newConnCB (handlers w h) of
         Some s \<Rightarrow> UdpServer_newConnection U frame s w
       | None \<Rightarrow> Inr w)"

definition UdpServer_ctor ::
  "bool \<Rightarrow> nat \<Rightarrow> nat \<Rightarrow> nat \<Rightarrow> nat \<Rightarrow> sockaddr_in \<Rightarrow> 'a udp_scheme \<Rightarrow> 'a udp_scheme result" where
  "UdpServer_ctor big_endian s h c loop listenAddr w =
     bindE (UdpHandler_ctor h c loop listenAddr w) (\<lambda>w.
       let w = w\<lparr>udp_servers := (udp_servers w)(s := \<lparr>us_loop = loop, us_name = addr_toString big_endian listenAddr,
                   us_handler = h, us_pool = EventLoopThreadPool_ctor loop, us_connCB = None,
                   us_msgCB = None, us_writeCompleteCb = None, us_started = False, us_nextConnId = 1\<rparr>)\<rparr>
       in Inr (UdpHandler_setNewConnectionCallback h s w))"

definition UdpServer_sendMessage ::
  "'a udp_scheme udp_hooks \<Rightarrow> nat \<Rightarrow> nat \<Rightarrow> int \<Rightarrow> sockaddr_in \<Rightarrow> 'a udp_scheme \<Rightarrow> 'a udp_scheme result" where
  "UdpServer_sendMessage U s msg len peerAddr w =
     bindE (getNextLoop (us_pool (udp_servers w s)) w) (\<lambda>(ioLoop, pool).
       let w = set_udp_server s (us_pool_update (\<lambda>_. pool)) w; h = us_handler (udp_servers w s)
       in runInLoop ioLoop (UdpSend h msg len peerAddr) (handleSendMessage U h msg len peerAddr) w)"

definition UdpServer_setConnectionCallback :: "nat \<Rightarrow> nat \<Rightarrow> 'a udp_scheme \<Rightarrow> 'a udp_scheme" where
  "UdpServer_setConnectionCallback s k w = set_udp_server s (us_connCB_update (\<lambda>_. Some k)) w"

definition UdpServer_setMessageCallback :: "nat \<Rightarrow> nat \<Rightarrow> 'a udp_scheme \<Rightarrow> 'a udp_scheme" where
  "UdpServer_setMessageCallback s k w = UdpHandler_setMessageReceivedCallback (us_handler (udp_servers w s)) k w"

definition UdpServer_setWriteCompleteCallback :: "nat \<Rightarrow> nat \<Rightarrow> 'a udp_scheme \<Rightarrow> 'a udp_scheme" where
  "UdpServer_setWriteCompleteCallback s k w = UdpHandler_setMessageSentCallback (us_handler (udp_servers w s)) k w"

definition UdpServer_setThreadNum :: "nat \<Rightarrow> int \<Rightarrow> 'a udp_scheme \<Rightarrow> 'a udp_scheme result" where
  "UdpServer_setThreadNum s n w =
     assert_that ''numThreads >= 0'' (n \<ge> 0)
       (Inr (set_udp_server s (us_pool_update (pool_setThreadNum n)) w))"

definition UdpServer_start :: "nat \<Rightarrow> 'a udp_scheme \<Rightarrow> 'a udp_scheme result" where
  "UdpServer_start s w =
     (let w = (if \<not> us_started (udp_servers w s) then set_udp_server s (us_started_update (\<lambda>_. True)) w else w);
          h = us_handler (udp_servers w s)
      in if \<not> uh_listenning (handlers w h)
         then runInLoop (us_loop (udp_servers w s)) (UdpListen h) (UdpHandler_listen h) w
         else Inr w)"

section \<open>The meaning of names\<close>

fun udp_call ::
  "'a udp_scheme udp_hooks \<Rightarrow> nat \<times> string \<Rightarrow> callback \<Rightarrow> timestamp \<Rightarrow> 'a udp_scheme \<Rightarrow> 'a udp_scheme result" where
  "udp_call U frame (LoopHandleRead l) t = EventLoop_handleRead l"
| "udp_call U frame (UdpHandleNewConnection h) t = UdpHandler_handleNewConnection U frame h"
| "udp_call U frame cb t = udp_callback U cb t"

fun udp_exec ::
  "'a udp_scheme udp_hooks \<Rightarrow> nat \<times> string \<Rightarrow> task \<Rightarrow> 'a udp_scheme \<Rightarrow> 'a udp_scheme result" where
  "udp_exec U frame (UdpListen h) = UdpHandler_listen h"
| "udp_exec U frame (UdpConnCB k) = udp_onConnection U k"
| "udp_exec U frame (UdpReceive h s) = handleReceiveMessage U frame h s"
| "udp_exec U frame (UdpSend h msg len peerAddr) = handleSendMessage U h msg len peerAddr"
| "udp_exec U frame f = udp_functor U f"

section \<open>Facts about the state\<close>

lemma set_udp_simps [simp]:
  "udp_servers (set_udp_server s f w) = (udp_servers w)(s := f (udp_servers w s))"
  "handlers (set_udp_server s f w) = handlers w" "loops (set_udp_server s f w) = loops w"
  "chans (set_udp_server s f w) = chans w" "cur_thread (set_udp_server s f w) = cur_thread w"
  "calls (set_udp_server s f w) = calls w" "os (set_udp_server s f w) = os w" "mem (set_udp_server s f w) = mem w"
  "handlers (set_handler h g w) = (handlers w)(h := g (handlers w h))"
  "udp_servers (set_handler h g w) = udp_servers w" "loops (set_handler h g w) = loops w"
  "chans (set_handler h g w) = chans w" "cur_thread (set_handler h g w) = cur_thread w"
  "calls (set_handler h g w) = calls w" "os (set_handler h g w) = os w" "mem (set_handler h g w) = mem w"
  by (simp_all add: set_udp_server_def set_handler_def)

lemma udp_frame [simp]:
  "handlers (set_chan c g w) = handlers w" "handlers (set_loop l k w) = handlers w"
  "udp_servers (set_chan c g w) = udp_servers w" "udp_servers (set_loop l k w) = udp_servers w"
  "handlers (entered c p i w) = handlers w" "udp_servers (entered c p i w) = udp_servers w"
  by (simp_all add: set_chan_def set_loop_def entered_def)

text \<open>A server whose handler is its own and whose pool was not started, on the current thread's loop.\<close>

definition udp_ready :: "nat \<Rightarrow> nat \<Rightarrow> 'a udp_scheme \<Rightarrow> bool" where
  "udp_ready s h w \<longleftrightarrow> uh_newConnCB (handlers w h) = Some s \<and> us_handler (udp_servers w s) = h
     \<and> isInLoopThread (us_loop (udp_servers w s)) w \<and> isInLoopThread (uh_loop (handlers w h)) w
     \<and> baseLoop (us_pool (udp_servers w s)) = us_loop (udp_servers w s) \<and> pool_loops (us_pool (udp_servers w s)) = []"

lemma same_udp_pool:
  assumes "pool = us_pool (udp_servers w s)"
  shows "set_udp_server s (us_pool_update (\<lambda>_. pool)) w = w"
proof -
  have "us_pool_update (\<lambda>_. us_pool r) r = r" for r :: udp_server by (cases r) simp
  then show ?thesis by (simp add: set_udp_server_def assms)
qed

lemma udp_next_loop:
  "udp_ready s h w \<Longrightarrow> getNextLoop (us_pool (udp_servers w s)) w = Inr (us_loop (udp_servers w s), us_pool (udp_servers w s))"
  by (simp add: getNextLoop_def udp_ready_def)

text \<open>In the loop's thread a message is sent at once.\<close>

lemma send_at_once:
  assumes "udp_ready s h w"
  shows "UdpServer_sendMessage U s msg len peerAddr w = handleSendMessage U h msg len peerAddr w"
  using assms udp_next_loop [OF assms]
  by (simp add: UdpServer_sendMessage_def same_udp_pool runInLoop_def) (simp add: udp_ready_def)

lemma new_datagram:
  assumes "udp_ready s h w" "us_connCB (udp_servers w s) = None"
  shows "UdpHandler_handleNewConnection U frame h w = handleReceiveMessage U frame h s w"
proof -
  have "UdpServer_newConnection U frame s w = handleReceiveMessage U frame h s w"
    using assms udp_next_loop [OF assms(1)]
    by (simp add: UdpServer_newConnection_def same_udp_pool runInLoop_def) (simp add: udp_ready_def)
  then show ?thesis using assms(1) by (simp add: UdpHandler_handleNewConnection_def udp_ready_def)
qed

lemma udp_ready_same:
  "handlers w' = handlers w \<Longrightarrow> udp_servers w' = udp_servers w \<Longrightarrow> loops w' = loops w \<Longrightarrow> cur_thread w' = cur_thread w
     \<Longrightarrow> udp_ready s h w' = udp_ready s h w"
  by (simp add: udp_ready_def isInLoopThread_def)

text \<open>The echo program: the message callback sends back the message with the length it was given.\<close>

definition echo_hooks :: "'a udp_scheme udp_hooks \<Rightarrow> 'a udp_scheme udp_hooks" where
  "echo_hooks U = U\<lparr>udp_onMessage := (\<lambda>k server msg len peerAddr. UdpServer_sendMessage U server msg len peerAddr)\<rparr>"

lemma receive_echoed:
  assumes ready: "udp_ready s h w" and cb: "uh_msgRecvCB (handlers w h) = Some k" "uh_msgSentCB (handlers w h) = None"
    and a: "a = os w (length (calls w))" "0 \<le> ret a" and len: "length (payload a) \<le> BUFFLEN" "length old = BUFFLEN"
  shows "\<exists>w' a'. handleReceiveMessage (echo_hooks U) (p, old) h s w = Inr w'
     \<and> calls w' = calls w @ [(SysRecvfrom (uh_socket (handlers w h)) BUFFLEN, a),
         (SysSendto (uh_socket (handlers w h)) (payload a @ drop (length (payload a)) old) (CapsuledAddr_of (peer a)), a')]
     \<and> mem w' p = None"
proof -
  let ?msg = "payload a @ drop (length (payload a)) old"
  let ?v = "w\<lparr>calls := calls w @ [(SysRecvfrom (uh_socket (handlers w h)) BUFFLEN, a)], mem := (mem w)(p \<mapsto> ?msg)\<rparr>"
  have full: "length ?msg = BUFFLEN" using len by simp
  have "udp_ready s h ?v" using ready udp_ready_same [of ?v w] by simp
  note send = send_at_once [OF this, of U p "int BUFFLEN" "CapsuledAddr_of (peer a)"]
  show ?thesis using a(2) cb full
    by (simp add: handleReceiveMessage_def do_call_def Let_def a(1) [symmetric] echo_hooks_def send handleSendMessage_def)
qed


text \<open>
  Construction and start of a datagram server in the thread of its loop, when the kernel grants the
  socket and the address: the handler's channel is registered with the loop for reading, with
  \<open>handleNewConnection\<close> as its callback, and a second \<open>start\<close> changes nothing.
\<close>

theorem udp_server_listens:
  assumes inv: "reactor_inv w" and fresh: "fresh_channel c w" and own: "isInLoopThread L w"
    and fd: "fd = ret (os w (length (calls w)))" "0 \<le> fd" "channelMap (loop_poller (loops w L)) fd = None"
    and bound: "0 \<le> ret (os w (length (calls w) + 2))"
  shows "\<exists>w1 w2. UdpServer_ctor be s h c L addr w = Inr w1 \<and> UdpServer_start s w1 = Inr w2 \<and> udp_ready s h w2
     \<and> reactor_inv w2 \<and> enrolled c (own_poller c w2) \<and> ch_readCallback (chans w2 c) = Some (UdpHandleNewConnection h)
     \<and> UdpServer_start s w2 = Inr w2"
proof -
  let ?ch = "(Channel_ctor L fd)\<lparr>ch_readCallback := Some (UdpHandleNewConnection h)\<rparr>"
  obtain w1 where ctor: "UdpServer_ctor be s h c L addr w = Inr w1"
    and w1: "loops w1 = loops w" "cur_thread w1 = cur_thread w" "chans w1 = (chans w)(c := ?ch)"
      "udp_servers w1 s = \<lparr>us_loop = L, us_name = addr_toString be addr, us_handler = h,
         us_pool = EventLoopThreadPool_ctor L, us_connCB = None, us_msgCB = None, us_writeCompleteCb = None,
         us_started = False, us_nextConnId = 1\<rparr>"
      "handlers w1 h = \<lparr>uh_loop = L, uh_socket = fd, uh_channel = c, uh_newConnCB = Some s,
         uh_msgRecvCB = None, uh_msgSentCB = None, uh_listenning = False\<rparr>"
    using fd(1,2) bound by (simp add: UdpServer_ctor_def UdpHandler_ctor_def UdpHandler_setNewConnectionCallback_def
        Socket_createUdpBlocking_def Socket_setReuseAddr_def Socket_bindAddress_def do_call_def Let_def set_handler_def
        set_chan_def)
  let ?v = "set_handler h (uh_listenning_update (\<lambda>_. True)) (set_udp_server s (us_started_update (\<lambda>_. True)) w1)"
  have "reactor_inv w1" by (rule reactor_inv_new_channel [OF inv fresh w1(1,3)])
  then have v: "reactor_inv ?v" "may_update c ?v"
    using own fd(2,3) fresh w1
    by (auto simp: reactor_inv_def may_update_def own_poller_def isInLoopThread_def joinable_def Channel_ctor_def fresh_channel_def)
  from Channel_mask_entered [OF v, of EnableReading] obtain p k where
    e: "Channel_enableReading c ?v = Inr (entered c p k (set_chan c (apply_mask EnableReading) ?v))"
      "reactor_inv (entered c p k (set_chan c (apply_mask EnableReading) ?v))"
      "enrolled c (own_poller c (entered c p k (set_chan c (apply_mask EnableReading) ?v)))"
    unfolding channel_ops_mask by blast
  let ?w2 = "entered c p k (set_chan c (apply_mask EnableReading) ?v)"
  have "UdpServer_start s w1 = Inr ?w2"
    using own w1 e(1) by (simp add: UdpServer_start_def Let_def runInLoop_def UdpHandler_listen_def isInLoopThread_def)
  moreover have "udp_ready s h ?w2"
    using own w1 by (simp add: udp_ready_def isInLoopThread_def EventLoopThreadPool_ctor_def)
  moreover have "UdpServer_start s ?w2 = Inr ?w2" using w1 by (simp add: UdpServer_start_def Let_def)
  moreover have "ch_readCallback (chans ?w2 c) = Some (UdpHandleNewConnection h)"
    using w1(3) by (simp add: mask_defs)
  ultimately show ?thesis using ctor e(2,3) by blast
qed

section \<open>A concrete server\<close>

definition udp_start :: udp where
  "udp_start = \<lparr>os = (\<lambda>n. (returns 5)\<lparr>payload := ''hello''\<rparr>), calls = [], cur_thread = 0,
     chans = (\<lambda>c. Channel_ctor 0 (int c)), loops = idle_loop, t_loop = Map.empty,
     handlers = (\<lambda>h. \<lparr>uh_loop = 0, uh_socket = 5, uh_channel = 1, uh_newConnCB = Some 0,
       uh_msgRecvCB = Some 0, uh_msgSentCB = None, uh_listenning = False\<rparr>),
     udp_servers = (\<lambda>s. \<lparr>us_loop = 0, us_name = '''', us_handler = 0, us_pool = EventLoopThreadPool_ctor 0,
       us_connCB = None, us_msgCB = None, us_writeCompleteCb = None, us_started = False, us_nextConnId = 1\<rparr>),
     mem = Map.empty\<rparr>"

definition no_hooks :: "udp udp_hooks" where
  "no_hooks = \<lparr>udp_onConnection = (\<lambda>k. Inr), udp_onMessage = (\<lambda>k s p n a. Inr), udp_onSent = (\<lambda>k. Inr),
     udp_functor = (\<lambda>f. Inr), udp_callback = (\<lambda>cb t. Inr)\<rparr>"


theorem udp_server_listens_witness:
  "\<exists>w1 w2. UdpServer_ctor False 0 0 1 0 zero_addr udp_start = Inr w1 \<and> UdpServer_start 0 w1 = Inr w2
     \<and> enrolled 1 (own_poller 1 w2)"
proof -
  have "reactor_inv udp_start"
    by (simp add: reactor_inv_def udp_start_def idle_loop_def Poller_ctor_inv) (simp add: Poller_ctor_def)
  moreover have "fresh_channel 1 udp_start" "isInLoopThread 0 udp_start"
    "channelMap (loop_poller (loops udp_start 0)) 5 = None"
    by (simp_all add: fresh_channel_def isInLoopThread_def udp_start_def idle_loop_def Poller_ctor_def)
  moreover have "5 = ret (os udp_start (length (calls udp_start)))" "0 \<le> ret (os udp_start (length (calls udp_start) + 2))"
    by (simp_all add: udp_start_def returns_def)
  ultimately show ?thesis using udp_server_listens [of udp_start 1 0 5 False 0 0 zero_addr] by auto
qed

end
