(* ===== verification/Teardown.thy ===== *)
theory Teardown
  imports Lifetime Udp
begin

text \<open>
  The destructors of the servers and of what they own (net/TcpServer.cpp, net/UdpServer.cpp,
  net/EventLoopThreadPool.cpp). Their bodies are empty; what they do is the destruction of the
  members, in the reverse order of their declaration. No destructor tells the poller.
\<close>

section \<open>The thread pool\<close>

text \<open>\<open>_loops\<close> only points to the loops. The elements of \<open>_threads\<close> are destroyed in their order, each by
  the destructor of \<open>EventLoopThread\<close>, which waits for the thread; \<open>ended k\<close> says whether the loop of thread \<open>k\<close>
  ends, and \<open>None\<close> is a destructor that does not return.\<close>

fun destroy_threads :: "(nat \<Rightarrow> bool) \<Rightarrow> nat \<Rightarrow> loop_thread list \<Rightarrow> unit result option" where
  "destroy_threads ended k [] = Some (Inr ())"
| "destroy_threads ended k (lt # lts) =
     (case EventLoopThread_dtor (ended k) lt of
        Some (Inr _) \<Rightarrow> destroy_threads ended (Suc k) lts
      | r \<Rightarrow> r)"

definition EventLoopThreadPool_dtor :: "(nat \<Rightarrow> bool) \<Rightarrow> thread_pool \<Rightarrow> unit result option" where
  "EventLoopThreadPool_dtor ended p = destroy_threads ended 0 (pool_threads p)"

section \<open>The TCP server\<close>

definition Acceptor_dtor :: "nat \<Rightarrow> 'a world_scheme \<Rightarrow> 'a world_scheme result" where
  "Acceptor_dtor a w =
     bindE (Channel_dtor (chans w (acc_channel (acceptors w a)))) (\<lambda>_.
       FileDescriptor_close (acc_socket (acceptors w a)) w)"

text \<open>An element of \<open>_connMap\<close> is released: the connection is destroyed unless a queued functor shares it.\<close>

definition shared_by_functor :: "nat \<Rightarrow> nat \<Rightarrow> 'a world_scheme \<Rightarrow> bool" where
  "shared_by_functor L i w \<longleftrightarrow> (\<exists>f \<in> set (pendingFunctors (loops w L)). shared_in f = Some i)"

definition release :: "nat \<Rightarrow> nat \<Rightarrow> 'a world_scheme \<Rightarrow> 'a world_scheme result" where
  "release L i w = (if shared_by_functor L i w then Inr w else TcpConnection_dtor i w)"

text \<open>\<open>order\<close> is the order in which the hash map destroys its elements, which C++ leaves open. Then \<open>_threadPool\<close>
  and \<open>_acceptor\<close> are destroyed.\<close>

definition TcpServer_dtor ::
  "(nat \<Rightarrow> bool) \<Rightarrow> nat list \<Rightarrow> nat \<Rightarrow> 'a world_scheme \<Rightarrow> 'a world_scheme result option" where
  "TcpServer_dtor ended order s w =
     (case run_all (release (srv_loop (servers w s))) order w of
        Inl e \<Rightarrow> Some (Inl e)
      | Inr w \<Rightarrow> (case EventLoopThreadPool_dtor ended (srv_pool (servers w s)) of
            None \<Rightarrow> None
          | Some r \<Rightarrow> Some (bindE r (\<lambda>_. Acceptor_dtor (srv_acceptor (servers w s)) w))))"

section \<open>The UDP server\<close>

definition UdpHandler_dtor :: "nat \<Rightarrow> 'a udp_scheme \<Rightarrow> 'a udp_scheme result" where
  "UdpHandler_dtor h w =
     bindE (Channel_dtor (chans w (uh_channel (handlers w h)))) (\<lambda>_.
       FileDescriptor_close (uh_socket (handlers w h)) w)"

definition UdpServer_dtor :: "(nat \<Rightarrow> bool) \<Rightarrow> nat \<Rightarrow> 'a udp_scheme \<Rightarrow> 'a udp_scheme result option" where
  "UdpServer_dtor ended s w =
     (case EventLoopThreadPool_dtor ended (us_pool (udp_servers w s)) of
        None \<Rightarrow> None
      | Some r \<Rightarrow> Some (bindE r (\<lambda>_. UdpHandler_dtor (us_handler (udp_servers w s)) w)))"

section \<open>What is left behind\<close>

text \<open>The kernel closes every descriptor it is asked to close from now on.\<close>

definition closes_ok :: "'a kernel_scheme \<Rightarrow> bool" where
  "closes_ok w \<longleftrightarrow> (\<forall>n \<ge> length (calls w). 0 \<le> ret (os w n))"

text \<open>A step that closes descriptors and does nothing else.\<close>

definition closed_only :: "int list \<Rightarrow> 'a kernel_scheme \<Rightarrow> 'a kernel_scheme \<Rightarrow> bool" where
  "closed_only fds w w' \<longleftrightarrow> (\<exists>log. w' = w\<lparr>calls := calls w @ log\<rparr> \<and> map fst log = map SysClose fds)"

lemma closed_only_refl: "closed_only [] w w"
  by (simp add: closed_only_def)

lemma closed_only_trans:
  assumes "closed_only xs w v" "closed_only ys v w'"
  shows "closed_only (xs @ ys) w w'"
proof -
  from assms obtain log log' where "v = w\<lparr>calls := calls w @ log\<rparr>" "map fst log = map SysClose xs"
    "w' = v\<lparr>calls := calls v @ log'\<rparr>" "map fst log' = map SysClose ys" unfolding closed_only_def by blast
  then show ?thesis unfolding closed_only_def by (intro exI [of _ "log @ log'"]) simp
qed

lemma closed_only_frame:
  fixes w :: "'a world_scheme"
  assumes "closed_only fds w w'"
  shows "conns w' = conns w" "loops w' = loops w" "chans w' = chans w" "servers w' = servers w" "acceptors w' = acceptors w"
    "map fst (calls w') = map fst (calls w) @ map SysClose fds"
  using assms by (auto simp: closed_only_def)

lemma close_returns:
  assumes "closes_ok w"
  shows "\<exists>w'. FileDescriptor_close fd w = Inr w' \<and> closed_only [fd] w w' \<and> closes_ok w'"
proof -
  let ?log = "[(SysClose fd, os w (length (calls w)))]"
  have "FileDescriptor_close fd w = Inr (w\<lparr>calls := calls w @ ?log\<rparr>)"
    using assms by (simp add: FileDescriptor_close_def do_call_def Let_def closes_ok_def)
  moreover have "closed_only [fd] w (w\<lparr>calls := calls w @ ?log\<rparr>)"
    unfolding closed_only_def by (intro exI [of _ ?log]) simp
  moreover have "closes_ok (w\<lparr>calls := calls w @ ?log\<rparr>)" using assms by (simp add: closes_ok_def)
  ultimately show ?thesis by blast
qed

lemma releases_close:
  "closes_ok w \<Longrightarrow> at_rest w \<Longrightarrow> \<exists>w'. run_all (release L) order w = Inr w' \<and> closes_ok w'
     \<and> closed_only (map (\<lambda>i. tc_conn (conns w i)) (filter (\<lambda>i. \<not> shared_by_functor L i w) order)) w w'"
proof (induction order arbitrary: w)
  case Nil
  then show ?case by (simp add: closed_only_refl)
next
  case (Cons i order)
  let ?fds = "if shared_by_functor L i w then [] else [tc_conn (conns w i)]"
  have "\<exists>v. release L i w = Inr v \<and> closed_only ?fds w v \<and> closes_ok v"
    using Cons.prems close_returns [OF Cons.prems(1)]
    by (simp add: release_def closed_only_refl TcpConnection_dtor_def Channel_dtor_def at_rest_def)
  then obtain v where v: "release L i w = Inr v" "closed_only ?fds w v" "closes_ok v" by blast
  note F = closed_only_frame [OF v(2)]
  have "at_rest v" using Cons.prems(2) by (simp add: at_rest_def F(3))
  from Cons.IH [OF v(3) this] obtain w' where w': "run_all (release L) order v = Inr w'" "closes_ok w'"
    "closed_only (map (\<lambda>i. tc_conn (conns w i)) (filter (\<lambda>i. \<not> shared_by_functor L i w) order)) v w'"
    by (auto simp: F(1,2) shared_by_functor_def)
  from closed_only_trans [OF v(2) w'(3)] v(1) w'(1,2) show ?case by (auto split: if_splits)
qed

text \<open>
  C15. What the destructor of a server does between two turns of its loop, and what it does not do. It returns, without
  waiting for any thread, since the pool was never started; it closes the descriptors of the connections that no queued functor
  shares, and then the one it listens on; and every channel that was registered still is: the poller keeps
  the addresses of the destroyed channels, and goes on to pass the closed descriptors to \<open>poll\<close>.
\<close>

theorem server_dtor_leaves_channels:
  assumes "reached be P L u" and "closes_ok u" and "set order = ran (srv_connMap (servers u s))" and "distinct order"
  shows "\<exists>v. TcpServer_dtor ended order s u = Some (Inr v)
     \<and> map fst (calls v) = map fst (calls u)
         @ map (\<lambda>i. SysClose (tc_conn (conns u i))) (filter (\<lambda>i. \<not> shared_by_functor L i u) order)
         @ [SysClose (acc_socket (acceptors u (srv_acceptor (servers u s))))]
     \<and> loop_poller (loops v L) = loop_poller (loops u L) \<and> (\<forall>c. registered c v \<longleftrightarrow> registered c u)"
proof -
  have inv: "server_inv L u {} [] u" and rest: "at_rest u" using reached_inv [OF assms(1)] by simp_all
  have srv: "srv_loop (servers u s) = L" "pool_threads (srv_pool (servers u s)) = []"
    using servers_okD(1,6) [OF server_invD(3) [OF inv]] by simp_all
  let ?fds = "map (\<lambda>i. tc_conn (conns u i)) (filter (\<lambda>i. \<not> shared_by_functor L i u) order)"
  let ?a = "acceptors u (srv_acceptor (servers u s))"
  from releases_close [OF assms(2) rest, of L order] obtain x where
    x: "run_all (release L) order u = Inr x" "closes_ok x" "closed_only ?fds u x" by blast
  note F = closed_only_frame [OF x(3)]
  from close_returns [OF x(2), of "acc_socket ?a"] obtain v where
    v: "FileDescriptor_close (acc_socket ?a) x = Inr v" "closed_only [acc_socket ?a] x v" by blast
  have "TcpServer_dtor ended order s u = Some (Inr v)"
    using x(1) v(1) rest
    by (simp add: TcpServer_dtor_def srv F EventLoopThreadPool_dtor_def Acceptor_dtor_def Channel_dtor_def at_rest_def)
  moreover note G = closed_only_frame [OF closed_only_trans [OF x(3) v(2)]]
  ultimately show ?thesis by (intro exI [of _ v]) (simp add: G(2,6) registered_def o_def)
qed

theorem server_dtor_leaves_channels_witness:
  "\<exists>(u :: world) v. life_of 2 u = Live \<and> ran (srv_connMap (servers u 0)) = {2} \<and> TcpServer_dtor (\<lambda>_. False) [2] 0 u = Some (Inr v)
     \<and> channelMap (loop_poller (loops v 0)) 8 = Some 2 \<and> channelMap (loop_poller (loops v 0)) 7 = Some 1
     \<and> SysClose (tc_conn (conns u 2)) \<in> fst ` set (calls v)"
proof -
  from example_run obtain u where u: "reached False example_program 0 u" "came_and_goes u" by blast
  then have c: "closes_ok u" "set [2] = ran (srv_connMap (servers u 0))" "life_of 2 u = Live"
    "channelMap (loop_poller (loops u 0)) 8 = Some 2" "channelMap (loop_poller (loops u 0)) 7 = Some 1"
    "\<not> shared_by_functor 0 2 u"
    by (simp_all add: came_and_goes_def closes_ok_def shared_by_functor_def)
  from server_dtor_leaves_channels [OF u(1) c(1,2), of "\<lambda>_. False"] c(6) obtain v where
    v: "TcpServer_dtor (\<lambda>_. False) [2] 0 u = Some (Inr v)" "loop_poller (loops v 0) = loop_poller (loops u 0)"
      "map fst (calls v) = map fst (calls u) @ [SysClose (tc_conn (conns u 2))]
         @ [SysClose (acc_socket (acceptors u (srv_acceptor (servers u 0))))]" by auto
  have "SysClose (tc_conn (conns u 2)) \<in> set (map fst (calls v))" unfolding v(3) by simp
  then show ?thesis using c v(1,2) by (intro exI [of _ u] exI [of _ v]) simp
qed

text \<open>The same for datagrams: the handler's socket is closed, and its channel stays registered.\<close>

theorem udp_server_dtor_leaves_channel:
  assumes "pool_threads (us_pool (udp_servers w s)) = []" and "h = us_handler (udp_servers w s)"
    and "\<not> ch_eventHandling (chans w (uh_channel (handlers w h)))" and "closes_ok w"
  shows "\<exists>v. UdpServer_dtor ended s w = Some (Inr v) \<and> closed_only [uh_socket (handlers w h)] w v \<and> loops v = loops w"
proof -
  from close_returns [OF assms(4), of "uh_socket (handlers w h)"] obtain v where
    v: "FileDescriptor_close (uh_socket (handlers w h)) w = Inr v" "closed_only [uh_socket (handlers w h)] w v" by blast
  then have "loops v = loops w" by (auto simp: closed_only_def)
  with v show ?thesis using assms(1-3)
    by (intro exI [of _ v]) (simp add: UdpServer_dtor_def EventLoopThreadPool_dtor_def UdpHandler_dtor_def Channel_dtor_def)
qed

end
