(* ===== verification/Spec2Isabelle.thy ===== *)
theory Spec2Isabelle
  imports SharedConn TimeDifference Drain ServerProtocol Teardown
begin

text \<open>
  EasyEvent: a network library of event loops, one loop per thread, in the style of muduo.

  The program. An \<open>EventLoop\<close> owns a \<open>Poller\<close> (the array given to \<open>poll\<close> and the map from descriptors
  to channels). A \<open>Channel\<close> binds a descriptor to the callbacks for its events. A turn of the loop polls,
  calls the handlers of the channels with events, and runs the functors that were queued; another
  thread that queues a functor wakes the loop through an eventfd. An \<open>Acceptor\<close> accepts connections for
  a \<open>TcpServer\<close>, which makes a \<open>TcpConnection\<close> of each (a state machine with an input and an output
  \<open>Buffer\<close>), keeps it in a map by name, and removes it when it is closed; the destruction of a
  connection is queued in its loop. \<open>UdpServer\<close> and \<open>UdpHandler\<close> do the same for datagrams.
  \<open>EventLoopThreadPool\<close> creates loops in threads of their own.

  How it is modelled. The state is one record that grows with the components: \<open>kernel\<close> (the answers of
  the operating system and the log of calls), \<open>reactor\<close> (channels, loops, the current thread), \<open>net\<close>
  (connections), \<open>world\<close> (acceptors and servers) and \<open>udp\<close>. Objects are numbers into stores. An operation
  takes the state and returns \<open>Inl\<close> of a failure (an assertion that does not hold, an abort, an
  access C++ gives no meaning to) or \<open>Inr\<close> of the result. Bound functions are names (\<open>callback\<close>, \<open>task\<close>);
  their meaning is given where all components are known, by \<open>server_call\<close> and \<open>server_exec\<close>, or
  \<open>udp_call\<close> and \<open>udp_exec\<close>. System calls are answered by an arbitrary function: a
  theorem that relies on the documented behaviour of a call says so in a hypothesis.

  Theories and sources.
  \<^item> \<open>Prelude\<close>: failures, results, runs of lists of operations, the contracts shared by components.
  \<^item> \<open>Decimal\<close>: the decimal text \<open>snprintf\<close> produces, and its reader.
  \<^item> \<open>Timestamp\<close> (base/Timestamp.h, .cc), \<open>CapsuledAddr\<close> (base/CapsuledAddr.h, .cpp): time stamps on
    64-bit words, socket addresses on 16- and 32-bit words; printing and reading back.
  \<^item> \<open>Double\<close>, \<open>TimeDifference\<close>: the operations of \<open>double\<close> that base/Timestamp.h uses, and the functions there
    that use them.
  \<^item> \<open>Kernel\<close> (base/Socket.cpp, base/FileDescriptor.h): system calls and their wrappers.
  \<^item> \<open>Buffer_Spec\<close>, \<open>Buffer\<close> (base/Buffer.h): the contract of a byte queue, and the ring buffer. It meets
    the contract under guards; the theorems also give the exact effect where it does not.
  \<^item> \<open>Channel\<close> (net/Channel.h, .cpp), \<open>Poller_Spec\<close>, \<open>Poller\<close> (net/Poller.h, .cpp): masks and dispatch;
    the contract of a registry and its implementation by an array with swapping removal.
  \<^item> \<open>EventLoop\<close> (net/EventLoop.h, .cpp): every operation of the loop as one sequential function;
    \<open>LoopProtocol\<close>: the loop, its own thread's calls and other threads' calls as interleaved steps, and
    the operations of the loop as runs of these steps.
  \<^item> \<open>Stream_Spec\<close>, \<open>TcpConnection\<close> (net/TcpConnection.h, .cpp): the contract of an ordered stream, and the
    connection that implements it.
  \<^item> \<open>Drain\<close>: a connection whose peer keeps reading sends everything it has queued.
  \<^item> \<open>ThreadPool\<close> (base/Thread.h, .cpp, net/EventLoopThread.h, .cpp, net/EventLoopThreadPool.h, .cpp).
  \<^item> \<open>TcpServer\<close> (net/Acceptor.h, .cpp, net/TcpServer.h, .cpp).
  \<^item> \<open>LoopClient\<close>: the contract between a loop and a program on it (\<open>locale loop_client\<close>): what every
    callback and functor keeps, the loop keeps. \<open>ServerLife\<close>: programs of the user over the public
    operations, and the steps that do not touch the life of a connection. \<open>ServerInv\<close>: the invariant of
    the server, kept by every callback and functor, and the interpretation of the contract with it.
    \<open>Setup\<close>: everything a program can do before it starts its loop. \<open>ServerRuns\<close>: the theorems on turns and
    whole runs of a server that was set up in this way, for any answers of the kernel, and a concrete run.
  \<^item> \<open>LoopRefinement\<close>: the simulation between the sequential loop and the protocol, for every program that acts on the
    loop only by \<open>queueInLoop\<close> and \<open>quitLoop\<close> (\<open>locale protocol_client\<close>, an extension of \<open>loop_client\<close>).
    \<open>ServerProtocol\<close>: every callback and functor of the server is such a step, because no connection ever has the
    eventfd's descriptor; the interpretation of the contract; turns and runs of a server are runs of the protocol.
  \<^item> \<open>Lifetime\<close>: who owns a connection (\<open>shared_ptr\<close>), who has its address only, and its destructor;
    \<open>SharedConn\<close>: one connection and the calls of other threads, as interleaved steps.
  \<^item> \<open>Udp\<close> (net/UdpHandler.h, .cpp, net/UdpServer.h, .cpp, net/UdpCallbacks.h), with a memory for
    the pointers that are passed around.
  \<^item> \<open>Teardown\<close>: the destructors of the servers, the acceptor, the handler and the pool.

  The last section of this theory is an echo server over all the components, as in tests/testEcho.cpp.

  What the theorems show. The life of connections: from the map to the queue to destruction, once,
  never back, within one turn, for every program of the user. The stream of a connection: every byte once and in
  order, partial writes included, and all of them within as many flushes when the peer keeps reading. The protocol of the loop: no wake-up is lost, functors run once and in
  order, a woken loop makes progress; and the sequential loop of a server, with any program of the user, is an implementation of
  it, so that its poll never sleeps on a functor that a functor queued. The poller: the array, the map and the positions agree, and a poll
  activates exactly the channels with events. The buffer: a queue, under guards. Round trips of addresses,
  time stamps and messages. The lifetime of connections: no address of a destroyed connection is used in a
  server that is called from its own thread; a call from another thread is safe when the caller keeps its
  \<open>shared_ptr\<close>, and not otherwise; the destructor of a server leaves its channels in the poller. Differences of time stamps: bounds on the error of rounding. Several theorems state behaviour the authors cannot have meant, exactly as
  the code has it: bytes lost by a split append, the assertion a slow reader triggers, a quit that is
  forgotten, the pool that is never started, the thread that is joined but not told to leave its loop, the
  length a datagram's receiver is given.

  Bounds and fuel. The loop is a partial function into \<open>option\<close>; \<open>None\<close> is a loop that is never left, and
  \<open>startLoop_returns_iff\<close> says when it is left. The runs of \<open>ServerProtocol\<close> assume of the kernel that \<open>poll\<close> reports the
  eventfd exactly when its counter is positive (\<open>eventfd_polled\<close>). Sizes and indices are \<open>nat\<close> where the guards of the
  code keep them in range; results of system calls are integers, with the conversions between
  signed and unsigned 64-bit values written out where the code relies on them.

  Not modelled. Console output; \<open>noncopyable\<close> (no behaviour at run time); the signal SIGPIPE and its being
  ignored; the reuse of memory (the record of a connection stays after its destruction, and \<open>Lifetime\<close> says
  that nothing uses it); data races inside one operation other than those of the loop's queue, flags and eventfd and of a
  connection's \<open>shared_ptr\<close>; the tests except the buffer test.
  The theorems of \<open>ServerInv\<close>, \<open>ServerRuns\<close> and \<open>Lifetime\<close> are about servers whose loop runs in one thread: since
  the pool is never started, this is every server the library can start; calls from other threads are the
  subject of \<open>LoopProtocol\<close> and \<open>SharedConn\<close>.
\<close>

section \<open>An echo server\<close>

text \<open>The program of \<open>tests/testEcho.cpp\<close>: the message callback takes everything out of the input buffer
  and sends it back.\<close>

definition echo_program :: "user_event \<Rightarrow> 'a world_scheme \<Rightarrow> user_op list" where
  "echo_program e w = (case e of
       OnMessage k i t \<Rightarrow> [UserTakeAll i, UserSend i (contents (tc_inputBuffer (conns w i)))]
     | _ \<Rightarrow> [])"

lemma send_ok_input: "send_ok i m (set_conn i (tc_inputBuffer_update (\<lambda>_. b)) w) = send_ok i m w"
  by (simp add: send_ok_def wakes_def sent_at_once_def)

lemma echo_answers:
  assumes inv: "conn_inv i w" and conn: "is_conn i w" "TcpConnection.connected i w"
    and ok: "send_ok i (contents (tc_inputBuffer (conns w i))) w"
  shows "\<exists>w'. react L echo_program (OnMessage k i t) w = Inr w' \<and> conn_inv i w'
     \<and> conn_stream i w' = conn_stream i w @ contents (tc_inputBuffer (conns w i))
     \<and> contents (tc_inputBuffer (conns w' i)) = []"
proof -
  let ?in = "tc_inputBuffer (conns w i)"
  let ?v = "set_conn i (tc_inputBuffer_update (\<lambda>_. retrieveAll ?in)) w"
  have size: "0 < bufferSize ?in" by (rule inv_size_pos [OF conn_invD(6) [OF inv]])
  have v: "conn_inv i ?v" "send_ok i (contents ?in) ?v" "TcpConnection.connected i ?v" "is_conn i ?v"
    using inv ok conn size by (simp_all add: conn_inv_def retrieveAll_inv send_ok_input TcpConnection.connected_def is_conn_def)
  from sendInLoop_returns [OF v(1,2)] obtain w' b where
    w': "sendInLoop i (contents ?in) ?v = Inr w'" "conn_inv i w'" "conn_stream i w' = conn_stream i ?v @ contents ?in"
      "conns w' = (conns ?v)(i := (conns ?v i)\<lparr>tc_outputBuffer := b\<rparr>)" by blast
  have "react L echo_program (OnMessage k i t) w = Inr w'"
    using conn(1) v(4) w'(1) retrieveAsString_contents [OF conn_invD(6) [OF inv]]
    by (simp add: react_def echo_program_def user_perform_def send_connected [OF v(1,3)])
  moreover have "conn_stream i ?v = conn_stream i w" by (simp add: conn_stream_def)
  moreover have "contents (tc_inputBuffer (conns w' i)) = []" using size by (simp add: w'(4) retrieveAll_contents)
  ultimately show ?thesis using w'(2,3) by auto
qed


definition echo_world :: world where
  "echo_world = (new_process (\<lambda>_. (returns 5)\<lparr>payload := ''hello''\<rparr>) 0 1)\<lparr>
     chans := (\<lambda>c. Channel_ctor 0 (int c + 8)), conns := (\<lambda>_. example_conn\<lparr>tc_msgCB := Some 0\<rparr>)\<rparr>"


end
